(* ===== verification/Prelude.thy ===== *)
theory Prelude
  imports Main "HOL-Library.Word"
begin

text \<open>
  The vocabulary every component shares: bytes and the memory a raw pointer reads, the faults
  that undefined behaviour or an uncaught exception turns into, the sequencing of fallible
  steps, and the fixed-width arithmetic of \<open>size_t\<close> and \<open>uint32_t\<close>.

  A \<open>char *\<close> is modelled by the list of bytes that are readable from it on. A read at or
  past the end of that list is the fault \<open>OutOfBounds\<close>: the model never invents a byte.
  The list may be longer than the length the program passes along with the pointer, and then
  the bytes past that length are the ones a read past the end of the buffer really sees.
\<close>

section \<open>Bytes and faults\<close>

type_synonym bytes = "char list"

abbreviation CR :: char where "CR \<equiv> CHR 0x0D"
abbreviation LF :: char where "LF \<equiv> CHR 0x0A"
abbreviation CRLF :: bytes where "CRLF \<equiv> [CR, LF]"

text \<open>
  What a step of the program can end in instead of a value. \<open>NullDeref\<close> is a null pointer or the
  address of an object that is gone; \<open>EmptyQueue\<close> is \<open>front()\<close> of an empty \<open>std::queue\<close>, which refers to no
  object either and has a name of its own because the program can reach it. \<open>OutOfFuel\<close> is not a behaviour
  of the program: it marks a run of a fuelled definition that was given too little fuel, and
  every fuelled definition has a theorem that rules it out.
\<close>

datatype fault =
    OutOfBounds
  | NullDeref
  | EmptyQueue
  | DivByZero
  | StackSmash
  | Terminate
  | OutOfFuel

type_synonym 'a run = "fault + 'a"

definition andThen :: "'a run \<Rightarrow> ('a \<Rightarrow> 'b run) \<Rightarrow> 'b run" where
  "andThen r k = (case r of Inl e \<Rightarrow> Inl e | Inr x \<Rightarrow> k x)"

named_theorems run_simps \<open>sequencing of fallible steps\<close>

lemma andThen_Inr [simp, run_simps]: "andThen (Inr x) k = k x"
  by (simp add: andThen_def)

lemma andThen_Inl [simp, run_simps]: "andThen (Inl e) k = Inl e"
  by (simp add: andThen_def)

lemma andThen_eq_Inr: "andThen r k = Inr y \<longleftrightarrow> (\<exists>x. r = Inr x \<and> k x = Inr y)"
  by (cases r) auto

lemma andThen_eq_Inl:
  "andThen r k = Inl e \<longleftrightarrow> r = Inl e \<or> (\<exists>x. r = Inr x \<and> k x = Inl e)"
  by (cases r) auto

lemma andThen_InrE [elim!]:
  assumes "andThen r k = Inr y"
  obtains x where "r = Inr x" "k x = Inr y"
  using assms by (auto simp: andThen_eq_Inr)

lemma andThen_cong [fundef_cong]:
  "r = r' \<Longrightarrow> (\<And>x. r' = Inr x \<Longrightarrow> k x = k' x) \<Longrightarrow> andThen r k = andThen r' k'"
  by (cases r') auto

lemma andThen_assoc: "andThen (andThen r k) h = andThen r (\<lambda>x. andThen (k x) h)"
  by (cases r) auto

section \<open>Reading memory\<close>

definition deref :: "bytes \<Rightarrow> nat \<Rightarrow> char run" where
  "deref mem i = (if i < length mem then Inr (mem ! i) else Inl OutOfBounds)"

text \<open>The \<open>n\<close> bytes from offset \<open>off\<close> on, as a copying callee reads them.\<close>

definition mem_slice :: "bytes \<Rightarrow> nat \<Rightarrow> nat \<Rightarrow> bytes run" where
  "mem_slice mem off n =
     (if off + n \<le> length mem then Inr (take n (drop off mem)) else Inl OutOfBounds)"

named_theorems mem_simps \<open>reads of a memory given as an append\<close>

lemma deref_lt [simp]: "i < length mem \<Longrightarrow> deref mem i = Inr (mem ! i)"
  by (simp add: deref_def)

lemma deref_ge [simp]: "length mem \<le> i \<Longrightarrow> deref mem i = Inl OutOfBounds"
  by (simp add: deref_def)

lemma deref_eq_Inr: "deref mem i = Inr b \<longleftrightarrow> i < length mem \<and> mem ! i = b"
  by (auto simp: deref_def)

lemma deref_append [mem_simps]:
  "deref (xs @ ys) i = (if i < length xs then deref xs i else deref ys (i - length xs))"
  by (auto simp: deref_def nth_append)

lemma deref_Cons_0 [mem_simps]: "deref (x # xs) 0 = Inr x"
  by (simp add: deref_def)

lemma mem_slice_middle [mem_simps]: "mem_slice (xs @ ys @ zs) (length xs) (length ys) = Inr ys"
  by (simp add: mem_slice_def)

lemma mem_slice_eq_Inr:
  "mem_slice mem off n = Inr bs \<longleftrightarrow> off + n \<le> length mem \<and> bs = take n (drop off mem)"
  by (auto simp: mem_slice_def)

section \<open>Fixed-width unsigned arithmetic\<close>

text \<open>
  A \<open>size_t\<close> is a natural number below \<open>2 ^ 64\<close>; addition and subtraction wrap. A
  \<open>uint32_t\<close> made from a wider value keeps its low 32 bits.
\<close>

abbreviation size_limit :: nat where "size_limit \<equiv> 2 ^ 64"

definition size_add :: "nat \<Rightarrow> nat \<Rightarrow> nat" where
  "size_add a b = (a + b) mod size_limit"

definition size_sub :: "nat \<Rightarrow> nat \<Rightarrow> nat" where
  "size_sub a b = (a + (size_limit - b mod size_limit)) mod size_limit"

definition to_uint32 :: "nat \<Rightarrow> nat" where
  "to_uint32 n = n mod 2 ^ 32"

lemma size_add_exact: "a + b < size_limit \<Longrightarrow> size_add a b = a + b"
  by (simp add: size_add_def)

lemma size_sub_exact: "b \<le> a \<Longrightarrow> a < size_limit \<Longrightarrow> size_sub a b = a - b"
proof -
  assume "b \<le> a" and "a < size_limit"
  then have "a + (size_limit - b mod size_limit) = (a - b) + size_limit" and "a - b < size_limit"
    by auto
  then show ?thesis unfolding size_sub_def by (metis mod_add_self2 mod_less)
qed

lemma size_sub_wraps: "a < b \<Longrightarrow> b < size_limit \<Longrightarrow> size_sub a b = size_limit - (b - a)"
  by (simp add: size_sub_def)

lemma to_uint32_exact: "n < 2 ^ 32 \<Longrightarrow> to_uint32 n = n"
  by (simp add: to_uint32_def)

lemma to_uint32_less: "to_uint32 n < 2 ^ 32"
  by (simp add: to_uint32_def)

lemma to_uint32_le: "to_uint32 n \<le> n"
  by (simp add: to_uint32_def)

section \<open>Lists\<close>

lemma fold_append_single: "fold f (xs @ [x]) s = f x (fold f xs s)"
  by simp

lemma takeWhile_eq_all: "(\<And>x. x \<in> set xs \<Longrightarrow> P x) \<Longrightarrow> takeWhile P xs = xs"
  by (simp add: takeWhile_eq_all_conv)

lemma takeWhile_stop:
  "(\<And>x. x \<in> set xs \<Longrightarrow> P x) \<Longrightarrow> (case ys of [] \<Rightarrow> True | y # _ \<Rightarrow> \<not> P y) \<Longrightarrow>
   takeWhile P (xs @ ys) = xs"
  by (cases ys) (simp_all add: takeWhile_append)

end
