(* ===== verification/Cxx_Std.thy ===== *)
theory Cxx_Std
  imports Prelude
begin

text \<open>
  The pieces of the C++ standard library the sources compute with: \<open>std::find\<close> over raw
  memory, the \<open>std::string(const char *, size_t)\<close> constructor, \<open>std::stoi\<close> in base 10
  and \<open>std::to_string\<close> on unsigned values, with the exceptions they throw.
\<close>

section \<open>Exceptions\<close>

datatype std_exception = invalid_argument | out_of_range | length_error | bad_any_cast | logic_error | system_error

section \<open>std::find\<close>

text \<open>
  \<open>std::find(buf + start, buf + stop, c)\<close>: the offset of the first \<open>c\<close>, or \<open>stop\<close>.
  Each byte looked at must be readable.
\<close>

function std_find :: "bytes \<Rightarrow> nat \<Rightarrow> nat \<Rightarrow> char \<Rightarrow> nat run" where
  "std_find mem start stop c =
     (if start = stop then Inr stop
      else andThen (deref mem start)
        (\<lambda>b. if b = c then Inr start else std_find mem (start + 1) stop c))"
  by pat_completeness auto
termination
  by (relation "measure (\<lambda>(mem, start, stop, c). length mem - start)")
    (auto simp: deref_eq_Inr)

declare std_find.simps [simp del]

lemma std_find_end [simp]: "std_find mem stop stop c = Inr stop"
  by (simp add: std_find.simps)

lemma std_find_step:
  "start \<noteq> stop \<Longrightarrow> start < length mem \<Longrightarrow>
   std_find mem start stop c =
     (if mem ! start = c then Inr start else std_find mem (start + 1) stop c)"
  by (simp add: std_find.simps [of mem start])

lemma std_find_range:
  "std_find mem start stop c = Inr p \<Longrightarrow> start \<le> stop \<Longrightarrow> start \<le> p \<and> p \<le> stop"
proof (induction mem start stop c rule: std_find.induct)
  case (1 mem start stop c)
  show ?case
  proof (cases "start = stop")
    case False
    with "1.prems" obtain b where b: "deref mem start = Inr b"
      and r: "(if b = c then Inr start else std_find mem (start + 1) stop c) = Inr p"
      by (subst (asm) std_find.simps) auto
    show ?thesis
    proof (cases "b = c")
      case False
      with "1.IH" [OF \<open>start \<noteq> stop\<close> b] r "1.prems"(2) \<open>start \<noteq> stop\<close> show ?thesis by auto
    qed (use r "1.prems" in auto)
  qed (use "1.prems" in auto)
qed

text \<open>What the returned offset means: no hit before it, and a hit at it unless it is the end.\<close>

lemma std_find_hit:
  "std_find mem start stop c = Inr p \<Longrightarrow> start \<le> stop \<Longrightarrow>
   (\<forall>i. start \<le> i \<and> i < p \<longrightarrow> mem ! i \<noteq> c) \<and> (p < stop \<longrightarrow> mem ! p = c \<and> p < length mem)"
proof (induction mem start stop c rule: std_find.induct)
  case (1 mem start stop c)
  show ?case
  proof (cases "start = stop")
    case False
    with "1.prems" obtain b where b: "deref mem start = Inr b"
      and r: "(if b = c then Inr start else std_find mem (start + 1) stop c) = Inr p"
      by (subst (asm) std_find.simps) auto
    show ?thesis
    proof (cases "b = c")
      case True
      with r b show ?thesis by (auto simp: deref_eq_Inr)
    next
      case neq: False
      with r have rec: "std_find mem (start + 1) stop c = Inr p" by simp
      have "start + 1 \<le> stop" using "1.prems"(2) False by simp
      from "1.IH" [OF False b neq rec this] b neq show ?thesis
        by (auto simp: deref_eq_Inr) (metis Suc_leI le_neq_implies_less)+
    qed
  qed (use "1.prems" in auto)
qed

text \<open>Looking over bytes that do not match, up to a match or up to the end.\<close>

lemma std_find_skip:
  assumes "c \<notin> set xs" and "length pre + length xs \<le> stop"
  shows "std_find (pre @ xs @ post) (length pre) stop c =
         std_find (pre @ xs @ post) (length pre + length xs) stop c"
  using assms
proof (induction xs arbitrary: pre)
  case (Cons x xs)
  have "std_find (pre @ (x # xs) @ post) (length pre) stop c =
        std_find ((pre @ [x]) @ xs @ post) (length (pre @ [x])) stop c"
    using Cons.prems by (subst std_find_step) (auto simp: nth_append)
  also have "\<dots> = std_find ((pre @ [x]) @ xs @ post) (length (pre @ [x]) + length xs) stop c"
    by (rule Cons.IH) (use Cons.prems in auto)
  finally show ?case by simp
qed simp

lemma std_find_at:
  assumes "c \<notin> set xs" and "length pre + length xs < stop"
  shows "std_find (pre @ xs @ c # post) (length pre) stop c = Inr (length pre + length xs)"
  using assms std_find_skip [of c xs pre stop "c # post"]
  by (simp add: std_find_step nth_append)

lemma std_find_none:
  assumes "c \<notin> set xs"
  shows "std_find (pre @ xs @ post) (length pre) (length pre + length xs) c =
         Inr (length pre + length xs)"
  using assms std_find_skip [of c xs pre "length pre + length xs" post] by simp

text \<open>A scan inside the readable bytes never faults.\<close>

lemma std_find_total:
  "start \<le> stop \<Longrightarrow> stop \<le> length mem \<Longrightarrow> \<exists>p. std_find mem start stop c = Inr p"
proof (induction mem start stop c rule: std_find.induct)
  case (1 mem start stop c)
  show ?case
  proof (cases "start = stop")
    case False
    with "1.prems" have lt: "start < length mem" by simp
    show ?thesis
    proof (cases "mem ! start = c")
      case neq: False
      from "1.IH" [OF False, of "mem ! start"] lt neq False "1.prems"
      have "\<exists>p. std_find mem (start + 1) stop c = Inr p" by auto
      with False lt neq show ?thesis by (simp add: std_find_step)
    qed (use False lt in \<open>simp add: std_find_step\<close>)
  qed simp
qed

section \<open>std::string(ptr, n)\<close>

text \<open>
  The constructor copies \<open>n\<close> bytes and throws \<open>length_error\<close> when \<open>n\<close> exceeds
  \<open>max_size()\<close> (\<open>2 ^ 63 - 1\<close> for a 64-bit \<open>ptrdiff_t\<close>), before it reads anything.
\<close>

definition string_max_size :: nat where
  "string_max_size = 2 ^ 63 - 1"

definition string_of_ptr :: "bytes \<Rightarrow> nat \<Rightarrow> nat \<Rightarrow> (std_exception + bytes) run" where
  "string_of_ptr mem off n =
     (if string_max_size < n then Inr (Inl length_error)
      else andThen (mem_slice mem off n) (\<lambda>bs. Inr (Inr bs)))"

section \<open>Decimal numbers\<close>

definition is_digit :: "char \<Rightarrow> bool" where
  "is_digit c \<longleftrightarrow> 48 \<le> (of_char c :: nat) \<and> (of_char c :: nat) \<le> 57"

definition digit_value :: "char \<Rightarrow> nat" where
  "digit_value c = of_char c - 48"

definition digit_char :: "nat \<Rightarrow> char" where
  "digit_char d = char_of (48 + d)"

text \<open>\<open>isspace\<close> in the C locale.\<close>

definition is_space :: "char \<Rightarrow> bool" where
  "is_space c \<longleftrightarrow> c = CHR '' '' \<or> 9 \<le> (of_char c :: nat) \<and> (of_char c :: nat) \<le> 13"

definition decimal :: "bytes \<Rightarrow> nat" where
  "decimal ds = foldl (\<lambda>n c. 10 * n + digit_value c) 0 ds"

text \<open>
  \<open>std::stoi(s)\<close>: skip leading space, take one optional sign and the longest run of digits,
  ignore what follows. No digit is \<open>invalid_argument\<close>, a value that is no \<open>int\<close> is
  \<open>out_of_range\<close>.
\<close>

definition skip_sign :: "bytes \<Rightarrow> bool \<times> bytes" where
  "skip_sign s = (case s of
      [] \<Rightarrow> (False, [])
    | c # cs \<Rightarrow> if c = CHR ''-'' then (True, cs) else if c = CHR ''+'' then (False, cs) else (False, s))"

definition stoi :: "bytes \<Rightarrow> std_exception + int" where
  "stoi s =
     (let (neg, t) = skip_sign (dropWhile is_space s);
          ds = takeWhile is_digit t;
          v = (if neg then - int (decimal ds) else int (decimal ds))
      in if ds = [] then Inl invalid_argument
         else if v < - (2 ^ 31) \<or> 2 ^ 31 \<le> v then Inl out_of_range
         else Inr v)"

text \<open>\<open>std::to_string\<close> on an unsigned value, and on an \<open>int\<close>.\<close>

fun to_string :: "nat \<Rightarrow> bytes" where
  "to_string n = (if n < 10 then [digit_char n] else to_string (n div 10) @ [digit_char (n mod 10)])"

declare to_string.simps [simp del]

definition to_string_int :: "int \<Rightarrow> bytes" where
  "to_string_int i = (if i < 0 then CHR ''-'' # to_string (nat (- i)) else to_string (nat i))"

lemma of_char_digit [simp]: "d < 10 \<Longrightarrow> (of_char (digit_char d) :: nat) = 48 + d"
  by (simp add: digit_char_def)

lemma is_digit_digit_char [simp]: "d < 10 \<Longrightarrow> is_digit (digit_char d)"
  by (simp add: is_digit_def)

lemma digit_value_digit_char [simp]: "d < 10 \<Longrightarrow> digit_value (digit_char d) = d"
  by (simp add: digit_value_def)

lemma not_digit_chars [simp]:
  "\<not> is_digit CR" "\<not> is_digit LF" "\<not> is_digit (CHR ''-'')" "\<not> is_digit (CHR ''+'')"
  by (simp_all add: is_digit_def)

lemma digit_not_space: "is_digit c \<Longrightarrow> \<not> is_space c"
  by (auto simp: is_digit_def is_space_def)

lemma decimal_snoc: "decimal (ds @ [c]) = 10 * decimal ds + digit_value c"
  by (simp add: decimal_def)

lemma decimal_to_string [simp]: "decimal (to_string n) = n"
proof (induction n rule: to_string.induct)
  case (1 n)
  show ?case
  proof (cases "n < 10")
    case True
    then show ?thesis by (subst to_string.simps) (simp add: decimal_def)
  next
    case False
    with 1 show ?thesis by (subst to_string.simps) (simp add: decimal_snoc)
  qed
qed

lemma to_string_digits: "c \<in> set (to_string n) \<Longrightarrow> is_digit c"
proof (induction n rule: to_string.induct)
  case (1 n)
  then show ?case
    by (cases "n < 10") (auto simp: to_string.simps [of n])
qed

lemma to_string_not_Nil [simp]: "to_string n \<noteq> []"
  by (subst to_string.simps) simp

lemma to_string_int_chars: "c \<in> set (to_string_int i) \<Longrightarrow> is_digit c \<or> c = CHR ''-''"
  by (auto simp: to_string_int_def dest: to_string_digits split: if_splits)

lemma to_string_int_no_CR [simp]: "CR \<notin> set (to_string_int i)"
  by (auto dest: to_string_int_chars)

lemma stoi_unsigned:
  assumes "n < 2 ^ 31" and "case rest of [] \<Rightarrow> True | c # _ \<Rightarrow> \<not> is_digit c"
  shows "stoi (to_string n @ rest) = Inr (int n)"
proof -
  obtain d ds where t: "to_string n = d # ds" by (cases "to_string n") auto
  have d: "is_digit d" using to_string_digits [of d n] t by simp
  then have "d \<noteq> CHR ''-''" and "d \<noteq> CHR ''+''" by auto
  with d have s: "skip_sign (dropWhile is_space (to_string n @ rest)) = (False, to_string n @ rest)"
    by (simp add: t digit_not_space skip_sign_def)
  have "takeWhile is_digit (to_string n @ rest) = to_string n"
    by (rule takeWhile_stop [OF to_string_digits assms(2)])
  with assms(1) show ?thesis by (simp add: stoi_def s)
qed

lemma stoi_negative:
  assumes "n \<le> 2 ^ 31" and "case rest of [] \<Rightarrow> True | c # _ \<Rightarrow> \<not> is_digit c"
  shows "stoi (CHR ''-'' # to_string n @ rest) = Inr (- int n)"
proof -
  have s: "skip_sign (dropWhile is_space (CHR ''-'' # to_string n @ rest)) = (True, to_string n @ rest)"
    by (simp add: is_space_def skip_sign_def)
  have "takeWhile is_digit (to_string n @ rest) = to_string n"
    by (rule takeWhile_stop [OF to_string_digits assms(2)])
  with assms(1) show ?thesis unfolding stoi_def s by simp
qed

text \<open>Reading back a printed \<open>int\<close>, whatever follows it, as long as no digit does.\<close>

lemma stoi_to_string_int:
  assumes "- (2 ^ 31) \<le> i" and "i < 2 ^ 31"
    and "case rest of [] \<Rightarrow> True | c # _ \<Rightarrow> \<not> is_digit c"
  shows "stoi (to_string_int i @ rest) = Inr i"
proof (cases "i < 0")
  case True
  with assms stoi_negative [of "nat (- i)" rest] show ?thesis
    by (simp add: to_string_int_def)
next
  case False
  with assms stoi_unsigned [of "nat i" rest] show ?thesis
    by (simp add: to_string_int_def nat_less_iff)
qed

lemma stoi_range: "stoi s = Inr v \<Longrightarrow> - (2 ^ 31) \<le> v \<and> v < 2 ^ 31"
  by (auto simp: stoi_def Let_def split: prod.splits if_splits)

end
