(* ===== verification/Resp_Facts.thy ===== *)
theory Resp_Facts
  imports Resp_Parser
begin

text \<open>
  What holds of the parser on every buffer: how far its results reach, that its fuel never
  matters, and the equations of the C++ source that follow from that.
\<close>

section \<open>Sizes that do not wrap\<close>

text \<open>
  The callers pass a \<open>uint32_t\<close> length, so every sum below stays under \<open>2 ^ 64\<close>; the lemmas
  ask for the weaker \<open>len + 2 < 2 ^ 63\<close>, which holds of every buffer a process can address.
\<close>

abbreviation fits :: "nat \<Rightarrow> bool" where "fits len \<equiv> len + 2 < 2 ^ 63"

lemma consumed_exact:
  "index \<le> found \<Longrightarrow> found \<le> len \<Longrightarrow> fits len \<Longrightarrow>
   size_add (size_sub found index) 2 = found - index + 2"
  by (simp add: size_sub_exact size_add_exact)

lemma after_CRLF_exact: "found \<le> len \<Longrightarrow> fits len \<Longrightarrow> size_add found 2 = found + 2"
  by (simp add: size_add_exact)

lemma sub_exact: "index \<le> p \<Longrightarrow> p \<le> len + 2 \<Longrightarrow> fits len \<Longrightarrow> size_sub p index = p - index"
  by (simp add: size_sub_exact)

lemma add_exact: "p + n \<le> len + 2 \<Longrightarrow> fits len \<Longrightarrow> size_add p n = p + n"
  by (simp add: size_add_exact)

lemmas sizes = consumed_exact after_CRLF_exact sub_exact add_exact

section \<open>The delimiter search\<close>

lemma find_CRLF_index_found:
  assumes "find_CRLF_index mem len index = Inr found" and "found \<noteq> 0"
  shows "index \<le> found" and "found \<le> len" and "found + 1 < length mem"
    and "mem ! (found + 1) = LF" and "found < len \<Longrightarrow> mem ! found = CR"
    and "index \<le> i \<Longrightarrow> i < found \<Longrightarrow> mem ! i \<noteq> CR"
proof -
  from assms have "index \<le> len" and p: "std_find mem index len CR = Inr found"
    and b: "deref mem (found + 1) = Inr LF"
    by (auto simp: find_CRLF_index_def split: if_splits)
  from std_find_range [OF p \<open>index \<le> len\<close>] show "index \<le> found" and "found \<le> len" by auto
  from b show "found + 1 < length mem" and "mem ! (found + 1) = LF" by (auto simp: deref_eq_Inr)
  from std_find_hit [OF p \<open>index \<le> len\<close>]
  show "found < len \<Longrightarrow> mem ! found = CR" and "index \<le> i \<Longrightarrow> i < found \<Longrightarrow> mem ! i \<noteq> CR"
    by auto
qed

lemma std_find_no_fuel: "std_find mem start stop c \<noteq> Inl OutOfFuel"
proof (induction mem start stop c rule: std_find.induct)
  case (1 mem start stop c)
  then show ?case
    by (subst std_find.simps) (auto simp: andThen_eq_Inl deref_def split: if_splits)
qed

lemma find_CRLF_no_fuel: "find_CRLF_index mem len index \<noteq> Inl OutOfFuel"
  by (auto simp: find_CRLF_index_def andThen_eq_Inl std_find_no_fuel deref_def split: if_splits)

section \<open>How far a scalar message reaches\<close>

text \<open>
  \<open>limit mem len B\<close>: no line end found lies past \<open>B\<close>. \<open>B = len + 2\<close> always holds; when
  neither of the two bytes behind the buffer is an LF, \<open>B = len\<close> does.
\<close>

definition limit :: "bytes \<Rightarrow> nat \<Rightarrow> nat \<Rightarrow> bool" where
  "limit mem len B \<longleftrightarrow> len \<le> B \<and> B \<le> len + 2 \<and>
     (\<forall>index found. find_CRLF_index mem len index = Inr found \<longrightarrow> found \<noteq> 0 \<longrightarrow> found + 2 \<le> B)"

lemma limit_any: "limit mem len (len + 2)"
  using find_CRLF_index_found(2) by (auto simp: limit_def)

lemma limit_clean:
  assumes "deref mem len \<noteq> Inr LF" and "deref mem (len + 1) \<noteq> Inr LF"
  shows "limit mem len len"
proof -
  have "found + 2 \<le> len" if f: "find_CRLF_index mem len index = Inr found" "found \<noteq> 0"
    for index found
  proof (rule ccontr)
    assume "\<not> found + 2 \<le> len"
    with find_CRLF_index_found(2) [OF f] have "found + 1 = len \<or> found + 1 = len + 1" by linarith
    with find_CRLF_index_found(3,4) [OF f] assms show False by (auto simp: deref_eq_Inr)
  qed
  then show ?thesis by (auto simp: limit_def)
qed

definition consumes :: "nat \<Rightarrow> nat \<Rightarrow> parse \<Rightarrow> bool" where
  "consumes B index r \<longleftrightarrow>
     (snd r = Completed \<longrightarrow> 2 \<le> fst r \<and> index + fst r \<le> B)"

named_theorems consumes_intros \<open>how far each message parser reaches\<close>

lemma consumes_not_Completed [simp]: "r \<noteq> Completed \<Longrightarrow> consumes B index (n, r)"
  by (simp add: consumes_def)

lemma consumes_line:
  assumes "find_CRLF_index mem len index = Inr found" and "found \<noteq> 0" and "fits len"
    and "limit mem len B"
  shows "consumes B index (size_add (size_sub found index) 2, Completed)"
proof -
  from assms(1,2,4) have "found + 2 \<le> B" by (auto simp: limit_def)
  with find_CRLF_index_found(1,2) [OF assms(1,2)] assms(3) show ?thesis
    by (simp add: consumes_def consumed_exact)
qed

lemma process_string_consumes [consumes_intros]:
  "process_string mem len index = Inr r \<Longrightarrow> fits len \<Longrightarrow> limit mem len B \<Longrightarrow> consumes B index r"
  by (auto simp: process_string_def consumes_line split: if_splits)

lemma process_error_consumes [consumes_intros]:
  "process_error mem len index = Inr r \<Longrightarrow> fits len \<Longrightarrow> limit mem len B \<Longrightarrow> consumes B index r"
  by (auto simp: process_error_def consumes_line split: if_splits)

lemma process_integer_consumes [consumes_intros]:
  "process_integer mem len index = Inr r \<Longrightarrow> fits len \<Longrightarrow> limit mem len B \<Longrightarrow> consumes B index r"
  by (auto simp: process_integer_def consumes_line split: if_splits)

lemma consumes_second_line:
  assumes "find_CRLF_index mem len index = Inr found" "found \<noteq> 0"
    and "find_CRLF_index mem len (size_add found 2) = Inr found2" "found2 \<noteq> 0" and "fits len"
    and "limit mem len B"
  shows "consumes B index (size_add (size_sub found2 index) 2, Completed)"
proof -
  from assms(3,4,6) have "found2 + 2 \<le> B" by (auto simp: limit_def)
  with find_CRLF_index_found(1,2) [OF assms(1,2)] find_CRLF_index_found(1,2) [OF assms(3,4)] assms(5)
  show ?thesis by (simp add: consumes_def sizes)
qed

lemma process_bulk_consumes [consumes_intros]:
  "process_bulk mem len index = Inr r \<Longrightarrow> fits len \<Longrightarrow> limit mem len B \<Longrightarrow> consumes B index r"
  by (auto simp: process_bulk_def consumes_line consumes_second_line
      split: if_splits sum.splits)

section \<open>Arrays and the loop\<close>

text \<open>The \<open>switch\<close> over the type byte, as it stands inside the loop.\<close>

abbreviation head_at :: "nat \<Rightarrow> bytes \<Rightarrow> nat \<Rightarrow> nat \<Rightarrow> 's \<Rightarrow> char \<Rightarrow> parse run" where
  "head_at fuel mem len p s c \<equiv>
     (if c = stringReply then process_string mem len p
      else if c = errorReply then process_error mem len p
      else if c = integerReply then process_integer mem len p
      else if c = bulkReply then process_bulk mem len p
      else array_body fuel mem len p s)"

abbreviation type_bytes :: "char set" where
  "type_bytes \<equiv> {stringReply, errorReply, integerReply, bulkReply, arrayReply}"

lemma resp_loop_done:
  "\<not> processed < len \<Longrightarrow>
   resp_loop (Suc fuel) mem len cb index processed s = Inr ((size_sub processed index, Completed), s)"
  by (simp add: resp_loop.simps)

lemma resp_loop_SucE:
  assumes "resp_loop (Suc fuel) mem len cb index processed s = Inr (r, s')" and "processed < len"
  obtains
    (unknown) c where "deref mem processed = Inr c" "c \<notin> type_bytes"
      "r = (size_sub processed index, Error)" "s' = s"
  | (stop) c n res where "deref mem processed = Inr c" "c \<in> type_bytes"
      "head_at fuel mem len processed s c = Inr (n, res)" "res \<noteq> Completed"
      "r = (size_sub processed index, res)" "s' = s"
  | (more) c n s1 where "deref mem processed = Inr c" "c \<in> type_bytes"
      "head_at fuel mem len processed s c = Inr (n, Completed)"
      "run_cb cb processed n s = Inr s1"
      "resp_loop fuel mem len cb index (size_add processed n) s1 = Inr (r, s')"
proof -
  from assms obtain c where c: "deref mem processed = Inr c"
    by (auto simp: resp_loop.simps)
  show ?thesis
  proof (cases "c \<in> type_bytes")
    case False
    with assms c show ?thesis by (intro unknown [of c]) (simp_all add: resp_loop.simps)
  next
    case True
    with assms c obtain n res where h: "head_at fuel mem len processed s c = Inr (n, res)"
      by (auto simp: resp_loop.simps)
    show ?thesis
    proof (cases "res = Completed")
      case False
      with assms c True h show ?thesis by (intro stop [of c n res]) (simp_all add: resp_loop.simps)
    next
      case compl: True
      with assms c True h obtain s1 where "run_cb cb processed n s = Inr s1"
        "resp_loop fuel mem len cb index (size_add processed n) s1 = Inr (r, s')"
        by (auto simp: resp_loop.simps)
      with c True h compl more [of c n s1] show ?thesis by simp
    qed
  qed
qed

definition stays :: "nat \<Rightarrow> nat \<Rightarrow> nat \<Rightarrow> nat \<Rightarrow> parse \<Rightarrow> bool" where
  "stays B len index from r \<longleftrightarrow> from \<le> index + fst r \<and> index + fst r \<le> B \<and>
     (snd r = Completed \<longrightarrow> len \<le> index + fst r)"

lemma head_at_consumes:
  assumes "head_at fuel mem len p s c = Inr r" and "fits len" and "limit mem len B"
    and "c \<in> type_bytes"
    and "c = arrayReply \<Longrightarrow> array_body fuel mem len p s = Inr r \<Longrightarrow> consumes B p r"
  shows "consumes B p r"
  using assms by (auto intro: consumes_intros split: if_splits)

lemma reach_aux:
  "fits len \<Longrightarrow> limit mem len B \<Longrightarrow> index \<le> processed \<Longrightarrow> processed \<le> B \<Longrightarrow>
     resp_loop fuel mem len cb index processed s = Inr (r, s') \<Longrightarrow>
     stays B len index processed r"
  "fits len \<Longrightarrow> limit mem len B \<Longrightarrow> array_body fuel mem len index s = Inr r \<Longrightarrow> consumes B index r"
  "fits len \<Longrightarrow> limit mem len B \<Longrightarrow> index \<le> sub \<Longrightarrow> sub \<le> B \<Longrightarrow>
     array_loop fuel mem len todo index sub s = Inr r \<Longrightarrow>
     snd r = Completed \<longrightarrow>
       sub \<le> index + fst r \<and> index + fst r \<le> B \<and> (0 < todo \<longrightarrow> len \<le> index + fst r)"
proof (induction fuel mem len cb index processed s and fuel mem len index s
    and fuel mem len todo index sub s
    arbitrary: r s' and r and r
    rule: resp_loop_array_body_array_loop.induct)
  case (1 mem len cb index processed s)
  then show ?case by (simp add: resp_loop.simps)
next
  case (2 fuel mem len cb index processed s)
  from "2.prems" have B: "len \<le> B" "B \<le> len + 2" by (auto simp: limit_def)
  with "2.prems" have sub: "size_sub processed index = processed - index"
    by (simp add: size_sub_exact)
  show ?case
  proof (cases "processed < len")
    case False
    with "2.prems" B sub show ?thesis by (auto simp: resp_loop_done stays_def)
  next
    case True
    from "2.prems"(5) True show ?thesis
    proof (cases rule: resp_loop_SucE)
      case (more c n s1)
      have cons: "consumes B processed (n, Completed)"
        by (rule head_at_consumes [OF more(3) \<open>fits len\<close> \<open>limit mem len B\<close> more(2)])
          (use "2.IH"(1) [OF True more(1,2)] "2.prems"(1,2) in auto)
      then have le: "processed + n \<le> B" and "2 \<le> n" by (auto simp: consumes_def)
      moreover from le B "2.prems"(1) have "size_add processed n = processed + n"
        by (simp add: size_add_exact)
      ultimately have "stays B len index (processed + n) r"
        using "2.IH"(2) [OF True more(1,2,3) _ _ more(4)] more(5) "2.prems" by simp
      then show ?thesis by (simp add: stays_def)
    qed (use "2.prems"(1-4) True sub B in \<open>simp_all add: stays_def\<close>)
  qed
next
  case (3 fuel mem len index s)
  from "3.prems"(3) obtain found where f: "find_CRLF_index mem len index = Inr found"
    by (auto simp: array_body.simps)
  show ?case
  proof (cases "found = 0")
    case True
    with f "3.prems"(3) show ?thesis by (auto simp: array_body.simps)
  next
    case False
    with f "3.prems"(3) obtain e where e: "parse_length mem index found = Inr e"
      by (auto simp: array_body.simps)
    note found = find_CRLF_index_found [OF f False]
    have B: "found + 2 \<le> B" "len \<le> B" "B \<le> len + 2"
      using f False "3.prems"(2) by (auto simp: limit_def)
    show ?thesis
    proof (cases "\<exists>v. e = Inr v \<and> 0 < v")
      case True
      then obtain v where v: "e = Inr v" "0 < v" by auto
      with f e False "3.prems"(3)
      have l: "array_loop fuel mem len (nat v) index (size_add found 2) s = Inr r"
        by (auto simp: array_body.simps)
      moreover have "size_add found 2 = found + 2"
        using B "3.prems"(1) by (simp add: size_add_exact)
      ultimately show ?thesis
        using "3.IH" [OF f False e v(1), of r] v(2) found(1) "3.prems"(1,2) B
        by (cases "snd r = Completed") (simp_all add: consumes_def)
    next
      case nonpos: False
      with f e False "3.prems" found show ?thesis
        by (auto simp: array_body.simps consumes_line split: sum.splits if_splits)
    qed
  qed
next
  case (4 fuel mem len todo index sub s)
  from "4.prems" have B: "len \<le> B" "B \<le> len + 2" by (auto simp: limit_def)
  show ?case
  proof (cases "todo = 0")
    case True
    with "4.prems" B show ?thesis by (auto simp: array_loop.simps size_sub_exact)
  next
    case False
    with "4.prems"(5) obtain n res s1
      where l: "resp_loop fuel mem len None sub sub s = Inr ((n, res), s1)"
      by (auto simp: array_loop.simps)
    from "4.IH"(1) [OF False \<open>fits len\<close> \<open>limit mem len B\<close> order_refl \<open>sub \<le> B\<close> l]
    have st: "stays B len sub sub (n, res)" .
    show ?thesis
    proof (cases "res = Completed")
      case compl: True
      with l False "4.prems"(5)
      have rest: "array_loop fuel mem len (todo - 1) index (size_add sub n) s = Inr r"
        by (auto simp: array_loop.simps)
      from st compl have le: "sub + n \<le> B" "len \<le> sub + n" by (auto simp: stays_def)
      with B "4.prems"(1) have "size_add sub n = sub + n" by (simp add: size_add_exact)
      with "4.IH"(2) [OF False l refl refl] compl rest le B "4.prems"
      show ?thesis by auto
    next
      case nc: False
      with l False "4.prems"(5) show ?thesis by (auto simp: array_loop.simps)
    qed
  qed
qed

lemmas resp_loop_reach = reach_aux(1)
lemmas array_body_reach = reach_aux(2)
lemmas array_loop_reach = reach_aux(3)

lemmas resp_loop_stays = resp_loop_reach [OF _ limit_any]
lemmas array_body_consumes = array_body_reach [OF _ limit_any]

section \<open>Fuel\<close>

text \<open>
  Fuel above the number of bytes left gives one result, whatever the amount: a round of the
  loop costs one unit and consumes at least two bytes, and an array starts its elements behind
  its own header.
\<close>

lemma fuel_aux:
  "fits len \<Longrightarrow> processed \<le> len + 2 \<Longrightarrow> len - processed < fuel \<Longrightarrow> len - processed < fuel' \<Longrightarrow>
     resp_loop fuel mem len cb index processed s = resp_loop fuel' mem len cb index processed s"
  "fits len \<Longrightarrow> index < len \<Longrightarrow> len - index \<le> fuel \<Longrightarrow> len - index \<le> fuel' \<Longrightarrow>
     array_body fuel mem len index s = array_body fuel' mem len index s"
  "fits len \<Longrightarrow> sub \<le> len + 2 \<Longrightarrow> len - sub < fuel \<Longrightarrow> len - sub < fuel' \<Longrightarrow>
     array_loop fuel mem len todo index sub s = array_loop fuel' mem len todo index sub s"
proof (induction fuel mem len cb index processed s and fuel mem len index s
    and fuel mem len todo index sub s
    arbitrary: fuel' and fuel' and fuel'
    rule: resp_loop_array_body_array_loop.induct)
  case (1 mem len cb index processed s)
  then show ?case by simp
next
  case (2 fuel mem len cb index processed s)
  from "2.prems"(4) obtain f where f: "fuel' = Suc f" by (cases fuel') auto
  show ?case
  proof (cases "processed < len")
    case False
    then show ?thesis by (simp add: f resp_loop_done)
  next
    case True
    have body: "array_body fuel mem len processed s = array_body f mem len processed s"
      if "deref mem processed = Inr c" "c = arrayReply" for c
      using "2.IH"(1) [OF True that(1)] that "2.prems" True f by simp
    have head: "head_at fuel mem len processed s c = head_at f mem len processed s c"
      if "deref mem processed = Inr c" "c \<in> type_bytes" for c
      using body [OF that(1)] that(2) by auto
    have more: "resp_loop fuel mem len cb index (size_add processed n) s1 =
                resp_loop f mem len cb index (size_add processed n) s1"
      if c: "deref mem processed = Inr c" "c \<in> type_bytes"
        and h: "head_at fuel mem len processed s c = Inr (n, Completed)"
        and cb: "run_cb cb processed n s = Inr s1" for c n s1
    proof -
      have "consumes (len + 2) processed (n, Completed)"
        by (rule head_at_consumes [OF h \<open>fits len\<close> limit_any c(2)])
          (rule array_body_consumes [OF \<open>fits len\<close>])
      then have "processed + n \<le> len + 2" "2 \<le> n" by (auto simp: consumes_def)
      with "2.IH"(2) [OF True c h refl _ cb] "2.prems" True f show ?thesis
        by (simp add: add_exact)
    qed
    show ?thesis
      unfolding f resp_loop.simps(2) using True
      by (intro if_cong refl andThen_cong) (auto split: prod.splits intro!: andThen_cong more simp: body [OF _ refl])
  qed
next
  case (3 fuel mem len index s)
  have loop: "array_loop fuel mem len (nat v) index (size_add found 2) s =
              array_loop fuel' mem len (nat v) index (size_add found 2) s"
    if f: "find_CRLF_index mem len index = Inr found" "found \<noteq> 0"
      and e: "parse_length mem index found = Inr (Inr v)" and v: "\<not> (v = 0 \<or> v = -1)" "\<not> v < -1"
    for found v
  proof -
    note found = find_CRLF_index_found [OF f]
    from "3.IH" [OF f e refl v] found "3.prems" show ?thesis by (simp add: after_CRLF_exact)
  qed
  show ?case
    unfolding array_body.simps by (intro andThen_cong if_cong refl) (auto split: sum.splits intro: loop)
next
  case (4 fuel mem len todo index sub s)
  show ?case
  proof (cases "todo = 0")
    case True
    then show ?thesis by (simp add: array_loop.simps)
  next
    case False
    from "4.IH"(1) [OF False "4.prems"]
    have eq: "resp_loop fuel mem len None sub sub s = resp_loop fuel' mem len None sub sub s" .
    have rest: "array_loop fuel mem len (todo - 1) index (size_add sub n) s =
                array_loop fuel' mem len (todo - 1) index (size_add sub n) s"
      if r: "resp_loop fuel mem len None sub sub s = Inr ((n, Completed), s1)" for n s1
    proof -
      from resp_loop_stays [OF \<open>fits len\<close> order_refl \<open>sub \<le> len + 2\<close> r]
      have "sub + n \<le> len + 2" "len \<le> sub + n" by (auto simp: stays_def)
      with "4.IH"(2) [OF False r refl refl] "4.prems" show ?thesis by (simp add: add_exact)
    qed
    show ?thesis
      unfolding array_loop.simps [of fuel mem len todo index sub s]
        array_loop.simps [of fuel' mem len todo index sub s] eq [symmetric] using False
      by (intro if_cong refl andThen_cong) (auto split: prod.splits intro: rest [simplified])
  qed
qed


text \<open>So the functions of the source satisfy the source's own equations.\<close>

lemma resp_loop_fuel:
  "fits len \<Longrightarrow> processed \<le> len + 2 \<Longrightarrow> len - processed < fuel \<Longrightarrow>
   resp_loop fuel mem len cb index processed s = resp_from mem len cb index processed s"
  unfolding resp_from_def by (rule fuel_aux(1)) auto

lemma array_loop_fuel:
  "fits len \<Longrightarrow> sub \<le> len + 2 \<Longrightarrow> len - sub < fuel \<Longrightarrow>
   array_loop fuel mem len todo index sub s = array_loop (len + 1) mem len todo index sub s"
  by (rule fuel_aux(3)) auto

text \<open>Without a callback the state is only carried along.\<close>

lemma state_aux:
  "cb = None \<Longrightarrow>
     resp_loop fuel mem len cb index processed s =
     andThen (resp_loop fuel mem len (None :: unit on_resp option) index processed ()) (\<lambda>(r, _). Inr (r, s))"
  "array_body fuel mem len index s = array_body fuel mem len index ()"
  "array_loop fuel mem len todo index sub s = array_loop fuel mem len todo index sub ()"
proof (induction fuel mem len cb index processed s and fuel mem len index s
    and fuel mem len todo index sub s
    rule: resp_loop_array_body_array_loop.induct)
  case (1 mem len cb index processed s)
  then show ?case by (simp add: resp_loop.simps)
next
  case (2 fuel mem len cb index processed s)
  have body: "array_body fuel mem len processed s = array_body fuel mem len processed ()"
    if "processed < len" "deref mem processed = Inr arrayReply"
    using "2.IH"(1) [OF that] by simp
  have more: "resp_loop fuel mem len None index (size_add processed n) s =
      andThen (resp_loop fuel mem len (None :: unit on_resp option) index (size_add processed n) ())
        (\<lambda>(r, _). Inr (r, s))"
    if "processed < len" "deref mem processed = Inr c" "c \<in> type_bytes"
      "head_at fuel mem len processed s c = Inr (n, Completed)" for c n
    using "2.IH"(2) [OF that refl _ _ "2.prems"] "2.prems" by (simp add: run_cb_def)
  have cb: "run_cb None p n t = Inr t" for p n t by (simp add: run_cb_def)
  show ?case
    unfolding resp_loop.simps(2) andThen_assoc if_distrib [of "\<lambda>r. andThen r _"] "2.prems" cb
    by (intro if_cong refl andThen_cong)
      (auto split: prod.splits intro!: andThen_cong more simp: body)
next
  case (3 fuel mem len index s)
  then show ?case
    unfolding array_body.simps by (intro andThen_cong if_cong refl) (auto split: sum.splits)
next
  case (4 fuel mem len todo index sub s)
  have "resp_loop fuel mem len None sub sub s =
      andThen (resp_loop fuel mem len (None :: unit on_resp option) sub sub ()) (\<lambda>(r, _). Inr (r, s))"
    if "todo \<noteq> 0"
    using "4.IH"(1) [OF that refl] .
  moreover have "array_loop fuel mem len (todo - 1) index (size_add sub n) s =
      array_loop fuel mem len (todo - 1) index (size_add sub n) ()"
    if "todo \<noteq> 0" "resp_loop fuel mem len None sub sub s = Inr ((n, Completed), s1)" for n s1
    using "4.IH"(2) [OF that refl refl] by simp
  ultimately show ?case
    unfolding array_loop.simps [of fuel mem len todo index sub s]
      array_loop.simps [of fuel mem len todo index sub "()"]
    by (cases "resp_loop fuel mem len (None :: unit on_resp option) sub sub ()") auto
qed


lemma array_body_unit: "array_body fuel mem len index s = array_body fuel mem len index ()"
  by (rule state_aux(2))

lemma array_body_fuel:
  "fits len \<Longrightarrow> index < len \<Longrightarrow> len - index \<le> fuel \<Longrightarrow>
   array_body fuel mem len index s = process_array mem len index"
  unfolding process_array_def array_body_unit [of _ _ _ _ s] by (rule fuel_aux(2)) auto

lemma resp_from_no_cb:
  "resp_from mem len None index processed s =
   andThen (resp_from mem len (None :: unit on_resp option) index processed ()) (\<lambda>(r, _). Inr (r, s))"
  unfolding resp_from_def by (rule state_aux(1)) simp

lemma resp_from_None_unit:
  "resp_from mem len None index processed s = Inr (r, s') \<Longrightarrow>
   resp_from mem len (None :: unit on_resp option) index processed () = Inr (r, ())"
  by (subst (asm) resp_from_no_cb) auto

text \<open>One round of the \<open>while\<close> loop of \<open>process_resp\<close>, without fuel.\<close>

definition head_message :: "bytes \<Rightarrow> nat \<Rightarrow> nat \<Rightarrow> char \<Rightarrow> parse run" where
  "head_message mem len p c =
     (if c = stringReply then process_string mem len p
      else if c = errorReply then process_error mem len p
      else if c = integerReply then process_integer mem len p
      else if c = bulkReply then process_bulk mem len p
      else process_array mem len p)"

lemma process_array_consumes [consumes_intros]:
  "process_array mem len index = Inr r \<Longrightarrow> fits len \<Longrightarrow> limit mem len B \<Longrightarrow> consumes B index r"
  unfolding process_array_def by (rule array_body_reach)

lemma head_message_consumes:
  "head_message mem len p c = Inr r \<Longrightarrow> fits len \<Longrightarrow> limit mem len B \<Longrightarrow> consumes B p r"
  by (auto simp: head_message_def intro: consumes_intros split: if_splits)

lemma resp_from_done:
  "\<not> processed < len \<Longrightarrow>
   resp_from mem len cb index processed s = Inr ((size_sub processed index, Completed), s)"
  by (simp add: resp_from_def resp_loop_done)

lemma resp_from_step:
  assumes "fits len" and "processed < len"
  shows "resp_from mem len cb index processed s =
     andThen (deref mem processed) (\<lambda>c.
       if c \<in> type_bytes then
         andThen (head_message mem len processed c)
           (\<lambda>(n, result).
             if result \<noteq> Completed then Inr ((size_sub processed index, result), s)
             else andThen (run_cb cb processed n s)
               (\<lambda>s'. resp_from mem len cb index (size_add processed n) s'))
       else Inr ((size_sub processed index, Error), s))"
proof -
  have body: "array_body len mem len processed s = process_array mem len processed"
    by (rule array_body_fuel) (use assms in auto)
  have more: "resp_loop len mem len cb index (size_add processed n) s1 =
              resp_from mem len cb index (size_add processed n) s1"
    if "head_message mem len processed c = Inr (n, Completed)" for c n s1
  proof -
    from head_message_consumes [OF that assms(1) limit_any]
    have "processed + n \<le> len + 2" "2 \<le> n" by (auto simp: consumes_def)
    with assms show ?thesis by (intro resp_loop_fuel) (auto simp: add_exact)
  qed
  have "resp_from mem len cb index processed s = resp_loop (Suc len) mem len cb index processed s"
    by (simp add: resp_from_def)
  then show ?thesis
    unfolding resp_loop.simps(2) body head_message_def [symmetric] using assms(2)
    by (elim ssubst) (simp only: if_True, intro if_cong refl andThen_cong,
      auto split: prod.splits intro!: andThen_cong more)
qed

section \<open>What an array header does\<close>

text \<open>
  The element parser is \<open>process_resp\<close> itself, which does not stop after one message but runs
  to the end of the buffer. So only the first round of the \<open>for\<close> loop does any work: the later
  ones start at the end and return at once.
\<close>

lemma array_loop_past_end:
  assumes "len \<le> sub" and "sub \<le> len + 2" and "fits len" and "0 < fuel"
  shows "array_loop fuel mem len todo index sub s = Inr (size_sub sub index, Completed)"
  using assms
proof (induction todo)
  case 0
  then show ?case by (simp add: array_loop.simps)
next
  case (Suc todo)
  then obtain f where "fuel = Suc f" by (cases fuel) auto
  then have "resp_loop fuel mem len None sub sub s = Inr ((0, Completed), s)"
    using Suc.prems by (simp add: resp_loop_done size_sub_exact)
  with Suc show ?case by (simp add: array_loop.simps [of _ _ _ "Suc todo"] size_add_exact)
qed

lemma array_loop_swallows:
  assumes "0 < todo" and "index \<le> sub" and "sub \<le> len + 2" and "fits len"
  shows "array_loop (len + 1) mem len todo index sub s =
     andThen (resp_from mem len None sub sub s)
       (\<lambda>((n, result), _). if result \<noteq> Completed then Inr (0, Error)
                           else Inr (sub + n - index, Completed))"
proof -
  have rest: "array_loop (len + 1) mem len (todo - 1) index (size_add sub n) s =
      Inr (sub + n - index, Completed)"
    if "resp_from mem len None sub sub s = Inr ((n, Completed), s1)" for n s1
  proof -
    from resp_loop_stays [OF assms(4) order_refl assms(3) that [unfolded resp_from_def]]
    have "len \<le> sub + n" "sub + n \<le> len + 2" by (auto simp: stays_def)
    with assms show ?thesis
      by (simp add: add_exact array_loop_past_end size_sub_exact)
  qed
  show ?thesis
    unfolding array_loop.simps [of "len + 1" mem len todo index sub s] resp_from_def [symmetric]
    using assms(1) by (auto intro!: andThen_cong rest [simplified] split: prod.splits)
qed

lemma process_array_unfold:
  assumes "fits len"
  shows "process_array mem len index =
     andThen (find_CRLF_index mem len index)
       (\<lambda>found. if found \<noteq> 0 then
          andThen (parse_length mem index found)
            (\<lambda>r. case r of
                Inl _ \<Rightarrow> Inr (0, Error)
              | Inr array_size \<Rightarrow>
                  if array_size = 0 \<or> array_size = -1 then Inr (found - index + 2, Completed)
                  else if array_size < -1 then Inr (0, Error)
                  else andThen (process_resp mem len (None :: unit on_resp option) (found + 2) ())
                    (\<lambda>((n, result), _). if result \<noteq> Completed then Inr (0, Error)
                                        else Inr (found + 2 + n - index, Completed)))
        else Inr (0, Incompleted))"
proof -
  have loop: "array_loop (len + 1) mem len (nat v) index (size_add found 2) () =
      andThen (process_resp mem len (None :: unit on_resp option) (found + 2) ())
        (\<lambda>((n, result), _). if result \<noteq> Completed then Inr (0, Error)
                            else Inr (found + 2 + n - index, Completed))"
    if "find_CRLF_index mem len index = Inr found" "found \<noteq> 0" "\<not> (v = 0 \<or> v = -1)" "\<not> v < -1"
    for found v
  proof -
    note found = find_CRLF_index_found(1,2) [OF that(1,2)]
    then have eq: "size_add found 2 = found + 2" using assms by (simp add: after_CRLF_exact)
    show ?thesis
      unfolding process_resp_def eq
      by (rule array_loop_swallows) (use found that(3,4) assms in auto)
  qed
  have line: "size_add (size_sub found index) 2 = found - index + 2"
    if "find_CRLF_index mem len index = Inr found" "found \<noteq> 0" for found
    using find_CRLF_index_found(1,2) [OF that] assms by (simp add: consumed_exact)
  show ?thesis
    unfolding process_array_def array_body.simps
    by (intro andThen_cong if_cong refl sum.case_cong) (simp_all add: loop [simplified] line)
qed

section \<open>No undefined behaviour with two readable bytes behind the buffer\<close>

lemma find_CRLF_total:
  "len + 2 \<le> length mem \<Longrightarrow> \<exists>found. find_CRLF_index mem len index = Inr found"
proof (cases "len < index")
  case False
  assume "len + 2 \<le> length mem"
  moreover from False this obtain p where p: "std_find mem index len CR = Inr p"
    using std_find_total [of index len mem CR] by auto
  moreover have "p \<le> len" using std_find_range [OF p] False by simp
  ultimately show ?thesis using False by (simp add: find_CRLF_index_def)
qed (simp add: find_CRLF_index_def)

lemma parse_length_total:
  assumes "find_CRLF_index mem len index = Inr found" and "found \<noteq> 0" and "fits len"
  shows "\<exists>r. parse_length mem index found = Inr r"
proof -
  note found = find_CRLF_index_found(1-3) [OF assms(1,2)]
  show ?thesis
  proof (cases "found = index")
    case True
    then have "size_sub (size_sub found index) 1 = size_limit - 1"
      using found assms(3) by (simp add: size_sub_exact size_sub_wraps)
    then show ?thesis by (simp add: parse_length_def string_of_ptr_def string_max_size_def)
  next
    case False
    with found assms(3) have "size_sub (size_sub found index) 1 = found - index - 1"
      by (simp add: size_sub_exact)
    with found False show ?thesis
      by (auto simp: parse_length_def string_of_ptr_def mem_slice_def split: sum.splits)
  qed
qed

lemma head_message_total:
  assumes "fits len" and "len + 2 \<le> length mem" and "index < len"
    and "\<And>sub. index < sub \<Longrightarrow> sub \<le> len + 2 \<Longrightarrow>
           \<exists>r. process_resp mem len (None :: unit on_resp option) sub () = Inr r"
  shows "\<exists>r. head_message mem len index c = Inr r"
proof -
  note find = find_CRLF_total [OF assms(2)]
  obtain found where f: "find_CRLF_index mem len index = Inr found" using find by blast
  show ?thesis
  proof (cases "found = 0")
    case True
    then show ?thesis
      using f assms(1) by (auto simp: head_message_def process_string_def process_error_def
          process_integer_def process_bulk_def process_array_unfold)
  next
    case False
    note found = find_CRLF_index_found(1,2) [OF f False]
    obtain e where e: "parse_length mem index found = Inr e"
      using parse_length_total [OF f False assms(1)] by blast
    obtain r where r: "process_resp mem len (None :: unit on_resp option) (found + 2) () = Inr r"
      using assms(4) [of "found + 2"] found by auto
    obtain found2 where f2: "find_CRLF_index mem len (size_add found 2) = Inr found2"
      using find by blast
    have "\<exists>r. process_array mem len index = Inr r"
      using f False e r assms(1) by (cases r) (auto simp: process_array_unfold split: sum.splits)
    moreover have "\<exists>r. process_bulk mem len index = Inr r"
      using f False e f2 by (auto simp: process_bulk_def split: sum.splits)
    ultimately show ?thesis
      using f by (auto simp: head_message_def process_string_def process_error_def process_integer_def)
  qed
qed

definition cb_total :: "'s on_resp option \<Rightarrow> bool" where
  "cb_total cb \<longleftrightarrow> (\<forall>f off n s. cb = Some f \<longrightarrow> (\<exists>s'. f off n s = Inr s'))"

lemma cb_total_None [simp]: "cb_total None"
  by (simp add: cb_total_def)

lemma run_cb_total: "cb_total cb \<Longrightarrow> \<exists>s'. run_cb cb off n s = Inr s'"
  by (auto simp: cb_total_def run_cb_def split: option.splits)

lemma resp_from_total:
  assumes "fits len" and "len + 2 \<le> length mem"
  shows "cb_total cb \<Longrightarrow> processed \<le> len + 2 \<Longrightarrow>
    \<exists>r. resp_from mem len cb index processed s = Inr r"
proof (induction "len + 2 - processed" arbitrary: cb index processed s rule: less_induct)
  case less
  show ?case
  proof (cases "processed < len")
    case False
    then show ?thesis by (simp add: resp_from_done)
  next
    case True
    have sub: "\<exists>r. process_resp mem len (None :: unit on_resp option) sub () = Inr r"
      if gt: "processed < sub" "sub \<le> len + 2" for sub
    proof -
      have "len + 2 - sub < len + 2 - processed" using gt by linarith
      from less.hyps [OF this cb_total_None gt(2), of sub s] obtain r s'
        where "resp_from mem len None sub sub s = Inr (r, s')" by auto
      then show ?thesis unfolding process_resp_def by (blast dest: resp_from_None_unit)
    qed
    obtain c where c: "deref mem processed = Inr c"
      using True assms(2) by (simp add: deref_def)
    obtain n res where h: "head_message mem len processed c = Inr (n, res)"
      using head_message_total [OF assms True sub] by (metis surj_pair)
    obtain s1 where s1: "run_cb cb processed n s = Inr s1"
      using run_cb_total [OF less.prems(1)] by blast
    have "\<exists>r. resp_from mem len cb index (size_add processed n) s1 = Inr r" if "res = Completed"
    proof -
      have "2 \<le> n" "processed + n \<le> len + 2"
        using head_message_consumes [OF h assms(1) limit_any] that by (auto simp: consumes_def)
      moreover from this assms(1) have "size_add processed n = processed + n"
        by (simp add: size_add_exact)
      ultimately show ?thesis using less.hyps [of "processed + n"] less.prems by simp
    qed
    with c h s1 assms(1) True show ?thesis by (auto simp: resp_from_step)
  qed
qed

section \<open>The fuel never runs out\<close>

lemma head_message_fuel:
  assumes "process_array mem len p \<noteq> Inl OutOfFuel"
  shows "head_message mem len p c \<noteq> Inl OutOfFuel"
  using assms find_CRLF_no_fuel
  by (auto simp: head_message_def process_string_def process_error_def process_integer_def
      process_bulk_def parse_length_def string_of_ptr_def mem_slice_def andThen_eq_Inl
      split: sum.splits if_splits)

lemma process_array_no_fuel:
  assumes "fits len"
    and "\<And>sub. index < sub \<Longrightarrow> sub \<le> len + 2 \<Longrightarrow>
           process_resp mem len (None :: unit on_resp option) sub () \<noteq> Inl OutOfFuel"
  shows "process_array mem len index \<noteq> Inl OutOfFuel"
proof -
  have "process_resp mem len (None :: unit on_resp option) (Suc (Suc found)) () \<noteq> Inl OutOfFuel"
    if "find_CRLF_index mem len index = Inr found" "0 < found" for found
    using assms(2) [of "found + 2"] find_CRLF_index_found(1,2) [OF that(1)] that(2) by simp
  then show ?thesis
    using find_CRLF_no_fuel [of mem len index] assms(1)
    by (auto simp: process_array_unfold parse_length_def string_of_ptr_def mem_slice_def
        andThen_eq_Inl split: sum.splits if_splits prod.splits)
qed

lemma resp_from_no_fuel:
  assumes "fits len"
  shows "(\<And>f off n s. cb = Some f \<Longrightarrow> f off n s \<noteq> Inl OutOfFuel) \<Longrightarrow> processed \<le> len + 2 \<Longrightarrow>
    resp_from mem len cb index processed s \<noteq> Inl OutOfFuel"
proof (induction "len + 2 - processed" arbitrary: cb index processed s rule: less_induct)
  case less
  show ?case
  proof (cases "processed < len")
    case False
    then show ?thesis by (simp add: resp_from_done)
  next
    case True
    have "process_resp mem len (None :: unit on_resp option) sub () \<noteq> Inl OutOfFuel"
      if gt: "processed < sub" "sub \<le> len + 2" for sub
    proof -
      have "len + 2 - sub < len + 2 - processed" using gt by linarith
      from less.hyps [OF this _ gt(2), of None sub s]
      have "resp_from mem len None sub sub s \<noteq> Inl OutOfFuel" by simp
      then show ?thesis
        unfolding process_resp_def by (subst (asm) resp_from_no_cb) auto
    qed
    from head_message_fuel [OF process_array_no_fuel [OF assms this]]
    have h: "head_message mem len processed c \<noteq> Inl OutOfFuel" for c .
    have cb: "run_cb cb processed n s \<noteq> Inl OutOfFuel" for n
      using less.prems(1) by (auto simp: run_cb_def split: option.splits)
    have "resp_from mem len cb index (size_add processed n) s1 \<noteq> Inl OutOfFuel"
      if "head_message mem len processed c = Inr (n, Completed)" for c n s1
    proof -
      have "2 \<le> n" "processed + n \<le> len + 2"
        using head_message_consumes [OF that assms limit_any] by (auto simp: consumes_def)
      moreover from this assms have "size_add processed n = processed + n"
        by (simp add: size_add_exact)
      ultimately show ?thesis using less.hyps [of "processed + n"] less.prems by simp
    qed
    with h cb assms True show ?thesis
      by (auto simp: resp_from_step andThen_eq_Inl deref_def split: if_splits prod.splits)
  qed
qed

end
