(* ===== verification/Resp_Stream.thy ===== *)
theory Resp_Stream
  imports Resp_Facts
begin

text \<open>
  The parser on well-formed input. RESP values are written out as a flat sequence of tokens,
  which is also how the parser sees them: a header \<open>*n\<close> and then whatever follows. The
  theorems here say, for every sequence of tokens and for every prefix of one, which callbacks
  \<open>process_resp\<close> makes and how many bytes it reports as consumed.
\<close>

section \<open>RESP values and tokens\<close>

datatype resp =
    SimpleString bytes
  | ErrorReply bytes
  | Integer int
  | Bulk bytes
  | NullBulk
  | Array "resp list"
  | NullArray

datatype token =
    TString bytes
  | TError bytes
  | TInteger int
  | TBulk bytes
  | TNullBulk
  | THeader int

fun token_bytes :: "token \<Rightarrow> bytes" where
  "token_bytes (TString s) = stringReply # s @ CRLF"
| "token_bytes (TError s) = errorReply # s @ CRLF"
| "token_bytes (TInteger i) = integerReply # to_string_int i @ CRLF"
| "token_bytes (TBulk s) = bulkReply # to_string_int (int (length s)) @ CRLF @ s @ CRLF"
| "token_bytes TNullBulk = bulkReply # to_string_int (-1) @ CRLF"
| "token_bytes (THeader n) = arrayReply # to_string_int n @ CRLF"

abbreviation tokens_bytes :: "token list \<Rightarrow> bytes" where
  "tokens_bytes ts \<equiv> concat (map token_bytes ts)"

fun tokens_of :: "resp \<Rightarrow> token list" where
  "tokens_of (SimpleString s) = [TString s]"
| "tokens_of (ErrorReply s) = [TError s]"
| "tokens_of (Integer i) = [TInteger i]"
| "tokens_of (Bulk s) = [TBulk s]"
| "tokens_of NullBulk = [TNullBulk]"
| "tokens_of (Array vs) = THeader (int (length vs)) # concat (map tokens_of vs)"
| "tokens_of NullArray = [THeader (-1)]"

definition resp_bytes :: "resp \<Rightarrow> bytes" where
  "resp_bytes v = tokens_bytes (tokens_of v)"

text \<open>
  What the parser can frame: payloads without a CR (for bulk strings this is a restriction of
  this parser, which looks for the next CR instead of counting) and lengths that are an \<open>int\<close>.
\<close>

fun plain :: "token \<Rightarrow> bool" where
  "plain (TString s) \<longleftrightarrow> CR \<notin> set s"
| "plain (TError s) \<longleftrightarrow> CR \<notin> set s"
| "plain (TInteger i) \<longleftrightarrow> True"
| "plain (TBulk s) \<longleftrightarrow> CR \<notin> set s \<and> length s < 2 ^ 31"
| "plain TNullBulk \<longleftrightarrow> True"
| "plain (THeader n) \<longleftrightarrow> -1 \<le> n \<and> n < 2 ^ 31"

text \<open>A header that announces elements opens an array; the others are complete in themselves.\<close>

definition opens :: "token \<Rightarrow> bool" where
  "opens t \<longleftrightarrow> (case t of THeader n \<Rightarrow> 0 < n | _ \<Rightarrow> False)"

lemma opens_simps [simp]:
  "\<not> opens (TString s)" "\<not> opens (TError s)" "\<not> opens (TInteger i)" "\<not> opens (TBulk s)"
  "\<not> opens TNullBulk" "opens (THeader n) \<longleftrightarrow> 0 < n"
  by (simp_all add: opens_def)

section \<open>Reading one line\<close>

lemma find_CRLF_line:
  assumes "CR \<notin> set xs" and "length pre + length xs < len" and "0 < length pre + length xs"
  shows "find_CRLF_index (pre @ xs @ CRLF @ post) len (length pre) = Inr (length pre + length xs)"
  using assms std_find_at [of CR xs pre len "LF # post"]
  by (simp add: find_CRLF_index_def deref_append)

text \<open>No line end in the buffer: the answer is 0, provided the bytes past the end say so.\<close>

lemma find_CRLF_unfinished:
  assumes "CR \<notin> set xs" and "b \<noteq> LF"
  shows "find_CRLF_index (pre @ xs @ a # b # post) (length pre + length xs) (length pre) = Inr 0"
  using assms std_find_none [of CR xs pre "a # b # post"]
  by (simp add: find_CRLF_index_def deref_def nth_append)

lemma find_CRLF_unfinished_CR:
  assumes "CR \<notin> set xs" and "a \<noteq> LF"
  shows "find_CRLF_index (pre @ xs @ CR # a # post) (length pre + length xs + 1) (length pre) = Inr 0"
  using assms std_find_at [of CR xs pre "length pre + length xs + 1" "a # post"]
  by (simp add: find_CRLF_index_def deref_def nth_append)

lemma parse_length_line:
  assumes "length ds + 1 < string_max_size" and "length pre + length ds + 2 < size_limit"
  shows "parse_length (pre @ c # ds @ post) (length pre) (length pre + length (c # ds)) = Inr (stoi ds)"
proof -
  have "size_sub (size_sub (length pre + length (c # ds)) (length pre)) 1 = length ds"
    using assms(2) by (simp add: size_sub_exact)
  moreover have "mem_slice (pre @ c # ds @ post) (length pre + 1) (length ds) = Inr ds"
    using mem_slice_middle [of "pre @ [c]" ds post] by simp
  ultimately show ?thesis
    using assms(1) by (simp add: parse_length_def string_of_ptr_def)
qed

section \<open>Complete tokens\<close>

lemma token_bytes_head: "hd (token_bytes t) \<in> type_bytes" "token_bytes t \<noteq> []"
  by (cases t; simp)+

lemma header_line:
  assumes "CR \<notin> set ds" and "length pre + length ds + 3 \<le> len" and "fits len" and "c \<noteq> CR"
  shows "find_CRLF_index (pre @ c # ds @ CRLF @ post) len (length pre) = Inr (length pre + length ds + 1) \<and>
    size_add (size_sub (length pre + length ds + 1) (length pre)) 2 = length ds + 3 \<and>
    parse_length (pre @ c # ds @ CRLF @ post) (length pre) (length pre + length ds + 1) = Inr (stoi ds)"
proof (intro conjI)
  show "find_CRLF_index (pre @ c # ds @ CRLF @ post) len (length pre) = Inr (length pre + length ds + 1)"
    using assms find_CRLF_line [of "c # ds" pre len post] by simp
  show "size_add (size_sub (length pre + length ds + 1) (length pre)) 2 = length ds + 3"
    using assms by (simp add: size_sub_exact size_add_exact)
  show "parse_length (pre @ c # ds @ CRLF @ post) (length pre) (length pre + length ds + 1) = Inr (stoi ds)"
    using assms parse_length_line [of ds pre c "CRLF @ post"] by (simp add: string_max_size_def)
qed

lemma stoi_int: "- (2 ^ 31) \<le> i \<Longrightarrow> i < 2 ^ 31 \<Longrightarrow> stoi (to_string_int i) = Inr i"
  using stoi_to_string_int [of i "[]"] by simp

lemma process_bulk_complete:
  assumes s: "CR \<notin> set s" "length s < 2 ^ 31"
    and len: "length pre + length (token_bytes (TBulk s)) \<le> len" "fits len"
  shows "process_bulk (pre @ token_bytes (TBulk s) @ post) len (length pre) =
    Inr (length (token_bytes (TBulk s)), Completed)"
proof -
  define ds where "ds = to_string_int (int (length s))"
  define m where "m = pre @ bulkReply # ds @ CRLF @ s @ CRLF @ post"
  define f where "f = length pre + length ds + 1"
  define h where "h = length pre + length ds + 3 + length s"
  have ds: "CR \<notin> set ds" and stoi: "stoi ds = Inr (int (length s))"
    using s by (simp_all add: ds_def stoi_int)
  have bound: "length pre + length ds + 3 + length s + 2 \<le> len"
    using len(1) by (simp add: ds_def)
  have "find_CRLF_index m len (length pre) = Inr f"
    and "parse_length m (length pre) f = Inr (Inr (int (length s)))"
    using header_line [OF ds, of pre len bulkReply "s @ CRLF @ post"] bound len(2) stoi
    by (simp_all add: m_def f_def)
  moreover have "find_CRLF_index m len (size_add f 2) = Inr h"
    using find_CRLF_line [of s "pre @ bulkReply # ds @ CRLF" len post] s(1) bound len(2)
    by (simp add: m_def f_def h_def size_add_exact numeral_3_eq_3)
  moreover have "f \<noteq> 0" "h \<noteq> 0" "size_add (size_sub h (length pre)) 2 = length ds + length s + 5"
    using bound len(2) by (simp_all add: f_def h_def size_add_exact size_sub_exact)
  ultimately have "process_bulk m len (length pre) = Inr (length ds + length s + 5, Completed)"
    by (simp add: process_bulk_def)
  then show ?thesis by (simp add: m_def ds_def)
qed

lemma head_message_scalar:
  assumes "plain t" and "\<not> opens t"
    and len: "length pre + length (token_bytes t) \<le> len" "fits len"
  shows "head_message (pre @ token_bytes t @ post) len (length pre) (hd (token_bytes t)) =
    Inr (length (token_bytes t), Completed)"
proof (cases t)
  case (TString s)
  with assms header_line [of s pre len stringReply post] show ?thesis
    by (simp add: head_message_def process_string_def)
next
  case (TError s)
  with assms header_line [of s pre len errorReply post] show ?thesis
    by (simp add: head_message_def process_error_def)
next
  case (TInteger i)
  with assms header_line [of "to_string_int i" pre len integerReply post] show ?thesis
    by (simp add: head_message_def process_integer_def)
next
  case (TBulk s)
  with assms process_bulk_complete [of s pre len post] show ?thesis by (simp add: head_message_def)
next
  case TNullBulk
  with assms header_line [of "to_string_int (-1)" pre len bulkReply post] show ?thesis
    by (simp add: head_message_def process_bulk_def stoi_int)
next
  case (THeader n)
  with assms header_line [of "to_string_int n" pre len arrayReply post] show ?thesis
    by (auto simp: head_message_def process_array_unfold stoi_int)
qed

text \<open>A header that opens an array leaves everything behind it to \<open>process_resp\<close>.\<close>

lemma process_array_header:
  assumes n: "0 < n" "n < 2 ^ 31" and len: "length pre + length (token_bytes (THeader n)) \<le> len" "fits len"
  defines "sub \<equiv> length pre + length (token_bytes (THeader n))"
  shows "process_array (pre @ token_bytes (THeader n) @ post) len (length pre) =
    andThen (process_resp (pre @ token_bytes (THeader n) @ post) len (None :: unit on_resp option) sub ())
      (\<lambda>((m, result), _). if result \<noteq> Completed then Inr (0, Error)
                          else Inr (sub + m - length pre, Completed))"
proof -
  define m where "m = pre @ token_bytes (THeader n) @ post"
  define f where "f = length pre + length (to_string_int n) + 1"
  have "find_CRLF_index m len (length pre) = Inr f" "parse_length m (length pre) f = Inr (Inr n)"
    using header_line [of "to_string_int n" pre len arrayReply post] assms
    by (simp_all add: m_def f_def stoi_int)
  moreover have "f \<noteq> 0" by (simp add: f_def)
  moreover have sub: "sub = f + 2" by (simp add: f_def sub_def)
  ultimately show ?thesis
    unfolding m_def [symmetric] process_array_unfold [OF len(2)] sub using n
    by (simp del: add_2_eq_Suc' add_2_eq_Suc)
qed

section \<open>Frames\<close>

text \<open>
  How the parser cuts a sequence of tokens: one frame per token, until a header opens an array.
  From there on everything is one frame, to the end of the buffer.
\<close>

fun frames :: "token list \<Rightarrow> bytes list" where
  "frames [] = []"
| "frames (t # ts) =
     (if opens t then [tokens_bytes (t # ts)] else token_bytes t # frames ts)"

text \<open>The callbacks for frames that lie one after the other from an offset on.\<close>

fun run_frames :: "'s on_resp option \<Rightarrow> nat \<Rightarrow> bytes list \<Rightarrow> 's \<Rightarrow> 's run" where
  "run_frames cb off [] s = Inr s"
| "run_frames cb off (f # fs) s =
     andThen (run_cb cb off (length f) s) (\<lambda>s'. run_frames cb (off + length f) fs s')"

lemma concat_frames: "concat (frames ts) = tokens_bytes ts"
  by (induction ts) auto

lemma frames_closed: "list_all (\<lambda>t. \<not> opens t) ts \<Longrightarrow> frames ts = map token_bytes ts"
  by (induction ts) auto

lemma run_frames_append:
  "run_frames cb off (fs @ gs) s =
   andThen (run_frames cb off fs s) (\<lambda>s'. run_frames cb (off + length (concat fs)) gs s')"
  by (induction fs arbitrary: off s) (auto simp: andThen_assoc add.assoc intro: andThen_cong)

lemma run_frames_None [simp]: "run_frames None off fs s = Inr s"
  by (induction fs arbitrary: off) (simp_all add: run_cb_def)

lemma resp_from_scalar:
  assumes t: "plain t" "\<not> opens t"
    and len: "length pre + length (token_bytes t) \<le> len" "fits len"
  shows "resp_from (pre @ token_bytes t @ post) len cb index (length pre) s =
    andThen (run_cb cb (length pre) (length (token_bytes t)) s)
      (\<lambda>s'. resp_from (pre @ token_bytes t @ post) len cb index (length pre + length (token_bytes t)) s')"
proof -
  obtain c cs where c: "token_bytes t = c # cs" "c \<in> type_bytes"
    using token_bytes_head [of t] by (cases "token_bytes t") auto
  have d: "deref (pre @ token_bytes t @ post) (length pre) = Inr c"
    by (simp add: c deref_def)
  have h: "head_message (pre @ token_bytes t @ post) len (length pre) c =
      Inr (length (token_bytes t), Completed)"
    using head_message_scalar [OF t len, of post] by (simp only: c(1) list.sel)
  have "length pre < len" using len c by simp
  moreover have "size_add (length pre) (length (token_bytes t)) = length pre + length (token_bytes t)"
    using len by (simp add: size_add_exact)
  ultimately show ?thesis
    using d h c(2) len(2) by (subst resp_from_step) simp_all
qed

text \<open>
  Every sequence of plain tokens is consumed to its end, with one callback per frame. The bytes
  behind it do not matter.
\<close>

lemma resp_from_tokens:
  assumes "list_all plain ts" and "len = length pre + length (tokens_bytes ts)" and "fits len"
    and "index \<le> length pre"
  shows "resp_from (pre @ tokens_bytes ts @ post) len cb index (length pre) s =
    andThen (run_frames cb (length pre) (frames ts) s) (\<lambda>s'. Inr ((len - index, Completed), s'))"
  using assms
proof (induction ts arbitrary: pre cb index s)
  case Nil
  then show ?case by (simp add: resp_from_done size_sub_exact)
next
  case (Cons t ts)
  define m where "m = pre @ token_bytes t @ tokens_bytes ts @ post"
  have m: "pre @ tokens_bytes (t # ts) @ post = m" "(pre @ token_bytes t) @ tokens_bytes ts @ post = m"
    by (simp_all add: m_def)
  show ?case
  proof (cases "opens t")
    case False
    have "resp_from m len cb index (length pre) s =
      andThen (run_cb cb (length pre) (length (token_bytes t)) s)
        (\<lambda>s'. resp_from m len cb index (length (pre @ token_bytes t)) s')"
      unfolding m_def using Cons.prems False
      by (subst resp_from_scalar) auto
    moreover have "resp_from m len cb index (length (pre @ token_bytes t)) s1 =
      andThen (run_frames cb (length (pre @ token_bytes t)) (frames ts) s1)
        (\<lambda>s'. Inr ((len - index, Completed), s'))" for s1
      using Cons.IH [of "pre @ token_bytes t" index cb s1] Cons.prems m by simp
    ultimately show ?thesis
      unfolding m using False by (simp add: andThen_assoc)
  next
    case True
    then obtain n where t: "t = THeader n" and n: "0 < n" by (cases t) auto
    define sub where "sub = length pre + length (token_bytes t)"
    have "resp_from m len None sub sub s = Inr ((len - sub, Completed), s)"
      using Cons.IH [of "pre @ token_bytes t" sub None s] Cons.prems m by (simp add: sub_def)
    then have "process_resp m len (None :: unit on_resp option) sub () = Inr ((len - sub, Completed), ())"
      unfolding process_resp_def by (rule resp_from_None_unit)
    moreover have "sub \<le> len" "length pre < len" using Cons.prems(2) t by (auto simp: sub_def)
    ultimately have a: "process_array m len (length pre) = Inr (len - length pre, Completed)"
      using process_array_header [of n pre len "tokens_bytes ts @ post"] n Cons.prems
      unfolding m_def t sub_def by simp
    have d: "deref m (length pre) = Inr arrayReply" by (simp add: m_def t deref_def)
    have e: "size_add (length pre) (len - length pre) = len" "size_sub len index = len - index"
      using Cons.prems \<open>length pre < len\<close> by (simp_all add: size_add_exact size_sub_exact)
    have "length (tokens_bytes (t # ts)) = len - length pre" using Cons.prems(2) by simp
    then show ?thesis
      unfolding m using True d a e \<open>length pre < len\<close> Cons.prems(3)
      by (subst resp_from_step) (auto simp: head_message_def andThen_assoc resp_from_done intro!: andThen_cong)
  qed
qed

section \<open>Unfinished tokens\<close>

text \<open>
  What is left at the end of a buffer when a token is cut short: a first line without its end,
  or a bulk header with a payload whose line has no end.
\<close>

definition open_line :: "bytes \<Rightarrow> bool" where
  "open_line xs \<longleftrightarrow> CR \<notin> set xs \<or> (\<exists>ys. xs = ys @ [CR] \<and> CR \<notin> set ys)"

inductive unfinished :: "bytes \<Rightarrow> bool" where
  first_line: "c \<in> type_bytes \<Longrightarrow> open_line xs \<Longrightarrow> unfinished (c # xs)"
| payload: "n < 2 ^ 31 \<Longrightarrow> open_line xs \<Longrightarrow>
     unfinished (bulkReply # to_string_int (int n) @ CRLF @ xs)"

lemma find_CRLF_open_line:
  assumes "open_line xs" and "a \<noteq> LF" and "b \<noteq> LF"
  shows "find_CRLF_index (pre @ xs @ a # b # post) (length pre + length xs) (length pre) = Inr 0"
  using assms find_CRLF_unfinished [of xs b pre a post]
    find_CRLF_unfinished_CR [of _ a pre "b # post"]
  by (auto simp: open_line_def)

lemma open_line_Cons: "open_line xs \<Longrightarrow> c \<noteq> CR \<Longrightarrow> open_line (c # xs)"
  unfolding open_line_def by (metis Cons_eq_appendI set_ConsD)

lemma head_message_unfinished:
  assumes "unfinished p" and "a \<noteq> LF" and "b \<noteq> LF" and "fits (length pre + length p)"
  shows "head_message (pre @ p @ a # b # post) (length pre + length p) (length pre) (hd p) =
    Inr (0, Incompleted)"
  using assms(1)
proof cases
  case (first_line c xs)
  then have "open_line p" by (auto intro: open_line_Cons)
  from find_CRLF_open_line [OF this assms(2,3)] first_line assms(4) show ?thesis
    by (auto simp: head_message_def process_string_def process_error_def process_integer_def process_bulk_def
        process_array_unfold)
next
  case (payload n xs)
  define ds where "ds = to_string_int (int n)"
  define m where "m = pre @ bulkReply # ds @ CRLF @ xs @ a # b # post"
  define len where "len = length pre + length p"
  define f where "f = length pre + length ds + 1"
  have len: "len = length pre + length ds + 3 + length xs" "fits len"
    using assms(4) by (simp_all add: len_def payload(1) ds_def)
  have "find_CRLF_index m len (length pre) = Inr f"
    and "parse_length m (length pre) f = Inr (Inr (int n))"
    using header_line [of ds pre len bulkReply "xs @ a # b # post"] len payload(2)
    by (simp_all add: m_def f_def ds_def stoi_int)
  moreover have "find_CRLF_index m len (size_add f 2) = Inr 0"
    using find_CRLF_open_line [OF payload(3) assms(2,3), of "pre @ bulkReply # ds @ CRLF" post] len
    by (simp add: m_def f_def size_add_exact numeral_3_eq_3)
  moreover have "f \<noteq> 0" by (simp add: f_def)
  ultimately have "process_bulk m len (length pre) = Inr (0, Incompleted)"
    by (simp add: process_bulk_def)
  then show ?thesis by (simp add: head_message_def m_def len_def ds_def payload(1))
qed

text \<open>
  A buffer of complete tokens and then an unfinished one: the complete frames are delivered,
  unless an array was opened. An opened array swallows the unfinished token, and then the whole
  array is reported as an error and left in the buffer.
\<close>

definition closed_prefix :: "token list \<Rightarrow> token list" where
  "closed_prefix ts = takeWhile (\<lambda>t. \<not> opens t) ts"

lemma resp_from_unfinished:
  assumes "list_all plain ts" and "unfinished p" and "a \<noteq> LF" and "b \<noteq> LF"
    and "len = length pre + length (tokens_bytes ts) + length p" and "fits len"
    and "index \<le> length pre"
  shows "resp_from (pre @ tokens_bytes ts @ p @ a # b # post) len cb index (length pre) s =
    andThen (run_frames cb (length pre) (map token_bytes (closed_prefix ts)) s)
      (\<lambda>s'. Inr ((length pre + length (tokens_bytes (closed_prefix ts)) - index,
                  if closed_prefix ts = ts then Incompleted else Error), s'))"
  using assms(1,5-)
proof (induction ts arbitrary: pre cb index s)
  case Nil
  obtain c cs where c: "p = c # cs" "c \<in> type_bytes"
    using assms(2) by cases auto
  have len: "length pre + length p = len" "fits (length pre + length p)" using Nil by simp_all
  have h: "head_message (pre @ p @ a # b # post) len (length pre) c = Inr (0, Incompleted)"
    using head_message_unfinished [OF assms(2-4) len(2), of post] len(1)
    by (simp only: c(1) list.sel)
  have "deref (pre @ p @ a # b # post) (length pre) = Inr c" by (simp add: c deref_def)
  moreover have "length pre < len" using Nil c by simp
  ultimately show ?case
    using h c(2) Nil by (subst resp_from_step) (simp_all add: closed_prefix_def size_sub_exact)
next
  case (Cons t ts)
  define m where "m = pre @ token_bytes t @ tokens_bytes ts @ p @ a # b # post"
  have m: "pre @ tokens_bytes (t # ts) @ p @ a # b # post = m"
    "(pre @ token_bytes t) @ tokens_bytes ts @ p @ a # b # post = m"
    by (simp_all add: m_def)
  show ?case
  proof (cases "opens t")
    case False
    have "resp_from m len cb index (length pre) s =
      andThen (run_cb cb (length pre) (length (token_bytes t)) s)
        (\<lambda>s'. resp_from m len cb index (length (pre @ token_bytes t)) s')"
      unfolding m_def using Cons.prems False
      by (subst resp_from_scalar) auto
    moreover note IH = Cons.IH [of "pre @ token_bytes t" index cb]
    ultimately show ?thesis
      unfolding m using IH Cons.prems False m
      by (simp add: andThen_assoc closed_prefix_def add.assoc split del: if_split)
  next
    case True
    then obtain n where t: "t = THeader n" and n: "0 < n" by (cases t) auto
    define sub where "sub = length pre + length (token_bytes t)"
    obtain k res where "resp_from m len None sub sub s = Inr ((k, res), s)" "res \<noteq> Completed"
      using Cons.IH [of "pre @ token_bytes t" sub None s] Cons.prems m
      by (auto simp add: sub_def split: if_splits)
    then have "process_resp m len (None :: unit on_resp option) sub () = Inr ((k, res), ())"
      unfolding process_resp_def by (intro resp_from_None_unit)
    with \<open>res \<noteq> Completed\<close> have a: "process_array m len (length pre) = Inr (0, Error)"
      using process_array_header [of n pre len "tokens_bytes ts @ p @ a # b # post"] n Cons.prems
      unfolding m_def t sub_def by simp
    have "deref m (length pre) = Inr arrayReply" by (simp add: m_def t deref_def)
    moreover have "length pre < len" using Cons.prems(2) t by simp
    ultimately show ?thesis
      unfolding m using True a Cons.prems
      by (subst resp_from_step) (simp_all add: head_message_def closed_prefix_def size_sub_exact)
  qed
qed

end
