(* ===== verification/Resp_Framing.thy ===== *)
theory Resp_Framing
  imports Resp_Stream
begin

text \<open>
  The properties of the parser, stated for \<open>process_resp\<close> as its callers use it: from offset 0
  of a buffer, with a callback. A recording callback collects the delivered messages.
\<close>

section \<open>Recording the delivered messages\<close>

definition record_msg :: "bytes \<Rightarrow> bytes list on_resp" where
  "record_msg mem off n ms = andThen (mem_slice mem off n) (\<lambda>bs. Inr (ms @ [bs]))"

lemma run_frames_record:
  "run_frames (Some (record_msg (pre @ concat fs @ post))) (length pre) fs ms = Inr (ms @ fs)"
proof (induction fs arbitrary: pre ms)
  case (Cons f fs)
  have "mem_slice (pre @ concat (f # fs) @ post) (length pre) (length f) = Inr f"
    using mem_slice_middle [of pre f "concat fs @ post"] by simp
  then show ?case
    using Cons.IH [of "pre @ f" "ms @ [f]"] by (simp add: run_cb_def record_msg_def)
qed simp

lemma run_frames_record_0:
  "run_frames (Some (record_msg (concat fs @ post))) 0 fs ms = Inr (ms @ fs)"
  using run_frames_record [of "[]" fs post ms] by simp

lemma process_resp_tokens:
  assumes "list_all plain ts" and "fits (length (tokens_bytes ts))"
  shows "process_resp (tokens_bytes ts @ post) (length (tokens_bytes ts)) cb 0 s =
    andThen (run_frames cb 0 (frames ts) s)
      (\<lambda>s'. Inr ((length (tokens_bytes ts), Completed), s'))"
  using resp_from_tokens [OF assms(1), of "length (tokens_bytes ts)" "[]" 0 post cb s] assms(2)
  by (simp add: process_resp_def)

lemma process_resp_recorded:
  assumes "list_all plain ts" and "fits (length (tokens_bytes ts))"
  shows "process_resp (tokens_bytes ts @ post) (length (tokens_bytes ts))
      (Some (record_msg (tokens_bytes ts @ post))) 0 ms =
    Inr ((length (tokens_bytes ts), Completed), ms @ frames ts)"
  unfolding process_resp_tokens [OF assms]
  using run_frames_record_0 [of "frames ts" post ms] by (simp add: concat_frames)

lemma frames_value: "frames (tokens_of v) = [resp_bytes v]"
  by (cases v) (auto simp: resp_bytes_def)

lemma to_string_digit: "n < 10 \<Longrightarrow> to_string n = [digit_char n]"
  by (subst to_string.simps) simp

section \<open>Complete input\<close>

text \<open>
  C18: on a buffer that holds complete messages (any sequence of simple strings, errors,
  integers, bulk strings and array headers, without a CR inside a payload), \<open>process_resp\<close>
  consumes the whole buffer, reports Completed and calls back once per frame, in order, with the
  offset and the length of the frame. Bytes behind the buffer have no influence.
\<close>

theorem process_resp_frames:
  assumes "list_all plain ts" and "fits (length (tokens_bytes ts))"
  shows "process_resp (tokens_bytes ts @ post) (length (tokens_bytes ts)) cb 0 s =
    andThen (run_frames cb 0 (frames ts) s)
      (\<lambda>s'. Inr ((length (tokens_bytes ts), Completed), s'))"
  by (rule process_resp_tokens [OF assms])

lemma process_resp_frames_witness:
  "process_resp (tokens_bytes [TString ''OK'', TInteger 7, THeader 1, TBulk ''a''] @ ''zz'')
     20 (Some (\<lambda>off n s. Inr (s @ [(off, n)]))) 0 [] =
   Inr ((20, Completed), [(0, 5), (5, 4), (9, 11)])"
proof -
  let ?ts = "[TString ''OK'', TInteger 7, THeader 1, TBulk ''a'']"
  let ?cb = "Some (\<lambda>off n s. Inr (s @ [(off, n)]))"
  have len: "length (tokens_bytes ?ts) = 20" by code_simp
  have "run_frames ?cb 0 (frames ?ts) [] = Inr [(0, 5), (5, 4), (9, 11)]" by code_simp
  moreover have "list_all plain ?ts" "fits (length (tokens_bytes ?ts))" by (simp_all only: len) simp_all
  ultimately show ?thesis
    using process_resp_frames [of ?ts "''zz''" ?cb "[]"] by (simp only: len) simp
qed

text \<open>
  C17: round trip: the bytes of one RESP value without a CR in any payload (nested arrays included) are
  delivered as exactly one message, the value's own bytes. (A bulk string that holds a CR LF is cut
  there: \<open>bulk_length_ignored\<close>.)
\<close>

theorem process_resp_roundtrip:
  assumes "list_all plain (tokens_of v)" and "fits (length (resp_bytes v))"
  shows "process_resp (resp_bytes v @ post) (length (resp_bytes v))
      (Some (record_msg (resp_bytes v @ post))) 0 [] =
    Inr ((length (resp_bytes v), Completed), [resp_bytes v])"
  using process_resp_recorded [OF assms(1), of post "[]"] assms(2)
  by (simp add: frames_value resp_bytes_def [symmetric])

lemma process_resp_roundtrip_witness:
  "process_resp (resp_bytes (Array [Bulk ''GET'', Array [Integer 7, NullBulk]]) @ [])
      (length (resp_bytes (Array [Bulk ''GET'', Array [Integer 7, NullBulk]])))
      (Some (record_msg (resp_bytes (Array [Bulk ''GET'', Array [Integer 7, NullBulk]]) @ []))) 0 [] =
    Inr ((length (resp_bytes (Array [Bulk ''GET'', Array [Integer 7, NullBulk]])), Completed),
      [resp_bytes (Array [Bulk ''GET'', Array [Integer 7, NullBulk]])])"
proof (rule process_resp_roundtrip)
  show "list_all plain (tokens_of (Array [Bulk ''GET'', Array [Integer 7, NullBulk]]))" by simp
  show "fits (length (resp_bytes (Array [Bulk ''GET'', Array [Integer 7, NullBulk]])))"
    by (simp add: resp_bytes_def to_string_int_def to_string_digit)
qed

section \<open>What the announced counts mean to the parser\<close>

text \<open>
  The element count of an array header is not used: after a header with any positive
  count, whatever complete messages follow, fewer or more than announced, none at all or the
  next commands of a pipeline, are delivered together with the header as one message.
\<close>

theorem array_header_takes_rest:
  assumes "0 < n" and "n < 2 ^ 31" and "list_all plain ts"
    and "fits (length (tokens_bytes (THeader n # ts)))"
  shows "process_resp (tokens_bytes (THeader n # ts) @ post) (length (tokens_bytes (THeader n # ts)))
      (Some (record_msg (tokens_bytes (THeader n # ts) @ post))) 0 [] =
    Inr ((length (tokens_bytes (THeader n # ts)), Completed), [tokens_bytes (THeader n # ts)])"
  using process_resp_recorded [of "THeader n # ts" post "[]"] assms by (simp only: frames.simps) simp

lemma array_header_takes_rest_witness:
  "process_resp (tokens_bytes [THeader 3] @ ''xy'') (length (tokens_bytes [THeader 3]))
      (Some (record_msg (tokens_bytes [THeader 3] @ ''xy''))) 0 [] =
    Inr ((length (tokens_bytes [THeader 3]), Completed), [tokens_bytes [THeader 3]])"
proof (rule array_header_takes_rest)
  show "fits (length (tokens_bytes [THeader 3]))" by (simp add: to_string_int_def to_string_digit)
qed simp_all

text \<open>
  The length of a bulk string is not used either: for every non-negative length in the
  header, the message ends at the first line end of the payload.
\<close>

theorem bulk_length_ignored:
  assumes "n < 2 ^ 31" and "CR \<notin> set s"
    and "length (bulkReply # to_string_int (int n) @ CRLF @ s @ CRLF) \<le> len" and "fits len"
  shows "process_bulk (bulkReply # to_string_int (int n) @ CRLF @ s @ CRLF @ post) len 0 =
    Inr (length (bulkReply # to_string_int (int n) @ CRLF @ s @ CRLF), Completed)"
proof -
  define ds where "ds = to_string_int (int n)"
  define m where "m = bulkReply # ds @ CRLF @ s @ CRLF @ post"
  define f where "f = length ds + 1"
  define h where "h = length ds + 3 + length s"
  have bound: "length ds + 3 + length s + 2 \<le> len" using assms(3) by (simp add: ds_def)
  have "find_CRLF_index m len 0 = Inr f" and "parse_length m 0 f = Inr (Inr (int n))"
    using header_line [of ds "[]" len bulkReply "s @ CRLF @ post"] bound assms(1,4)
    by (simp_all add: m_def f_def ds_def stoi_int)
  moreover have "find_CRLF_index m len (size_add f 2) = Inr h"
    using find_CRLF_line [of s "bulkReply # ds @ CRLF" len post] assms(2,4) bound
    by (simp add: m_def f_def h_def size_add_exact numeral_3_eq_3)
  moreover have "f \<noteq> 0" "h \<noteq> 0" "size_add (size_sub h 0) 2 = length ds + length s + 5"
    using bound assms(4) by (simp_all add: f_def h_def size_add_exact size_sub_exact)
  ultimately have "process_bulk m len 0 = Inr (length ds + length s + 5, Completed)"
    by (simp add: process_bulk_def)
  then show ?thesis by (simp add: m_def ds_def)
qed

lemma bulk_length_ignored_witness:
  "process_bulk (bulkReply # to_string_int (int 5) @ CRLF @ ''ab'' @ CRLF @ []) 100 0 =
    Inr (length (bulkReply # to_string_int (int 5) @ CRLF @ ''ab'' @ CRLF), Completed)"
proof (rule bulk_length_ignored)
  show "length (bulkReply # to_string_int (int 5) @ CRLF @ ''ab'' @ CRLF) \<le> 100"
    by (simp add: to_string_int_def to_string_digit)
qed simp_all

end
