(* ===== verification/Resp_Partial.thy ===== *)
theory Resp_Partial
  imports Resp_Framing
begin

text \<open>
  The parser on input that is cut short or malformed, and at the edge of its buffer: what is
  delivered before the cut, how the rest is picked up by the next read, how far a result can
  reach, and when the reads behind the end of the buffer matter.
\<close>

section \<open>A message cut short\<close>

lemma open_line_prefix: "CR \<notin> set s \<Longrightarrow> s @ CRLF = p @ q \<Longrightarrow> q \<noteq> [] \<Longrightarrow> open_line p"
proof (induction s arbitrary: p)
  case Nil
  then show ?case by (cases p) (auto simp: open_line_def Cons_eq_append_conv)
next
  case (Cons x s)
  show ?case
  proof (cases p)
    case (Cons y p')
    with Cons.prems Cons.IH [of p'] show ?thesis by (auto intro: open_line_Cons)
  qed (simp add: open_line_def)
qed

lemma line_prefix_unfinished:
  assumes "c # s @ CRLF = p @ q" and "CR \<notin> set s" and "c \<in> type_bytes" and "p \<noteq> []" and "q \<noteq> []"
  shows "unfinished p"
proof -
  from assms(1,4) obtain p' where p: "p = c # p'" "s @ CRLF = p' @ q"
    by (cases p) auto
  from open_line_prefix [OF assms(2) p(2) assms(5)] assms(3) show ?thesis
    unfolding p(1) by (intro unfinished.first_line)
qed

lemma proper_prefix_unfinished:
  assumes "plain t" and "token_bytes t = p @ q" and "p \<noteq> []" and "q \<noteq> []"
  shows "unfinished p"
proof (cases t)
  case (TBulk s)
  define hd_line where "hd_line = bulkReply # to_string_int (int (length s)) @ CRLF"
  from assms(2) TBulk have eq: "hd_line @ s @ CRLF = p @ q" by (simp add: hd_line_def)
  show ?thesis
  proof (cases "length p < length hd_line")
    case True
    with arg_cong [OF eq, of "take (length p)"] have "take (length p) hd_line = p" by simp
    with True obtain r where r: "hd_line = p @ r" "r \<noteq> []"
      by (metis append_take_drop_id append_Nil2 less_irrefl)
    from line_prefix_unfinished [OF r(1) [unfolded hd_line_def]] assms(3) r(2) show ?thesis by simp
  next
    case False
    with arg_cong [OF eq, of "take (length hd_line)"] arg_cong [OF eq, of "drop (length hd_line)"]
    have "take (length hd_line) p = hd_line" "s @ CRLF = drop (length hd_line) p @ q" by simp_all
    then obtain p' where p: "p = hd_line @ p'" "s @ CRLF = p' @ q"
      by (metis append_take_drop_id)
    have "open_line p'" using open_line_prefix [OF _ p(2) assms(4)] assms(1) TBulk by simp
    with assms(1) TBulk show ?thesis
      unfolding p(1) hd_line_def using unfinished.payload [of "length s" p'] by simp
  qed
qed (use assms line_prefix_unfinished in \<open>auto simp: to_string_int_no_CR\<close>)

lemma process_resp_cut_aux:
  assumes "list_all plain ts" and "unfinished p" and "a \<noteq> LF" and "b \<noteq> LF"
    and "len = length (tokens_bytes ts @ p)" and "fits len"
  shows "process_resp (tokens_bytes ts @ p @ a # b # post) len cb 0 s =
    andThen (run_frames cb 0 (map token_bytes (closed_prefix ts)) s)
      (\<lambda>s'. Inr ((length (tokens_bytes (closed_prefix ts)),
                  if closed_prefix ts = ts then Incompleted else Error), s'))"
  using resp_from_unfinished [OF assms(1-4), of len "[]" 0 post cb s] assms(5,6)
  unfolding process_resp_def by simp

text \<open>
  C21: a buffer that ends somewhere in a stream of tokens (simple strings, errors, integers, bulk
  strings and array headers, without a CR in a payload), when the two bytes behind it are no LF. If
  it ends inside a token, the frames before that token are delivered and counted as consumed, and
  the result is Incompleted; if an array was opened before, only what precedes its header is delivered, and
  the result is Error. Nothing of the token that is cut is consumed. If the buffer ends between two
  tokens, everything in it is delivered and consumed, and the result is Completed, also when an array lacks
  elements. (An LF behind the buffer can complete a line that is cut: \<open>overread_accepts_unfinished_line\<close>.)
\<close>

theorem process_resp_cut:
  assumes "list_all plain ts" and "plain t" and "token_bytes t = p @ q" and "q \<noteq> []"
    and "a \<noteq> LF" and "b \<noteq> LF" and "fits (length (tokens_bytes ts @ p))"
  shows "process_resp (tokens_bytes ts @ p @ a # b # post) (length (tokens_bytes ts @ p)) cb 0 s =
    (if p = [] then andThen (run_frames cb 0 (frames ts) s) (\<lambda>s'. Inr ((length (tokens_bytes ts), Completed), s'))
     else andThen (run_frames cb 0 (map token_bytes (closed_prefix ts)) s)
      (\<lambda>s'. Inr ((length (tokens_bytes (closed_prefix ts)),
                  if list_all (\<lambda>t. \<not> opens t) ts then Incompleted else Error), s')))"
proof (cases "p = []")
  case True
  then show ?thesis using process_resp_tokens [OF assms(1), of "a # b # post" cb s] assms(7) by simp
next
  case False
  have "closed_prefix ts = ts \<longleftrightarrow> list_all (\<lambda>t. \<not> opens t) ts"
    by (simp add: closed_prefix_def takeWhile_eq_all_conv list_all_iff)
  then show ?thesis
    using process_resp_cut_aux [OF assms(1) proper_prefix_unfinished [OF assms(2,3) False assms(4)] assms(5,6) refl assms(7)] False
    by (simp only: if_False)
qed

lemma process_resp_cut_witness:
  "process_resp (tokens_bytes [TString ''OK''] @ ''+P'' @ CHR ''x'' # CHR ''y'' # [])
      (length (tokens_bytes [TString ''OK''] @ ''+P'')) (Some (\<lambda>off n s. Inr (s @ [(off, n)]))) 0 [] =
    Inr ((5, Incompleted), [(0, 5)])"
proof -
  have "token_bytes (TString ''PING'') = ''+P'' @ ''ING'' @ CRLF" by simp
  from process_resp_cut [OF _ _ this, of "[TString ''OK'']" "CHR ''x''" "CHR ''y''" "[]"
      "Some (\<lambda>off n s. Inr (s @ [(off, n)]))" "[]"]
  show ?thesis by (simp add: closed_prefix_def run_cb_def)
qed

section \<open>Reading on after a cut\<close>

lemma split_tokens:
  assumes "k \<le> length (tokens_bytes ts)"
  obtains (boundary) i where "i \<le> length ts" "take k (tokens_bytes ts) = tokens_bytes (take i ts)"
  | (inside) i p q where "i < length ts" "token_bytes (ts ! i) = p @ q" "p \<noteq> []" "q \<noteq> []"
      "take k (tokens_bytes ts) = tokens_bytes (take i ts) @ p"
  using assms
proof (induction ts arbitrary: k thesis)
  case Nil
  from Nil.prems(1) [of 0] show ?case by simp
next
  case (Cons t ts)
  show ?case
  proof (cases "k < length (token_bytes t)")
    case True
    show ?thesis
    proof (cases "k = 0")
      case True
      from Cons.prems(1) [of 0] True show ?thesis by simp
    next
      case False
      with \<open>k < length (token_bytes t)\<close>
        Cons.prems(2) [of 0 "take k (token_bytes t)" "drop k (token_bytes t)"]
      show ?thesis by (simp add: token_bytes_head)
    qed
  next
    case False
    define k' where "k' = k - length (token_bytes t)"
    have k': "k' \<le> length (tokens_bytes ts)" "take k (tokens_bytes (t # ts)) = token_bytes t @ take k' (tokens_bytes ts)"
      using False Cons.prems(3) by (auto simp: k'_def)
    from k'(1) show ?thesis
    proof (rule Cons.IH [rotated 2])
      fix i assume "i \<le> length ts" "take k' (tokens_bytes ts) = tokens_bytes (take i ts)"
      with k'(2) Cons.prems(1) [of "Suc i"] show thesis by simp
    next
      fix i p q assume "i < length ts" "token_bytes (ts ! i) = p @ q" "p \<noteq> []" "q \<noteq> []"
        "take k' (tokens_bytes ts) = tokens_bytes (take i ts) @ p"
      with k'(2) Cons.prems(2) [of "Suc i" p q] show thesis by simp
    qed
  qed
qed

lemma tokens_bytes_drop:
  "drop (length (tokens_bytes (take i ts))) (tokens_bytes ts) = tokens_bytes (drop i ts)"
proof -
  have "tokens_bytes ts = tokens_bytes (take i ts) @ tokens_bytes (drop i ts)"
    by (metis append_take_drop_id concat_append map_append)
  then show ?thesis by simp
qed

lemma length_tokens_bytes_take: "length (tokens_bytes (take i ts)) \<le> length (tokens_bytes ts)"
  by (metis append_take_drop_id concat_append le_add1 length_append map_append)

lemma closed_take: "list_all (\<lambda>t. \<not> opens t) ts \<Longrightarrow> closed_prefix (take i ts) = take i ts"
  by (auto simp: closed_prefix_def takeWhile_eq_all_conv list_all_iff dest: in_set_takeD)

text \<open>One read of the first \<open>k\<close> bytes of a stream of closed messages.\<close>

lemma first_read:
  assumes ts: "list_all plain ts" "list_all (\<lambda>t. \<not> opens t) ts"
    and k: "k \<le> length (tokens_bytes ts)" and ab: "a \<noteq> LF" "b \<noteq> LF"
    and fits: "fits (length (tokens_bytes ts))"
  obtains i st where "length (tokens_bytes (take i ts)) \<le> k"
    "process_resp (take k (tokens_bytes ts) @ a # b # post) k
       (Some (record_msg (take k (tokens_bytes ts) @ a # b # post))) 0 [] =
     Inr ((length (tokens_bytes (take i ts)), st), map token_bytes (take i ts))"
  using k
proof (cases rule: split_tokens)
  case (boundary i)
  have plain: "list_all plain (take i ts)" using ts(1) by (auto simp: list_all_iff dest: in_set_takeD)
  have len: "length (tokens_bytes (take i ts)) = k" using boundary(2) k by (metis length_take min.absorb2)
  have "frames (take i ts) = map token_bytes (take i ts)"
    using ts(2) by (intro frames_closed) (auto simp: list_all_iff dest: in_set_takeD)
  with process_resp_recorded [OF plain, of "a # b # post" "[]"] fits k len that [of i Completed]
  show ?thesis unfolding boundary(2) by simp
next
  case (inside i p q)
  have plain: "list_all plain (take i ts)" "plain (ts ! i)"
    using ts(1) inside(1) by (auto simp: list_all_iff dest: in_set_takeD)
  have len: "length (tokens_bytes (take i ts) @ p) = k"
    using inside(5) k by (metis length_take min.absorb2)
  have "run_frames (Some (record_msg (tokens_bytes (take i ts) @ p @ a # b # post))) 0
      (map token_bytes (take i ts)) [] = Inr (map token_bytes (take i ts))"
    using run_frames_record_0 [of "map token_bytes (take i ts)" "p @ a # b # post" "[]"] by simp
  with process_resp_cut_aux [OF plain(1) proper_prefix_unfinished [OF plain(2) inside(2-4)] ab,
      of k post "Some (record_msg (tokens_bytes (take i ts) @ p @ a # b # post))" "[]"]
    closed_take [OF ts(2), of i] len fits k that [of i Incompleted]
  show ?thesis unfolding inside(5) by simp
qed

text \<open>
  Reassembly: a stream of closed messages arrives in two parts, cut at any byte, inside a
  message or even between CR and LF. The first read consumes some \<open>c\<close> bytes; when they are
  drained and the rest has arrived, the second read consumes everything, and the two reads
  together deliver exactly the messages of the stream, once each and in order.
\<close>

theorem split_read_reassembles:
  assumes "list_all plain ts" and "list_all (\<lambda>t. \<not> opens t) ts"
    and "k \<le> length (tokens_bytes ts)" and "a \<noteq> LF" and "b \<noteq> LF"
    and "fits (length (tokens_bytes ts))"
  shows "\<exists>c st ms. c \<le> k \<and>
    process_resp (take k (tokens_bytes ts) @ a # b # post1) k
      (Some (record_msg (take k (tokens_bytes ts) @ a # b # post1))) 0 [] = Inr ((c, st), ms) \<and>
    process_resp (drop c (tokens_bytes ts) @ post2) (length (tokens_bytes ts) - c)
      (Some (record_msg (drop c (tokens_bytes ts) @ post2))) 0 ms =
        Inr ((length (tokens_bytes ts) - c, Completed), map token_bytes ts)"
proof -
  obtain i st where i: "length (tokens_bytes (take i ts)) \<le> k"
    "process_resp (take k (tokens_bytes ts) @ a # b # post1) k
       (Some (record_msg (take k (tokens_bytes ts) @ a # b # post1))) 0 [] =
     Inr ((length (tokens_bytes (take i ts)), st), map token_bytes (take i ts))"
    using first_read [OF assms, of post1] by blast
  have rest: "list_all plain (drop i ts)" "frames (drop i ts) = map token_bytes (drop i ts)"
    using assms(1,2) set_drop_subset [of i ts]
    by (auto simp: list_all_iff subset_iff intro!: frames_closed)
  have len: "length (tokens_bytes ts) - length (tokens_bytes (take i ts)) = length (tokens_bytes (drop i ts))"
    by (metis length_drop tokens_bytes_drop)
  have "map token_bytes (take i ts) @ map token_bytes (drop i ts) = map token_bytes ts"
    by (metis append_take_drop_id map_append)
  moreover have "fits (length (tokens_bytes (drop i ts)))" using assms(6) len by linarith
  ultimately have "process_resp (tokens_bytes (drop i ts) @ post2) (length (tokens_bytes (drop i ts)))
      (Some (record_msg (tokens_bytes (drop i ts) @ post2))) 0 (map token_bytes (take i ts)) =
      Inr ((length (tokens_bytes (drop i ts)), Completed), map token_bytes ts)"
    using process_resp_recorded [OF rest(1), of post2] rest(2) by simp
  with i show ?thesis
    by (intro exI [of _ "length (tokens_bytes (take i ts))"] exI [of _ st]
        exI [of _ "map token_bytes (take i ts)"]) (simp only: tokens_bytes_drop len simp_thms)
qed

lemma split_read_reassembles_witness:
  "\<exists>c st ms. c \<le> 6 \<and>
    process_resp (take 6 (tokens_bytes [TString ''OK'', TError ''no'']) @ ''xy'') 6
      (Some (record_msg (take 6 (tokens_bytes [TString ''OK'', TError ''no'']) @ ''xy''))) 0 [] =
        Inr ((c, st), ms) \<and>
    process_resp (drop c (tokens_bytes [TString ''OK'', TError ''no'']) @ [])
      (length (tokens_bytes [TString ''OK'', TError ''no'']) - c)
      (Some (record_msg (drop c (tokens_bytes [TString ''OK'', TError ''no'']) @ []))) 0 ms =
        Inr ((length (tokens_bytes [TString ''OK'', TError ''no'']) - c, Completed),
             map token_bytes [TString ''OK'', TError ''no''])"
  by (rule split_read_reassembles) simp_all

section \<open>Malformed input\<close>

text \<open>
  A byte that is no RESP type byte, behind any closed messages: these are delivered and
  counted, and the result is Error. The offending byte and all that follows stay in the buffer.
\<close>

theorem process_resp_unknown_byte:
  assumes "list_all plain ts" and "list_all (\<lambda>t. \<not> opens t) ts" and "c \<notin> type_bytes"
    and "length (tokens_bytes ts) < len" and "fits len"
  shows "process_resp (tokens_bytes ts @ c # rest) len cb 0 s =
    andThen (run_frames cb 0 (map token_bytes ts) s)
      (\<lambda>s'. Inr ((length (tokens_bytes ts), Error), s'))"
proof -
  have "resp_from (pre @ tokens_bytes ts @ c # rest) len cb 0 (length pre) s =
      andThen (run_frames cb (length pre) (map token_bytes ts) s)
        (\<lambda>s'. Inr ((length pre + length (tokens_bytes ts), Error), s'))"
    if "length pre + length (tokens_bytes ts) < len" for pre
    using assms(1,2) that
  proof (induction ts arbitrary: pre s)
    case Nil
    then show ?case
      using assms(3,5) by (simp add: resp_from_step deref_def size_sub_exact)
  next
    case (Cons t ts)
    have "resp_from (pre @ token_bytes t @ tokens_bytes ts @ c # rest) len cb 0 (length pre) s =
      andThen (run_cb cb (length pre) (length (token_bytes t)) s)
        (\<lambda>s'. resp_from (pre @ token_bytes t @ tokens_bytes ts @ c # rest) len cb 0
                 (length pre + length (token_bytes t)) s')"
      by (rule resp_from_scalar) (use Cons.prems assms(5) in auto)
    with Cons.IH [of "pre @ token_bytes t"] Cons.prems show ?case
      by (simp add: andThen_assoc add.assoc)
  qed
  from this [of "[]"] assms(4) show ?thesis by (simp add: process_resp_def)
qed

lemma process_resp_unknown_byte_witness:
  "process_resp (tokens_bytes [TString ''OK''] @ CHR ''?'' # ''abc'') 9
      (Some (\<lambda>off n s. Inr (s @ [(off, n)]))) 0 [] = Inr ((5, Error), [(0, 5)])"
  using process_resp_unknown_byte [of "[TString ''OK'']" "CHR ''?''" 9 "''abc''"
      "Some (\<lambda>off n s. Inr (s @ [(off, n)]))" "[]"]
  by (simp add: run_cb_def)

section \<open>The edge of the buffer\<close>

text \<open>
  C22: memory safety and totality: with two readable bytes behind the buffer, \<open>process_resp\<close>
  returns for every content of the buffer, as long as the callback does.
\<close>

theorem process_resp_total:
  assumes "fits len" and "len + 2 \<le> length mem" and "index \<le> len + 2"
    and "\<And>off n s. \<exists>s'. f off n s = Inr s'"
  shows "\<exists>n result s'. process_resp mem len (Some f) index s = Inr ((n, result), s')"
proof -
  have "cb_total (Some f)" using assms(4) by (simp add: cb_total_def)
  from resp_from_total [OF assms(1,2) this assms(3)] show ?thesis
    unfolding process_resp_def by (metis surj_pair)
qed

lemma process_resp_total_witness:
  "\<exists>n result s'. process_resp ''*1?ab'' 3 (Some (\<lambda>off n s. Inr (s + n))) 0 (0 :: nat) =
     Inr ((n, result), s')"
  by (rule process_resp_total) simp_all

text \<open>
  C23: termination: the fuel of the model never runs out, whatever the buffer holds and however
  much of it is readable, and more fuel never changes the result.
\<close>

theorem process_resp_terminates:
  assumes "fits len" and "index \<le> len + 2" and "\<And>off n s. f off n s \<noteq> Inl OutOfFuel"
  shows "process_resp mem len (Some f) index s \<noteq> Inl OutOfFuel \<and>
    resp_loop (len + 1 + more) mem len (Some f) index index s = process_resp mem len (Some f) index s"
proof
  show "process_resp mem len (Some f) index s \<noteq> Inl OutOfFuel"
    unfolding process_resp_def
    by (rule resp_from_no_fuel) (use assms in auto)
  show "resp_loop (len + 1 + more) mem len (Some f) index index s = process_resp mem len (Some f) index s"
    unfolding process_resp_def using assms by (intro resp_loop_fuel) auto
qed

lemma process_resp_terminates_witness:
  "process_resp ''*9'' 2 (Some (\<lambda>off n s. Inr (s + n))) 0 (0 :: nat) \<noteq> Inl OutOfFuel \<and>
    resp_loop (2 + 1 + 40) ''*9'' 2 (Some (\<lambda>off n s. Inr (s + n))) 0 0 0 =
      process_resp ''*9'' 2 (Some (\<lambda>off n s. Inr (s + n))) 0 (0 :: nat)"
  by (rule process_resp_terminates) simp_all

text \<open>
  C24: bounds: the number of bytes reported as consumed never reaches more than two bytes past
  the end of the buffer, and not past the end at all when neither of the two bytes behind the
  buffer is an LF. A Completed result always covers the whole buffer.
\<close>

theorem process_resp_bounds:
  assumes "process_resp mem len cb index s = Inr ((n, result), s')" and "fits len" and "index \<le> len"
  shows "index + n \<le> len + 2 \<and>
    (deref mem len = Inr LF \<or> deref mem (len + 1) = Inr LF \<or> index + n \<le> len) \<and>
    (len \<le> index + n \<or> result \<in> {Incompleted, Error})"
proof -
  note r = assms(1) [unfolded process_resp_def resp_from_def]
  have "stays (len + 2) len index index (n, result)"
    by (rule resp_loop_reach [OF assms(2) limit_any order_refl _ r]) (use assms in simp)
  moreover have "index + n \<le> len" if "deref mem len \<noteq> Inr LF" "deref mem (len + 1) \<noteq> Inr LF"
    using resp_loop_reach [OF assms(2) limit_clean [OF that] order_refl assms(3) r]
    by (simp add: stays_def)
  ultimately show ?thesis by (cases result) (auto simp: stays_def)
qed

lemma process_resp_bounds_witness:
  "0 + 5 \<le> (5 :: nat) + 2 \<and>
    (deref (tokens_bytes [TString ''OK''] @ ''xy'') 5 = Inr LF \<or>
     deref (tokens_bytes [TString ''OK''] @ ''xy'') (5 + 1) = Inr LF \<or> 0 + 5 \<le> (5 :: nat)) \<and>
    (5 \<le> 0 + (5 :: nat) \<or> Completed \<in> {Incompleted, Error})"
proof (rule process_resp_bounds [where cb = None and s = "()" and s' = "()"])
  have "length (tokens_bytes [TString ''OK'']) = 5" by simp
  with process_resp_tokens [of "[TString ''OK'']" "''xy''" None "()"]
  show "process_resp (tokens_bytes [TString ''OK''] @ ''xy'') 5 None 0 () = Inr ((5, Completed), ())"
    by (simp only: run_frames_None andThen_Inr) simp
qed simp_all

lemma find_CRLF_no_line:
  assumes "CR \<notin> set xs" and "0 < length xs"
  shows "find_CRLF_index (xs @ post) (length xs) 0 =
    andThen (deref (xs @ post) (length xs + 1)) (\<lambda>b. if b = LF then Inr (length xs) else Inr 0)"
  using assms std_find_none [of CR xs "[]" post] by (simp add: find_CRLF_index_def)

text \<open>
  A line whose end has not arrived is taken as complete when the second byte behind the
  buffer happens to be an LF: the message handed to the callback and the count of consumed bytes
  then reach two bytes past the end of the buffer.
\<close>

theorem overread_accepts_unfinished_line:
  assumes "c \<in> {stringReply, errorReply, integerReply}" and "CR \<notin> set xs" and "fits (length (c # xs))"
  shows "process_resp ((c # xs) @ a # LF # post) (length (c # xs)) cb 0 s =
    andThen (run_cb cb 0 (length (c # xs) + 2) s)
      (\<lambda>s'. Inr ((length (c # xs) + 2, Completed), s'))"
proof -
  define m where "m = (c # xs) @ a # LF # post"
  define len where "len = length (c # xs)"
  have "find_CRLF_index m len 0 = Inr len"
    using find_CRLF_no_line [of "c # xs" "a # LF # post"] assms(1,2)
    by (auto simp: m_def len_def deref_def nth_append)
  moreover have "0 < len" "size_add (size_sub len 0) 2 = len + 2"
    using assms(3) by (simp_all add: len_def size_sub_exact size_add_exact)
  ultimately have "head_message m len 0 c = Inr (len + 2, Completed)"
    using assms(1) by (auto simp: head_message_def process_string_def process_error_def process_integer_def)
  moreover have "deref m 0 = Inr c" "c \<in> type_bytes" using assms(1) by (auto simp: m_def deref_def)
  moreover have "fits len" "size_add 0 (len + 2) = len + 2" "size_sub (len + 2) 0 = len + 2"
    using assms(3) by (simp_all add: len_def size_add_exact size_sub_exact)
  ultimately have "process_resp m len cb 0 s =
      andThen (run_cb cb 0 (len + 2) s) (\<lambda>s'. Inr ((len + 2, Completed), s'))"
    using \<open>0 < len\<close> unfolding process_resp_def
    by (subst resp_from_step) (auto simp: resp_from_done intro!: andThen_cong)
  then show ?thesis by (simp only: m_def len_def)
qed

lemma overread_accepts_unfinished_line_witness:
  "process_resp (''+OK'' @ CHR ''x'' # LF # []) (length ''+OK'')
      (Some (\<lambda>off n s. Inr (s @ [(off, n)]))) 0 [] =
    Inr ((length ''+OK'' + 2, Completed), [(0, length ''+OK'' + 2)])"
  using overread_accepts_unfinished_line [of stringReply "''OK''" "CHR ''x''" "[]"
      "Some (\<lambda>off n s. Inr (s @ [(off, n)]))" "[]"]
  by (simp add: run_cb_def)

text \<open>
  A line whose end has not arrived makes the parser read behind the buffer: when fewer than
  two bytes are readable there, the read is out of bounds.
\<close>

theorem overread_out_of_bounds:
  assumes "c \<in> type_bytes" and "CR \<notin> set xs" and "fits (length (c # xs))" and "length post < 2"
  shows "process_resp ((c # xs) @ post) (length (c # xs)) cb 0 s = Inl OutOfBounds"
proof -
  have f: "find_CRLF_index ((c # xs) @ post) (length (c # xs)) 0 = Inl OutOfBounds"
    using find_CRLF_no_line [of "c # xs" post] assms(1,2,4) by auto
  then have "head_message ((c # xs) @ post) (length (c # xs)) 0 c = Inl OutOfBounds"
    using assms(3) by (auto simp: head_message_def process_string_def process_error_def
        process_integer_def process_bulk_def process_array_unfold)
  moreover have "deref ((c # xs) @ post) 0 = Inr c" by (simp add: deref_def)
  ultimately show ?thesis
    unfolding process_resp_def using assms(1,3) by (subst resp_from_step) simp_all
qed

lemma overread_out_of_bounds_witness:
  "process_resp (''$3'' @ []) (length ''$3'') (None :: unit on_resp option) 0 () = Inl OutOfBounds"
  using overread_out_of_bounds [of bulkReply "''3''" "[]" None "()"] by simp

end
