(* ===== verification/Resp_Values.thy ===== *)
theory Resp_Values
  imports Resp_Partial
begin

text \<open>
  Requests and replies as RESP values. The parser delivers frames; these are the values that were
  sent when no value follows an array in the same buffer and no array is cut between two elements.
  Input of this kind is described here; on other input frames and values differ
  (\<open>array_header_takes_rest\<close>, and the faults shown in \<open>Proxy_Props\<close> and \<open>Streams\<close>).
\<close>

section \<open>Values and frames\<close>

text \<open>No payload holds a CR, and lengths fit an \<open>int\<close>.\<close>

definition plain_value :: "resp \<Rightarrow> bool" where
  "plain_value v \<longleftrightarrow> list_all plain (tokens_of v)"

text \<open>An array with elements.\<close>

definition compound :: "resp \<Rightarrow> bool" where
  "compound v \<longleftrightarrow> (case v of Array vs \<Rightarrow> vs \<noteq> [] | _ \<Rightarrow> False)"

definition values_bytes :: "resp list \<Rightarrow> bytes" where
  "values_bytes vs = concat (map resp_bytes vs)"

definition values_tokens :: "resp list \<Rightarrow> token list" where
  "values_tokens vs = concat (map tokens_of vs)"

lemma values_bytes_simps [simp]:
  "values_bytes [] = []" "values_bytes (v # vs) = resp_bytes v @ values_bytes vs"
  "values_bytes (vs @ vs') = values_bytes vs @ values_bytes vs'"
  by (simp_all add: values_bytes_def)

lemma values_tokens_simps [simp]:
  "values_tokens [] = []" "values_tokens (v # vs) = tokens_of v @ values_tokens vs"
  by (simp_all add: values_tokens_def)

lemma tokens_bytes_values: "tokens_bytes (values_tokens vs) = values_bytes vs"
  by (induction vs) (simp_all add: resp_bytes_def)

lemma plain_values_tokens: "list_all plain_value vs \<Longrightarrow> list_all plain (values_tokens vs)"
  by (induction vs) (simp_all add: plain_value_def)

lemma tokens_of_scalar:
  assumes "\<not> compound v"
  obtains t where "tokens_of v = [t]" "\<not> opens t" "resp_bytes v = token_bytes t"
  using assms by (cases v) (auto simp: compound_def resp_bytes_def)

lemma tokens_of_compound:
  assumes "compound v"
  obtains t ts where "tokens_of v = t # ts" "opens t"
  using assms by (cases v) (auto simp: compound_def)

lemma tokens_of_Nil [simp]: "tokens_of v \<noteq> []"
  by (cases v) simp_all

lemma resp_bytes_Nil [simp]: "resp_bytes v \<noteq> []"
  by (cases v) (simp_all add: resp_bytes_def)

lemma values_bytes_Nil [simp]: "values_bytes vs = [] \<longleftrightarrow> vs = []"
  by (cases vs) simp_all

text \<open>Nothing follows an array.\<close>

definition separate :: "resp list \<Rightarrow> bool" where
  "separate vs \<longleftrightarrow> list_all (\<lambda>v. \<not> compound v) (butlast vs)"

lemma separate_simps [simp]:
  "separate []" "separate [v]" "separate (v # v' # vs) \<longleftrightarrow> \<not> compound v \<and> separate (v' # vs)"
  by (simp_all add: separate_def)

lemma separate_scalars: "list_all (\<lambda>v. \<not> compound v) vs \<Longrightarrow> separate vs"
  by (auto simp: separate_def list_all_iff dest: in_set_butlastD)

lemma frames_separate: "separate vs \<Longrightarrow> frames (values_tokens vs) = map resp_bytes vs"
proof (induction vs)
  case (Cons v vs)
  show ?case
  proof (cases "vs = []")
    case True
    then show ?thesis using frames_value [of v] by simp
  next
    case False
    then have "\<not> compound v" "separate vs" using Cons.prems by (cases vs; simp)+
    moreover from this(1) obtain t where "tokens_of v = [t]" "\<not> opens t" "resp_bytes v = token_bytes t"
      by (rule tokens_of_scalar)
    ultimately show ?thesis using Cons.IH by simp
  qed
qed simp

section \<open>Values cut short\<close>

text \<open>
  The beginning of a value, cut inside one of its lines: before the cut there may be whole elements,
  but the cut is not between two elements.
\<close>

definition partial_value :: "bytes \<Rightarrow> bool" where
  "partial_value p \<longleftrightarrow> (\<exists>v us t us' q r. plain_value v \<and> tokens_of v = us @ t # us' \<and>
     token_bytes t = q @ r \<and> q \<noteq> [] \<and> r \<noteq> [] \<and> p = tokens_bytes us @ q)"

text \<open>The input of a buffer: the values \<open>vs\<close>, and perhaps the beginning \<open>rest\<close> of another one.\<close>

definition arrives :: "bytes \<Rightarrow> resp list \<Rightarrow> bytes \<Rightarrow> bool" where
  "arrives input vs rest \<longleftrightarrow> list_all plain_value vs \<and> input = values_bytes vs @ rest \<and>
     (if rest = [] then separate vs else list_all (\<lambda>v. \<not> compound v) vs \<and> partial_value rest)"

lemma arrives_whole: "arrives (values_bytes vs) vs [] \<longleftrightarrow> list_all plain_value vs \<and> separate vs"
  by (simp add: arrives_def)

lemma arrives_drop: "arrives input vs rest \<Longrightarrow> drop (length (values_bytes vs)) input = rest"
  by (auto simp: arrives_def)

lemma partial_value_Nil: "\<not> partial_value []"
  by (auto simp: partial_value_def)

lemma partial_value_tokens:
  assumes "partial_value p"
  obtains us q where "p = tokens_bytes us @ q" "list_all plain us" "unfinished q" "us = [] \<or> opens (hd us)"
proof -
  obtain v us t us' q r where v: "plain_value v" "tokens_of v = us @ t # us'" and t: "token_bytes t = q @ r" "q \<noteq> []" "r \<noteq> []"
    and p: "p = tokens_bytes us @ q" using assms unfolding partial_value_def by blast
  have pl: "list_all plain us" "plain t" using v by (simp_all add: plain_value_def)
  have "us = [] \<or> opens (hd us)"
  proof (cases "compound v")
    case True
    then obtain h hs where "tokens_of v = h # hs" "opens h" by (rule tokens_of_compound)
    with v(2) show ?thesis by (cases us) auto
  next
    case False
    then obtain h where "tokens_of v = [h]" by (rule tokens_of_scalar)
    with v(2) show ?thesis by (cases us) auto
  qed
  with that [OF p pl(1) proper_prefix_unfinished [OF pl(2) t]] show thesis .
qed

lemma closed_prefix_values:
  assumes "list_all (\<lambda>v. \<not> compound v) vs" and "us = [] \<or> opens (hd us)"
  shows "map token_bytes (closed_prefix (values_tokens vs @ us)) = map resp_bytes vs"
  using assms(1)
proof (induction vs)
  case Nil
  with assms(2) show ?case by (cases us) (simp_all add: closed_prefix_def)
next
  case (Cons v vs)
  then have "\<not> compound v" by simp
  then obtain t where "tokens_of v = [t]" "\<not> opens t" "resp_bytes v = token_bytes t" by (rule tokens_of_scalar)
  with Cons show ?case by (simp add: closed_prefix_def)
qed

text \<open>What the parser takes of such input.\<close>

lemma arrives_tokens:
  assumes "arrives input vs rest"
  obtains ts p where "input = tokens_bytes ts @ p" "list_all plain ts" "p = [] \<longleftrightarrow> rest = []" "p = [] \<or> unfinished p"
    "(if p = [] then frames ts else map token_bytes (closed_prefix ts)) = map resp_bytes vs"
proof (cases "rest = []")
  case True
  show thesis
    by (rule that [of "values_tokens vs" "[]"])
      (use assms True in \<open>simp_all add: arrives_def tokens_bytes_values plain_values_tokens frames_separate\<close>)
next
  case False
  with assms have a: "list_all plain_value vs" "input = values_bytes vs @ rest" "list_all (\<lambda>v. \<not> compound v) vs"
    "partial_value rest" by (simp_all add: arrives_def)
  from a(4) obtain us q where r: "rest = tokens_bytes us @ q" "list_all plain us" "unfinished q" "us = [] \<or> opens (hd us)"
    by (rule partial_value_tokens)
  have q: "q \<noteq> []" using r(3) by (auto elim: unfinished.cases)
  show thesis
    by (rule that [of "values_tokens vs @ us" q])
      (use a(1,2) r q False closed_prefix_values [OF a(3) r(4)] in
        \<open>simp_all add: tokens_bytes_values plain_values_tokens\<close>)
qed

end
