(* ===== verification/Util_Types.thy ===== *)
theory Util_Types
  imports Cxx_Std
begin

text \<open>
  The data of \<open>src/include/util.hpp\<close>: connection types, \<open>CONN_INFO\<close> with its accessors,
  assignment and comparison, and the messages a loop thread is sent.
\<close>

section \<open>Connection types\<close>

datatype CONN_TYPE = IP_V4 | IP_V6 | UNIX_SOCKET | UN_KNOWN

text \<open>The underlying \<open>std::uint32_t\<close> of an enumerator; the enum is ordered by it.\<close>

fun conn_type_value :: "CONN_TYPE \<Rightarrow> nat" where
  "conn_type_value IP_V4 = 0"
| "conn_type_value IP_V6 = 1"
| "conn_type_value UNIX_SOCKET = 2"
| "conn_type_value UN_KNOWN = 3"

lemma conn_type_value_eq [simp]: "conn_type_value a = conn_type_value b \<longleftrightarrow> a = b"
  by (cases a; cases b; simp)

instantiation CONN_TYPE :: linorder
begin

definition less_eq_CONN_TYPE :: "CONN_TYPE \<Rightarrow> CONN_TYPE \<Rightarrow> bool" where
  "less_eq_CONN_TYPE a b \<longleftrightarrow> conn_type_value a \<le> conn_type_value b"

definition less_CONN_TYPE :: "CONN_TYPE \<Rightarrow> CONN_TYPE \<Rightarrow> bool" where
  "less_CONN_TYPE a b \<longleftrightarrow> conn_type_value a < conn_type_value b"

instance
  by standard (auto simp: less_eq_CONN_TYPE_def less_CONN_TYPE_def)

end

section \<open>CONN_INFO\<close>

record CONN_INFO =
  ci_type :: CONN_TYPE
  ci_IP :: bytes
  ci_port :: "16 word"
  ci_source_port :: "16 word"
  ci_source_IP :: bytes
  ci_path :: bytes
  ci_dscp :: "32 word"

text \<open>
  The constructor sets the type and the DSCP value and leaves the two ports indeterminate; what
  they happen to hold is an argument.
\<close>

definition new_CONN_INFO :: "16 word \<Rightarrow> 16 word \<Rightarrow> CONN_INFO" where
  "new_CONN_INFO junk_port junk_source_port =
     \<lparr> ci_type = UN_KNOWN, ci_IP = [], ci_port = junk_port, ci_source_port = junk_source_port,
       ci_source_IP = [], ci_path = [], ci_dscp = 0 \<rparr>"

definition get_conn_type :: "CONN_INFO \<Rightarrow> CONN_TYPE" where
  "get_conn_type c = ci_type c"

definition get_port :: "CONN_INFO \<Rightarrow> bytes" where
  "get_port c = to_string (unat (ci_port c))"

definition get_source_port :: "CONN_INFO \<Rightarrow> bytes" where
  "get_source_port c = to_string (unat (ci_source_port c))"

definition get_ip :: "CONN_INFO \<Rightarrow> bytes" where
  "get_ip c = ci_IP c"

definition get_source_ip :: "CONN_INFO \<Rightarrow> bytes" where
  "get_source_ip c = ci_source_IP c"

definition get_path :: "CONN_INFO \<Rightarrow> bytes" where
  "get_path c = ci_path c"

definition get_dscp :: "CONN_INFO \<Rightarrow> 32 word" where
  "get_dscp c = ci_dscp c"

definition get_ip_port :: "CONN_INFO \<Rightarrow> bytes \<times> bytes \<times> bytes \<times> bytes \<times> bool" where
  "get_ip_port c =
     (let isV6 = (if ci_type c = IP_V6 then True else False)
      in (ci_IP c, get_port c, ci_source_IP c, get_source_port c, isV6))"

text \<open>\<open>operator=\<close>, member by member, and \<open>operator==\<close>, with \<open>std::string::compare\<close> on the strings
  (the standard fixes only the sign of its result).\<close>

definition conn_info_assign :: "CONN_INFO \<Rightarrow> CONN_INFO \<Rightarrow> CONN_INFO" where
  "conn_info_assign this rhs =
     (let c1 = this\<lparr>ci_type := ci_type rhs\<rparr>;
          c2 = c1\<lparr>ci_IP := ci_IP rhs\<rparr>;
          c3 = c2\<lparr>ci_port := ci_port rhs\<rparr>;
          c4 = c3\<lparr>ci_source_IP := ci_source_IP rhs\<rparr>;
          c5 = c4\<lparr>ci_source_port := ci_source_port rhs\<rparr>;
          c6 = c5\<lparr>ci_path := ci_path rhs\<rparr>
      in c6\<lparr>ci_dscp := ci_dscp rhs\<rparr>)"

fun string_compare :: "bytes \<Rightarrow> bytes \<Rightarrow> int" where
  "string_compare [] [] = 0"
| "string_compare [] (b # bs) = -1"
| "string_compare (a # as) [] = 1"
| "string_compare (a # as) (b # bs) =
     (if (of_char a :: nat) < of_char b then -1
      else if (of_char b :: nat) < of_char a then 1
      else string_compare as bs)"

definition conn_info_eq :: "CONN_INFO \<Rightarrow> CONN_INFO \<Rightarrow> bool" where
  "conn_info_eq this rhs \<longleftrightarrow>
     ci_source_port this = ci_source_port rhs \<and> ci_dscp this = ci_dscp rhs \<and>
     (ci_type this = ci_type rhs \<and> string_compare (ci_IP this) (get_ip rhs) = 0 \<and>
      ci_port this = ci_port rhs \<and> string_compare (ci_source_IP this) (get_source_ip rhs) = 0 \<and>
      string_compare (ci_path this) (get_path rhs) = 0)"

lemma string_compare_eq_0 [simp]: "string_compare as bs = 0 \<longleftrightarrow> as = bs"
proof (induction as bs rule: string_compare.induct)
  case (4 a as b bs)
  have "(of_char a :: nat) = of_char b \<longleftrightarrow> a = b" by simp
  with 4 show ?case by auto
qed simp_all

lemma conn_info_assign_eq [simp]: "conn_info_assign this rhs = rhs"
  by (simp add: conn_info_assign_def)

lemma conn_info_eq_iff: "conn_info_eq this rhs \<longleftrightarrow> this = rhs"
  by (cases this; cases rhs) (auto simp: conn_info_eq_def get_ip_def get_source_ip_def get_path_def)

text \<open>A port survives being printed and read back, as \<open>TcpClient::connect\<close> does.\<close>

lemma stoi_get_port: "stoi (get_port c) = Inr (int (unat (ci_port c)))"
proof -
  have "unat (ci_port c) < 2 ^ 16" using unsigned_less [of "ci_port c", where ?'a = nat] by simp
  then show ?thesis
    using stoi_unsigned [of "unat (ci_port c)" "[]"] by (simp add: get_port_def)
qed

section \<open>Task messages\<close>

datatype TASK_MSG_TYPE =
    NEW_SESSION | DEL_SESSION | NEW_LISTENER | DEL_LISTENER | EXIT_LOOP | ADD_CONN | DEL_CONN
  | TASK_MSG_TYPE_MAX

text \<open>
  \<open>boost::any\<close> with the types the program puts into it: a socket, a \<open>CONN_INFO\<close>, a shared
  pointer to a loop thread (its address), or nothing. A cast to another type than the stored one
  throws \<open>bad_any_cast\<close>.
\<close>

datatype TASK_ANY = AnyEmpty | AnyFd int | AnyConnInfo CONN_INFO | AnyLoopThread nat

record TASK_MSG =
  msg_type :: TASK_MSG_TYPE
  msg_body :: TASK_ANY

type_synonym TASK_QUEUE = "TASK_MSG list"

definition any_cast_fd :: "TASK_ANY \<Rightarrow> std_exception + int" where
  "any_cast_fd a = (case a of AnyFd fd \<Rightarrow> Inr fd | _ \<Rightarrow> Inl bad_any_cast)"

definition any_cast_conn_info :: "TASK_ANY \<Rightarrow> std_exception + CONN_INFO" where
  "any_cast_conn_info a = (case a of AnyConnInfo c \<Rightarrow> Inr c | _ \<Rightarrow> Inl bad_any_cast)"

definition SOCKET_FD_INVALID :: int where
  "SOCKET_FD_INVALID = -1"

end
