(* ===== verification/System.thy ===== *)
theory System
  imports Util_Types
begin

text \<open>
  Everything the program calls that is not in the repository: libevent, boost's address parser
  and the operating system. All of it is one record \<open>'w sys\<close> of functions over an abstract
  state \<open>'w\<close>, and an argument of every definition that uses it. A bufferevent is an address.

  What the documentation of these functions promises is the predicate \<open>libevent_ok\<close>, stated
  over three ghost views: the unread input of a bufferevent, all the bytes written to it so far,
  and the set of bufferevents that exist. \<open>sim_sys\<close> is a simple instance that satisfies it; only
  the witnesses use it.
\<close>

section \<open>The interface\<close>

type_synonym fd = int
type_synonym bev = nat

abbreviation (input) AF_UNIX :: int where "AF_UNIX \<equiv> 1"
abbreviation (input) AF_INET :: int where "AF_INET \<equiv> 2"
abbreviation (input) AF_INET6 :: int where "AF_INET6 \<equiv> 10"

abbreviation (input) EV_READ :: nat where "EV_READ \<equiv> 2"
abbreviation (input) EV_WRITE :: nat where "EV_WRITE \<equiv> 4"

datatype sockopt = IP_TOS "8 word" | IPV6_TCLASS "8 word" | SO_REUSEPORT int

record 'w sys =
  bufferevent_socket_new :: "fd \<Rightarrow> 'w \<Rightarrow> bev option \<times> 'w"
  bufferevent_free :: "bev \<Rightarrow> 'w \<Rightarrow> 'w"
  bufferevent_setcb :: "bev \<Rightarrow> 'w \<Rightarrow> 'w"
  bufferevent_enable :: "bev \<Rightarrow> nat \<Rightarrow> 'w \<Rightarrow> int \<times> 'w"
  bufferevent_disable :: "bev \<Rightarrow> nat \<Rightarrow> 'w \<Rightarrow> int \<times> 'w"
  bufferevent_socket_connect :: "bev \<Rightarrow> bytes \<Rightarrow> 'w \<Rightarrow> int \<times> 'w"
  bufferevent_write :: "bev \<Rightarrow> bytes \<Rightarrow> 'w \<Rightarrow> int \<times> 'w"
  input_length :: "bev \<Rightarrow> 'w \<Rightarrow> nat"
  output_length :: "bev \<Rightarrow> 'w \<Rightarrow> nat"
  input_pullup :: "bev \<Rightarrow> nat \<Rightarrow> 'w \<Rightarrow> bytes option \<times> 'w"
  input_drain :: "bev \<Rightarrow> nat \<Rightarrow> 'w \<Rightarrow> int \<times> 'w"
  input_remove :: "bev \<Rightarrow> nat \<Rightarrow> 'w \<Rightarrow> (int \<times> bytes) \<times> 'w"
  make_socket_nonblocking :: "fd \<Rightarrow> 'w \<Rightarrow> 'w"
  closesocket :: "fd \<Rightarrow> 'w \<Rightarrow> 'w"
  sys_shutdown :: "fd \<Rightarrow> int \<Rightarrow> 'w \<Rightarrow> 'w"
  sys_socket :: "int \<Rightarrow> 'w \<Rightarrow> fd \<times> 'w"
  sys_bind :: "fd \<Rightarrow> bytes \<Rightarrow> 'w \<Rightarrow> int \<times> 'w"
  sys_getaddrinfo :: "bytes \<Rightarrow> 'w \<Rightarrow> (int \<times> bytes list) \<times> 'w"
  sys_getsockname :: "fd \<Rightarrow> 'w \<Rightarrow> int \<times> int"
  sys_getpeername :: "fd \<Rightarrow> 'w \<Rightarrow> bytes option"
  sys_setsockopt :: "fd \<Rightarrow> sockopt \<Rightarrow> 'w \<Rightarrow> int \<times> 'w"
  sys_errno :: "'w \<Rightarrow> int"
  evconnlistener_new :: "fd \<Rightarrow> 'w \<Rightarrow> nat option \<times> 'w"
  sys_eventfd :: "'w \<Rightarrow> fd \<times> 'w"
  eventfd_write :: "fd \<Rightarrow> 64 word \<Rightarrow> 'w \<Rightarrow> int \<times> 'w"
  eventfd_read :: "fd \<Rightarrow> 'w \<Rightarrow> (int \<times> 64 word) \<times> 'w"
  sys_close :: "fd \<Rightarrow> 'w \<Rightarrow> 'w"
  event_base_new :: "'w \<Rightarrow> nat option \<times> 'w"
  event_base_loopexit :: "'w \<Rightarrow> 'w"
  event_base_loopbreak :: "'w \<Rightarrow> 'w"
  event_new :: "fd \<Rightarrow> 'w \<Rightarrow> nat option \<times> 'w"
  event_add :: "nat \<Rightarrow> 'w \<Rightarrow> int \<times> 'w"
  event_free :: "nat \<Rightarrow> 'w \<Rightarrow> 'w"
  inet_pton :: "int \<Rightarrow> bytes \<Rightarrow> bytes option"
  address_from_string :: "bytes \<Rightarrow> int option"

text \<open>
  \<open>address_from_string\<close> is \<open>boost::asio::ip::address::from_string\<close>: the family of the address,
  or \<open>None\<close> when it throws.
\<close>

section \<open>What the documentation promises\<close>

record 'w view =
  inq :: "'w \<Rightarrow> bev \<Rightarrow> bytes"
  sent :: "'w \<Rightarrow> bev \<Rightarrow> bytes"
  live :: "'w \<Rightarrow> bev set"

definition keeps :: "'w view \<Rightarrow> 'w \<Rightarrow> 'w \<Rightarrow> bool" where
  "keeps V w w' \<longleftrightarrow> inq V w' = inq V w \<and> sent V w' = sent V w \<and> live V w' = live V w"

lemma keeps_refl [simp]: "keeps V w w"
  by (simp add: keeps_def)

lemma keeps_trans: "keeps V w w' \<Longrightarrow> keeps V w' w'' \<Longrightarrow> keeps V w w''"
  by (simp add: keeps_def)

text \<open>Buffers: views, removal, copying out, writes, and the lengths.\<close>

definition pullup_ok :: "'w sys \<Rightarrow> 'w view \<Rightarrow> bool" where
  "pullup_ok S V \<longleftrightarrow>
     (\<forall>b n w r w'. input_pullup S b n w = (r, w') \<longrightarrow>
        keeps V w w' \<and>
        (case r of None \<Rightarrow> True | Some mem \<Rightarrow>
           n \<le> length (inq V w b) \<and> (\<exists>rest. mem = take n (inq V w b) @ rest)))"

definition drain_ok :: "'w sys \<Rightarrow> 'w view \<Rightarrow> bool" where
  "drain_ok S V \<longleftrightarrow>
     (\<forall>b n w r w'. input_drain S b n w = (r, w') \<longrightarrow>
        sent V w' = sent V w \<and> live V w' = live V w \<and>
        inq V w' = (if r = -1 then inq V w else (inq V w)(b := drop n (inq V w b))))"

definition remove_ok :: "'w sys \<Rightarrow> 'w view \<Rightarrow> bool" where
  "remove_ok S V \<longleftrightarrow>
     (\<forall>b n w r out w'. input_remove S b n w = ((r, out), w') \<longrightarrow>
        sent V w' = sent V w \<and> live V w' = live V w \<and>
        (if r = -1 then inq V w' = inq V w
         else out = take n (inq V w b) \<and> inq V w' = (inq V w)(b := drop n (inq V w b))))"

definition write_ok :: "'w sys \<Rightarrow> 'w view \<Rightarrow> bool" where
  "write_ok S V \<longleftrightarrow>
     (\<forall>b d w r w'. bufferevent_write S b d w = (r, w') \<longrightarrow>
        inq V w' = inq V w \<and> live V w' = live V w \<and>
        sent V w' = (if r = -1 then sent V w else (sent V w)(b := sent V w b @ d)))"

definition buffers_ok :: "'w sys \<Rightarrow> 'w view \<Rightarrow> bool" where
  "buffers_ok S V \<longleftrightarrow>
     (\<forall>b w. input_length S b w = length (inq V w b)) \<and>
     pullup_ok S V \<and> drain_ok S V \<and> remove_ok S V \<and> write_ok S V"

text \<open>Creation gives an unused address with empty buffers; only creation and freeing change what exists.\<close>

definition new_ok :: "'w sys \<Rightarrow> 'w view \<Rightarrow> bool" where
  "new_ok S V \<longleftrightarrow>
     (\<forall>fd w r w'. bufferevent_socket_new S fd w = (r, w') \<longrightarrow>
        (case r of None \<Rightarrow> keeps V w w'
         | Some b \<Rightarrow> b \<notin> live V w \<and> live V w' = insert b (live V w) \<and>
             inq V w' = (inq V w)(b := []) \<and> sent V w' = (sent V w)(b := [])))"

definition free_ok :: "'w sys \<Rightarrow> 'w view \<Rightarrow> bool" where
  "free_ok S V \<longleftrightarrow>
     (\<forall>b w. live V (bufferevent_free S b w) = live V w - {b} \<and>
        (\<forall>h. h \<noteq> b \<longrightarrow> inq V (bufferevent_free S b w) h = inq V w h \<and>
                   sent V (bufferevent_free S b w) h = sent V w h))"

definition handles_ok :: "'w sys \<Rightarrow> 'w view \<Rightarrow> bool" where
  "handles_ok S V \<longleftrightarrow> new_ok S V \<and> free_ok S V"

text \<open>Every other call leaves the buffers alone.\<close>

definition others_ok :: "'w sys \<Rightarrow> 'w view \<Rightarrow> bool" where
  "others_ok S V \<longleftrightarrow>
     (\<forall>b w. keeps V w (bufferevent_setcb S b w)) \<and>
     (\<forall>b fl w. keeps V w (snd (bufferevent_enable S b fl w))) \<and>
     (\<forall>b fl w. keeps V w (snd (bufferevent_disable S b fl w))) \<and>
     (\<forall>b a w. keeps V w (snd (bufferevent_socket_connect S b a w))) \<and>
     (\<forall>f w. keeps V w (make_socket_nonblocking S f w)) \<and>
     (\<forall>f w. keeps V w (closesocket S f w)) \<and>
     (\<forall>f h w. keeps V w (sys_shutdown S f h w)) \<and>
     (\<forall>d w. keeps V w (snd (sys_socket S d w))) \<and>
     (\<forall>f a w. keeps V w (snd (sys_bind S f a w))) \<and>
     (\<forall>a w. keeps V w (snd (sys_getaddrinfo S a w))) \<and>
     (\<forall>f opt w. keeps V w (snd (sys_setsockopt S f opt w))) \<and>
     (\<forall>f w. keeps V w (snd (evconnlistener_new S f w))) \<and>
     (\<forall>f x w. keeps V w (snd (eventfd_write S f x w))) \<and>
     (\<forall>f w. keeps V w (snd (eventfd_read S f w))) \<and>
     (\<forall>f w. keeps V w (sys_close S f w)) \<and>
     (\<forall>w. keeps V w (event_base_loopexit S w)) \<and>
     (\<forall>w. keeps V w (event_base_loopbreak S w)) \<and>
     (\<forall>w. keeps V w (snd (event_base_new S w))) \<and>
     (\<forall>w. keeps V w (snd (sys_eventfd S w))) \<and>
     (\<forall>f w. keeps V w (snd (event_new S f w))) \<and>
     (\<forall>e w. keeps V w (snd (event_add S e w)))"

definition libevent_ok :: "'w sys \<Rightarrow> 'w view \<Rightarrow> bool" where
  "libevent_ok S V \<longleftrightarrow> buffers_ok S V \<and> handles_ok S V \<and> others_ok S V"

text \<open>
  The calls that fail only when memory is exhausted, or on a buffer that is frozen, do not fail.
\<close>

definition no_failure :: "'w sys \<Rightarrow> 'w view \<Rightarrow> bool" where
  "no_failure S V \<longleftrightarrow>
     (\<forall>b d w. fst (bufferevent_write S b d w) \<noteq> -1) \<and>
     (\<forall>b n w. fst (input_drain S b n w) \<noteq> -1) \<and>
     (\<forall>b n w. n \<le> length (inq V w b) \<longrightarrow> fst (input_pullup S b n w) \<noteq> None)"

text \<open>
  The two bytes behind a view of a buffer, which the parser may look at, are no line feeds. (They
  are whatever lies behind the buffer in memory; nothing in the interface of libevent says so.)
\<close>

definition clean_views :: "'w sys \<Rightarrow> bool" where
  "clean_views S \<longleftrightarrow> (\<forall>b n w mem w'. input_pullup S b n w = (Some mem, w') \<longrightarrow>
     (\<exists>x y rest. drop n mem = x # y # rest \<and> x \<noteq> LF \<and> y \<noteq> LF))"

text \<open>
  An eventfd holds a counter (here a ghost view of the state). A write of 8 bytes adds to it, and
  fails with -1 when the sum would pass \<open>2 ^ 64 - 2\<close>; a read takes the whole counter and resets
  it, and fails on 0.
\<close>

definition eventfd_ok :: "'w sys \<Rightarrow> ('w \<Rightarrow> fd \<Rightarrow> 64 word) \<Rightarrow> bool" where
  "eventfd_ok S cnt \<longleftrightarrow>
     (\<forall>f x w r w'. eventfd_write S f x w = (r, w') \<longrightarrow>
        (if unat (cnt w f) + unat x \<le> 2 ^ 64 - 2
         then r = 8 \<and> cnt w' = (cnt w)(f := cnt w f + x)
         else r = -1 \<and> cnt w' = cnt w)) \<and>
     (\<forall>f w r x w'. eventfd_read S f w = ((r, x), w') \<longrightarrow>
        (if cnt w f = 0 then r = -1 \<and> cnt w' = cnt w
         else r = 8 \<and> x = cnt w f \<and> cnt w' = (cnt w)(f := 0)))"

section \<open>The promises as rules\<close>

lemma buffers_parts:
  assumes "libevent_ok S V"
  shows "input_length S b w = length (inq V w b)"
    and "pullup_ok S V" and "drain_ok S V" and "remove_ok S V" and "write_ok S V"
  using assms by (simp_all add: libevent_ok_def buffers_ok_def)

lemmas input_length_ok = buffers_parts(1)

lemma input_pullup_ok:
  assumes "libevent_ok S V" and "input_pullup S b n w = (r, w')"
  shows "keeps V w w'"
    and "r = Some mem \<Longrightarrow> n \<le> length (inq V w b) \<and> (\<exists>rest. mem = take n (inq V w b) @ rest)"
  using buffers_parts(2) [OF assms(1), unfolded pullup_ok_def, rule_format, OF assms(2)] by auto

lemma input_drain_ok:
  assumes "libevent_ok S V" and "input_drain S b n w = (r, w')"
  shows "sent V w' = sent V w" and "live V w' = live V w"
    and "inq V w' = (if r = -1 then inq V w else (inq V w)(b := drop n (inq V w b)))"
  using buffers_parts(3) [OF assms(1), unfolded drain_ok_def, rule_format, OF assms(2)] by auto

lemma input_remove_ok:
  assumes "libevent_ok S V" and "input_remove S b n w = ((r, out), w')"
  shows "sent V w' = sent V w" and "live V w' = live V w"
    and "if r = -1 then inq V w' = inq V w
         else out = take n (inq V w b) \<and> inq V w' = (inq V w)(b := drop n (inq V w b))"
  using buffers_parts(4) [OF assms(1), unfolded remove_ok_def, rule_format, OF assms(2)] by auto

lemma bufferevent_write_ok:
  assumes "libevent_ok S V" and "bufferevent_write S b d w = (r, w')"
  shows "inq V w' = inq V w" and "live V w' = live V w"
    and "sent V w' = (if r = -1 then sent V w else (sent V w)(b := sent V w b @ d))"
  using buffers_parts(5) [OF assms(1), unfolded write_ok_def, rule_format, OF assms(2)] by auto

lemma bufferevent_new_case:
  assumes "libevent_ok S V" and "bufferevent_socket_new S f w = (r, w')"
  shows "case r of None \<Rightarrow> keeps V w w'
         | Some b \<Rightarrow> b \<notin> live V w \<and> live V w' = insert b (live V w) \<and>
             inq V w' = (inq V w)(b := []) \<and> sent V w' = (sent V w)(b := [])"
proof -
  have "new_ok S V" using assms(1) by (simp add: libevent_ok_def handles_ok_def)
  from this [unfolded new_ok_def, rule_format, OF assms(2)] show ?thesis .
qed

lemma bufferevent_new_ok:
  assumes "libevent_ok S V" and "bufferevent_socket_new S f w = (Some b, w')"
  shows "b \<notin> live V w" and "live V w' = insert b (live V w)"
    and "inq V w' = (inq V w)(b := [])" and "sent V w' = (sent V w)(b := [])"
  using bufferevent_new_case [OF assms] by simp_all

lemma bufferevent_new_None:
  assumes "libevent_ok S V" and "bufferevent_socket_new S f w = (None, w')"
  shows "keeps V w w'"
  using bufferevent_new_case [OF assms] by simp

lemma bufferevent_free_ok:
  assumes "libevent_ok S V"
  shows "live V (bufferevent_free S b w) = live V w - {b}"
    and "h \<noteq> b \<Longrightarrow> inq V (bufferevent_free S b w) h = inq V w h"
    and "h \<noteq> b \<Longrightarrow> sent V (bufferevent_free S b w) h = sent V w h"
  using assms by (simp_all add: libevent_ok_def handles_ok_def free_ok_def)

lemma keeps_others:
  assumes "libevent_ok S V"
  shows "keeps V w (bufferevent_setcb S b w)"
    and "keeps V w (snd (bufferevent_enable S b fl w))"
    and "keeps V w (snd (bufferevent_disable S b fl w))"
    and "keeps V w (snd (bufferevent_socket_connect S b a w))"
    and "keeps V w (make_socket_nonblocking S f w)"
    and "keeps V w (closesocket S f w)"
    and "keeps V w (sys_shutdown S f h w)"
    and "keeps V w (snd (sys_socket S d w))"
    and "keeps V w (snd (sys_bind S f a w))"
    and "keeps V w (snd (sys_getaddrinfo S a w))"
    and "keeps V w (snd (sys_setsockopt S f opt w))"
    and "keeps V w (snd (evconnlistener_new S f w))"
    and "keeps V w (snd (eventfd_write S f x w))"
    and "keeps V w (snd (eventfd_read S f w))"
    and "keeps V w (sys_close S f w)"
    and "keeps V w (event_base_loopexit S w)"
    and "keeps V w (event_base_loopbreak S w)"
    and "keeps V w (snd (event_base_new S w))"
    and "keeps V w (snd (sys_eventfd S w))"
    and "keeps V w (snd (event_new S f w))"
    and "keeps V w (snd (event_add S e w))"
  using assms by (simp_all add: libevent_ok_def others_ok_def)

lemma no_failure_write: "no_failure S V \<Longrightarrow> bufferevent_write S b d w = (r, w') \<Longrightarrow> r \<noteq> -1"
  unfolding no_failure_def by (metis fst_conv)

lemma no_failure_drain: "no_failure S V \<Longrightarrow> input_drain S b n w = (r, w') \<Longrightarrow> r \<noteq> -1"
  unfolding no_failure_def by (metis fst_conv)

lemma no_failure_pullup:
  "no_failure S V \<Longrightarrow> input_pullup S b n w = (r, w') \<Longrightarrow> n \<le> length (inq V w b) \<Longrightarrow> r \<noteq> None"
  unfolding no_failure_def by (metis fst_conv)

end
