(* ===== verification/Sim_System.thy ===== *)
theory Sim_System
  imports System
begin

text \<open>
  A small instance of the interface: every call succeeds, buffers are byte lists, addresses are
  counted up. It shows that the promises of \<open>System\<close> can hold together, and the witnesses run
  the program on it. It models no code.
\<close>

record sim =
  sim_in :: "nat \<Rightarrow> bytes"
  sim_out :: "nat \<Rightarrow> bytes"
  sim_next :: nat
  sim_freed :: "nat set"
  sim_count :: "int \<Rightarrow> 64 word"

definition sim_sys :: "sim sys" where
  "sim_sys =
     \<lparr> bufferevent_socket_new = (\<lambda>fd w. (Some (sim_next w),
         w\<lparr>sim_in := (sim_in w)(sim_next w := []), sim_out := (sim_out w)(sim_next w := []),
           sim_next := Suc (sim_next w), sim_freed := sim_freed w - {sim_next w}\<rparr>)),
       bufferevent_free = (\<lambda>b w. w\<lparr>sim_freed := insert b (sim_freed w)\<rparr>),
       bufferevent_setcb = (\<lambda>b w. w),
       bufferevent_enable = (\<lambda>b fl w. (0, w)),
       bufferevent_disable = (\<lambda>b fl w. (0, w)),
       bufferevent_socket_connect = (\<lambda>b a w. (0, w)),
       bufferevent_write = (\<lambda>b d w. (0, w\<lparr>sim_out := (sim_out w)(b := sim_out w b @ d)\<rparr>)),
       input_length = (\<lambda>b w. length (sim_in w b)),
       output_length = (\<lambda>b w. length (sim_out w b)),
       input_pullup = (\<lambda>b n w. (if n \<le> length (sim_in w b)
          then Some (take n (sim_in w b) @ ''..'') else None, w)),
       input_drain = (\<lambda>b n w. (0, w\<lparr>sim_in := (sim_in w)(b := drop n (sim_in w b))\<rparr>)),
       input_remove = (\<lambda>b n w. ((int (min n (length (sim_in w b))), take n (sim_in w b)),
          w\<lparr>sim_in := (sim_in w)(b := drop n (sim_in w b))\<rparr>)),
       make_socket_nonblocking = (\<lambda>f w. w),
       closesocket = (\<lambda>f w. w),
       sys_shutdown = (\<lambda>f h w. w),
       sys_socket = (\<lambda>d w. (7, w)),
       sys_bind = (\<lambda>f a w. (0, w)),
       sys_getaddrinfo = (\<lambda>a w. ((0, []), w)),
       sys_getsockname = (\<lambda>f w. (0, AF_INET)),
       sys_getpeername = (\<lambda>f w. None),
       sys_setsockopt = (\<lambda>f opt w. (0, w)),
       sys_errno = (\<lambda>w. 0),
       evconnlistener_new = (\<lambda>f w. (Some 0, w)),
       sys_eventfd = (\<lambda>w. (5, w)),
       eventfd_write = (\<lambda>f x w. if unat (sim_count w f) + unat x \<le> 2 ^ 64 - 2
          then (8, w\<lparr>sim_count := (sim_count w)(f := sim_count w f + x)\<rparr>) else (-1, w)),
       eventfd_read = (\<lambda>f w. if sim_count w f = 0 then ((-1, 0), w)
          else ((8, sim_count w f), w\<lparr>sim_count := (sim_count w)(f := 0)\<rparr>)),
       sys_close = (\<lambda>f w. w),
       event_base_new = (\<lambda>w. (Some 0, w)),
       event_base_loopexit = (\<lambda>w. w),
       event_base_loopbreak = (\<lambda>w. w),
       event_new = (\<lambda>f w. (Some 0, w)),
       event_add = (\<lambda>e w. (0, w)),
       event_free = (\<lambda>e w. w),
       inet_pton = (\<lambda>fam s. Some (if fam = AF_INET then replicate 4 (CHR 0x01)
          else replicate 16 (CHR 0x01))),
       address_from_string = (\<lambda>s. if s = [] then None
          else if CHR '':'' \<in> set s then Some AF_INET6 else Some AF_INET) \<rparr>"

definition sim_view :: "sim view" where
  "sim_view =
     \<lparr> inq = sim_in, sent = sim_out, live = (\<lambda>w. {h. h < sim_next w \<and> h \<notin> sim_freed w}) \<rparr>"

lemma sim_ok: "libevent_ok sim_sys sim_view"
  unfolding libevent_ok_def
proof (intro conjI)
  have "pullup_ok sim_sys sim_view" "drain_ok sim_sys sim_view" "remove_ok sim_sys sim_view"
    "write_ok sim_sys sim_view"
    by (auto simp: pullup_ok_def drain_ok_def remove_ok_def write_ok_def sim_sys_def sim_view_def
        keeps_def split: if_splits)
  then show "buffers_ok sim_sys sim_view"
    by (simp add: buffers_ok_def) (simp add: sim_sys_def sim_view_def)
  have "new_ok sim_sys sim_view" "free_ok sim_sys sim_view"
    by (auto simp: new_ok_def free_ok_def sim_sys_def sim_view_def)
  then show "handles_ok sim_sys sim_view"
    by (simp add: handles_ok_def)
  show "others_ok sim_sys sim_view"
    by (simp add: others_ok_def sim_sys_def keeps_def sim_view_def)
qed

lemma sim_eventfd: "eventfd_ok sim_sys sim_count"
  by (auto simp: eventfd_ok_def sim_sys_def split: if_splits)

lemma sim_no_failure: "no_failure sim_sys sim_view"
  by (simp add: no_failure_def sim_sys_def sim_view_def)

lemma sim_clean_views: "clean_views sim_sys"
  by (auto simp: clean_views_def sim_sys_def split: if_splits)

text \<open>The same system when no bufferevent can be created.\<close>

definition sim_no_memory :: "sim sys" where
  "sim_no_memory = sim_sys\<lparr>bufferevent_socket_new := (\<lambda>fd w. (None, w))\<rparr>"

lemma sim_no_memory_ok: "libevent_ok sim_no_memory sim_view"
  using sim_ok
  by (simp add: libevent_ok_def buffers_ok_def pullup_ok_def drain_ok_def remove_ok_def write_ok_def
      handles_ok_def new_ok_def free_ok_def others_ok_def sim_no_memory_def)

text \<open>A state with two bufferevents, 0 and 1, that hold the given unread input.\<close>

definition sim_state :: "bytes \<Rightarrow> bytes \<Rightarrow> sim" where
  "sim_state in0 in1 =
     \<lparr> sim_in = (\<lambda>b. if b = 0 then in0 else if b = 1 then in1 else []), sim_out = (\<lambda>b. []),
       sim_next = 2, sim_freed = {}, sim_count = (\<lambda>f. 0) \<rparr>"

end
