(* ===== verification/Tcp_Socket.thy ===== *)
theory Tcp_Socket
  imports Sim_System
begin

text \<open>
  The base class \<open>TcpSocket\<close> (\<open>src/include/tcp_socket.hpp\<close>, \<open>src/src/tcp_socket.cpp\<close>): a
  shared pointer to a bufferevent and a closing flag. The record can be extended, as the class is.
\<close>

section \<open>The shared pointer\<close>

text \<open>
  A \<open>std::shared_ptr<bufferevent>\<close> with the deleter \<open>bufferevent_free\<close>. A pointer that was
  reset with a null pointer and a deleter is false in a condition, but still owns the null
  pointer and hands it to the deleter when it is reset; \<open>bufferevent_free\<close> dereferences it.
\<close>

datatype bev_sptr = NoBev | OwnsNull | Bev bev

primrec bev_get :: "bev_sptr \<Rightarrow> bev option" where
  "bev_get NoBev = None"
| "bev_get OwnsNull = None"
| "bev_get (Bev b) = Some b"

definition sptr_owning :: "bev option \<Rightarrow> bev_sptr" where
  "sptr_owning r = (case r of None \<Rightarrow> OwnsNull | Some b \<Rightarrow> Bev b)"

definition sptr_release :: "'w sys \<Rightarrow> bev_sptr \<Rightarrow> 'w \<Rightarrow> 'w run" where
  "sptr_release S p w =
     (case p of NoBev \<Rightarrow> Inr w | OwnsNull \<Rightarrow> Inl NullDeref | Bev b \<Rightarrow> Inr (bufferevent_free S b w))"

lemma bev_get_eq_Some [simp]: "bev_get p = Some b \<longleftrightarrow> p = Bev b"
  by (cases p) auto

lemma sptr_owning_simps [simp]: "sptr_owning None = OwnsNull" "sptr_owning (Some b) = Bev b"
  by (simp_all add: sptr_owning_def)

lemma sptr_release_simps [simp]:
  "sptr_release S NoBev w = Inr w"
  "sptr_release S OwnsNull w = Inl NullDeref"
  "sptr_release S (Bev b) w = Inr (bufferevent_free S b w)"
  by (simp_all add: sptr_release_def)

section \<open>The socket\<close>

record tcp_socket =
  bev_sptr :: bev_sptr
  isClosing :: bool

definition new_tcp_socket :: tcp_socket where
  "new_tcp_socket = \<lparr> bev_sptr = NoBev, isClosing = False \<rparr>"

text \<open>The condition of the source: a valid bufferevent gives \<open>SOCKET_FD_INVALID\<close>.\<close>

definition get_socket :: "'w sys \<Rightarrow> 'a tcp_socket_scheme \<Rightarrow> 'w \<Rightarrow> fd run" where
  "get_socket S sk w =
     (case bev_get (bev_sptr sk) of Some b \<Rightarrow> Inr SOCKET_FD_INVALID | None \<Rightarrow> Inl NullDeref)"

definition sizeof_sockaddr_in :: nat where
  "sizeof_sockaddr_in = 16"

definition getAddr :: "'w sys \<Rightarrow> 'a tcp_socket_scheme \<Rightarrow> nat \<Rightarrow> 'w \<Rightarrow> bytes option run" where
  "getAddr S sk sz w =
     (if bev_get (bev_sptr sk) = None \<or> sz < sizeof_sockaddr_in then Inr None
      else andThen (get_socket S sk w) (\<lambda>fd. Inr (sys_getpeername S fd w)))"

text \<open>\<open>data\<close> points to offset \<open>off\<close> of \<open>mem\<close>, and \<open>sz\<close> bytes are copied from there.\<close>

definition socket_send ::
    "'w sys \<Rightarrow> 'a tcp_socket_scheme \<Rightarrow> bytes \<Rightarrow> nat \<Rightarrow> nat \<Rightarrow> 'w \<Rightarrow> (bool \<times> 'w) run" where
  "socket_send S sk mem off sz w =
     (case bev_get (bev_sptr sk) of
        None \<Rightarrow> Inr (False, w)
      | Some b \<Rightarrow> if isClosing sk then Inr (False, w)
          else andThen (mem_slice mem off sz)
            (\<lambda>d. let (r, w') = bufferevent_write S b d w in Inr (r \<noteq> -1, w')))"

definition getInputBufferLength :: "'w sys \<Rightarrow> 'a tcp_socket_scheme \<Rightarrow> 'w \<Rightarrow> nat" where
  "getInputBufferLength S sk w =
     (case bev_get (bev_sptr sk) of Some b \<Rightarrow> to_uint32 (input_length S b w) | None \<Rightarrow> 0)"

definition viewInputBuffer ::
    "'w sys \<Rightarrow> 'a tcp_socket_scheme \<Rightarrow> nat \<Rightarrow> 'w \<Rightarrow> bytes option \<times> 'w" where
  "viewInputBuffer S sk sz w =
     (case bev_get (bev_sptr sk) of Some b \<Rightarrow> input_pullup S b sz w | None \<Rightarrow> (None, w))"

definition readInputBuffer ::
    "'w sys \<Rightarrow> 'a tcp_socket_scheme \<Rightarrow> nat \<Rightarrow> 'w \<Rightarrow> (bool \<times> bytes) \<times> 'w" where
  "readInputBuffer S sk sz w =
     (case bev_get (bev_sptr sk) of
        Some b \<Rightarrow> let ((r, out), w') = input_remove S b sz w in ((r \<noteq> -1, out), w')
      | None \<Rightarrow> ((False, []), w))"

definition UINT32_MAX :: nat where
  "UINT32_MAX = 2 ^ 32 - 1"

definition clearInputBuffer :: "'w sys \<Rightarrow> 'a tcp_socket_scheme \<Rightarrow> 'w \<Rightarrow> 'w" where
  "clearInputBuffer S sk w =
     (case bev_get (bev_sptr sk) of Some b \<Rightarrow> snd (input_drain S b UINT32_MAX w) | None \<Rightarrow> w)"

definition drainInputBuffer ::
    "'w sys \<Rightarrow> 'a tcp_socket_scheme \<Rightarrow> nat \<Rightarrow> 'w \<Rightarrow> bool \<times> 'w" where
  "drainInputBuffer S sk len w =
     (case bev_get (bev_sptr sk) of
        Some b \<Rightarrow> let (r, w') = input_drain S b len w in (r \<noteq> -1, w')
      | None \<Rightarrow> (False, w))"

definition closeImpl ::
    "'w sys \<Rightarrow> 'a tcp_socket_scheme \<Rightarrow> 'w \<Rightarrow> ('a tcp_socket_scheme \<times> 'w) run" where
  "closeImpl S sk w =
     (let sk' = sk\<lparr>isClosing := False\<rparr>;
          w1 = clearInputBuffer S sk' w
      in case bev_get (bev_sptr sk') of
           None \<Rightarrow> Inl NullDeref
         | Some b \<Rightarrow>
             let w2 = snd (bufferevent_disable S b EV_WRITE w1)
             in andThen (get_socket S sk' w2) (\<lambda>fd. Inr (sk', sys_shutdown S fd 2 w2)))"

definition socket_close ::
    "'w sys \<Rightarrow> 'a tcp_socket_scheme \<Rightarrow> bool \<Rightarrow> 'w \<Rightarrow> ('a tcp_socket_scheme \<times> 'w) run" where
  "socket_close S sk waiting w =
     (case bev_get (bev_sptr sk) of
        None \<Rightarrow> Inr (sk, w)
      | Some b \<Rightarrow>
          if waiting \<and> output_length S b w > 0 then Inr (sk\<lparr>isClosing := True\<rparr>, w)
          else closeImpl S sk w)"

definition checkClosing ::
    "'w sys \<Rightarrow> 'a tcp_socket_scheme \<Rightarrow> 'w \<Rightarrow> ('a tcp_socket_scheme \<times> 'w) run" where
  "checkClosing S sk w =
     (if isClosing sk then
        (case bev_get (bev_sptr sk) of
           None \<Rightarrow> Inl NullDeref
         | Some b \<Rightarrow>
             if output_length S b w = 0 then closeImpl S (sk\<lparr>isClosing := False\<rparr>) w
             else Inr (sk, w))
      else Inr (sk, w))"

section \<open>Facts about the operations\<close>

lemma get_socket_cases:
  "get_socket S sk w = (if bev_get (bev_sptr sk) = None then Inl NullDeref else Inr (-1))"
  by (cases "bev_sptr sk") (simp_all add: get_socket_def SOCKET_FD_INVALID_def)

lemma socket_send_refused:
  "bev_get (bev_sptr sk) = None \<or> isClosing sk \<Longrightarrow> socket_send S sk mem off sz w = Inr (False, w)"
  by (cases "bev_sptr sk") (auto simp: socket_send_def)

lemma socket_send_open:
  assumes "bev_sptr sk = Bev b" and "\<not> isClosing sk" and "mem_slice mem off sz = Inr d"
  shows "socket_send S sk mem off sz w =
    Inr (fst (bufferevent_write S b d w) \<noteq> -1, snd (bufferevent_write S b d w))"
  using assms by (simp add: socket_send_def split: prod.splits)

lemma closeImpl_open:
  assumes "bev_sptr sk = Bev b"
  shows "closeImpl S sk w =
    Inr (sk\<lparr>isClosing := False\<rparr>,
      sys_shutdown S (-1) 2 (snd (bufferevent_disable S b EV_WRITE (snd (input_drain S b UINT32_MAX w)))))"
  using assms by (simp add: closeImpl_def clearInputBuffer_def get_socket_cases Let_def)

lemma closeImpl_view:
  assumes "libevent_ok S V" and "bev_sptr sk = Bev b" and "closeImpl S sk w = Inr (sk', w')"
  shows "sk' = sk\<lparr>isClosing := False\<rparr>" and "sent V w' = sent V w" and "live V w' = live V w"
proof -
  obtain r w1 where d: "input_drain S b UINT32_MAX w = (r, w1)" by fastforce
  have "keeps V w1 w'"
    using assms(3) keeps_others(3) [OF assms(1), of w1 b EV_WRITE]
      keeps_others(7) [OF assms(1), of "snd (bufferevent_disable S b EV_WRITE w1)" "-1" 2]
    unfolding closeImpl_open [OF assms(2)] d by (auto intro: keeps_trans)
  then show "sent V w' = sent V w" and "live V w' = live V w"
    using input_drain_ok(1,2) [OF assms(1) d] by (simp_all add: keeps_def)
  show "sk' = sk\<lparr>isClosing := False\<rparr>"
    using assms(3) unfolding closeImpl_open [OF assms(2)] by simp
qed

section \<open>Closing\<close>

text \<open>
  \<open>close\<close> does not close. Called without waiting on a socket with a bufferevent, it leaves
  the bufferevent in place and the closing flag off, and the socket it shuts down is -1, not the
  connection's; the next \<open>send\<close> is accepted and its bytes go into the output as before.
\<close>

theorem send_after_close:
  assumes "libevent_ok S V" and "no_failure S V" and "bev_sptr sk = Bev b"
    and "mem_slice mem off sz = Inr d"
  shows "\<exists>sk' w' w''. socket_close S sk False w = Inr (sk', w') \<and> get_socket S sk w = Inr (-1) \<and>
    socket_send S sk' mem off sz w' = Inr (True, w'') \<and>
    sent V w'' = (sent V w)(b := sent V w b @ d)"
proof -
  obtain w' where c: "closeImpl S sk w = Inr (sk\<lparr>isClosing := False\<rparr>, w')"
    by (simp add: closeImpl_open [OF assms(3)])
  obtain r w'' where wr: "bufferevent_write S b d w' = (r, w'')" by fastforce
  have "socket_close S sk False w = Inr (sk\<lparr>isClosing := False\<rparr>, w')"
    using c assms(3) by (simp add: socket_close_def)
  moreover have "socket_send S (sk\<lparr>isClosing := False\<rparr>) mem off sz w' = Inr (True, w'')"
    using socket_send_open [OF _ _ assms(4), of "sk\<lparr>isClosing := False\<rparr>" b S w'] assms(3) wr
      no_failure_write [OF assms(2) wr] by simp
  moreover have "sent V w'' = (sent V w)(b := sent V w b @ d)"
    using bufferevent_write_ok(3) [OF assms(1) wr] no_failure_write [OF assms(2) wr]
      closeImpl_view(2) [OF assms(1,3) c] by simp
  ultimately show ?thesis using assms(3) by (auto simp: get_socket_cases)
qed

lemma send_after_close_witness:
  "\<exists>sk' w' w''. socket_close sim_sys \<lparr>bev_sptr = Bev 0, isClosing = False\<rparr> False (sim_state [] []) = Inr (sk', w') \<and>
    get_socket sim_sys \<lparr>bev_sptr = Bev 0, isClosing = False\<rparr> (sim_state [] []) = Inr (-1) \<and>
    socket_send sim_sys sk' ''PING'' 0 4 w' = Inr (True, w'') \<and>
    sent sim_view w'' = (sent sim_view (sim_state [] []))(0 := sent sim_view (sim_state [] []) 0 @ ''PING'')"
  by (rule send_after_close [OF sim_ok sim_no_failure]) (simp_all add: mem_slice_def)

text \<open>
  A waiting \<open>close\<close> with output pending raises the closing flag and touches nothing else, and
  every send is refused from then on; the write callback leaves it that way while output is
  pending, and lowers the flag again once the output is empty.
\<close>

theorem waiting_close:
  assumes "libevent_ok S V" and "bev_sptr sk = Bev b" and "output_length S b w > 0"
    and "output_length S b w1 > 0" and "output_length S b w2 = 0"
  shows "\<exists>sk' w2'. socket_close S sk True w = Inr (sk', w) \<and>
    socket_send S sk' mem off sz w1 = Inr (False, w1) \<and>
    checkClosing S sk' w1 = Inr (sk', w1) \<and>
    checkClosing S sk' w2 = Inr (sk\<lparr>isClosing := False\<rparr>, w2') \<and> sent V w2' = sent V w2"
proof -
  let ?sk = "sk\<lparr>isClosing := True\<rparr>"
  have "socket_close S sk True w = Inr (?sk, w)"
    using assms(2,3) by (simp add: socket_close_def)
  moreover have "socket_send S ?sk mem off sz w1 = Inr (False, w1)"
    by (rule socket_send_refused) simp
  moreover have "checkClosing S ?sk w1 = Inr (?sk, w1)"
    using assms(2,4) by (simp add: checkClosing_def)
  moreover obtain w2' where c: "closeImpl S (?sk\<lparr>isClosing := False\<rparr>) w2 = Inr (sk\<lparr>isClosing := False\<rparr>, w2')"
    by (simp add: closeImpl_open [where b = b] assms(2))
  moreover have "checkClosing S ?sk w2 = Inr (sk\<lparr>isClosing := False\<rparr>, w2')"
    using c assms(2,5) by (simp add: checkClosing_def)
  moreover have "sent V w2' = sent V w2"
    using closeImpl_view(2) [OF assms(1) _ c, of b] assms(2) by simp
  ultimately show ?thesis by blast
qed

lemma waiting_close_witness:
  "\<exists>sk' w2'. socket_close sim_sys \<lparr>bev_sptr = Bev 0, isClosing = False\<rparr> True
      ((sim_state [] [])\<lparr>sim_out := (\<lambda>b. ''x'')\<rparr>) = Inr (sk', (sim_state [] [])\<lparr>sim_out := (\<lambda>b. ''x'')\<rparr>) \<and>
    socket_send sim_sys sk' ''PING'' 0 4 ((sim_state [] [])\<lparr>sim_out := (\<lambda>b. ''x'')\<rparr>) =
      Inr (False, (sim_state [] [])\<lparr>sim_out := (\<lambda>b. ''x'')\<rparr>) \<and>
    checkClosing sim_sys sk' ((sim_state [] [])\<lparr>sim_out := (\<lambda>b. ''x'')\<rparr>) =
      Inr (sk', (sim_state [] [])\<lparr>sim_out := (\<lambda>b. ''x'')\<rparr>) \<and>
    checkClosing sim_sys sk' (sim_state [] []) =
      Inr (\<lparr>bev_sptr = Bev 0, isClosing = False\<rparr>\<lparr>isClosing := False\<rparr>, w2') \<and>
    sent sim_view w2' = sent sim_view (sim_state [] [])"
  by (rule waiting_close [OF sim_ok]) (simp_all add: sim_sys_def sim_state_def)

end
