(* ===== verification/Tcp_Session.thy ===== *)
theory Tcp_Session
  imports Tcp_Socket
begin

text \<open>
  The connection to a client of the proxy, \<open>TcpSession\<close> (\<open>src/include/tcp_session.hpp\<close>):
  creation, initialisation, the buffer operations and destruction. Its two callbacks need the
  loop thread and are in \<open>Dispatch\<close>.
\<close>

section \<open>The session\<close>

record tcp_session =
  s_fd :: fd
  s_bev_sptr :: bev_sptr
  s_isClosing :: bool
  sIdGenerater :: "32 word"

text \<open>The constructor does not initialise \<open>_sIdGenerater\<close>: what it holds is an argument.\<close>

definition new_tcp_session :: "fd \<Rightarrow> 32 word \<Rightarrow> tcp_session" where
  "new_tcp_session fd junk =
     \<lparr> s_fd = fd, s_bev_sptr = NoBev, s_isClosing = False, sIdGenerater = junk \<rparr>"

text \<open>The destructor: a pointer that is false is reset first, then the member is destroyed.\<close>

definition session_destroy :: "'w sys \<Rightarrow> tcp_session \<Rightarrow> 'w \<Rightarrow> 'w run" where
  "session_destroy S s w =
     (if bev_get (s_bev_sptr s) = None then
        andThen (sptr_release S (s_bev_sptr s) w) (\<lambda>w'. sptr_release S NoBev w')
      else sptr_release S (s_bev_sptr s) w)"

definition session_init :: "'w sys \<Rightarrow> tcp_session \<Rightarrow> 'w \<Rightarrow> (bool \<times> tcp_session \<times> 'w) run" where
  "session_init S s w =
     (let w1 = make_socket_nonblocking S (s_fd s) w;
          (r, w2) = bufferevent_socket_new S (s_fd s) w1
      in andThen (sptr_release S (s_bev_sptr s) w2) (\<lambda>w3.
           let s1 = s\<lparr>s_bev_sptr := sptr_owning r\<rparr>
           in case bev_get (s_bev_sptr s1) of
                None \<Rightarrow> Inr (False, s1, w3)
              | Some b \<Rightarrow>
                  let w4 = bufferevent_setcb S b w3;
                      (ret, w5) = bufferevent_enable S b (EV_READ + EV_WRITE) w4
                  in if ret = -1 then
                       andThen (sptr_release S (s_bev_sptr s1) w5)
                         (\<lambda>w6. Inr (False, s1\<lparr>s_bev_sptr := NoBev\<rparr>, w6))
                     else Inr (True, s1, w5)))"

definition session_get_fd :: "tcp_session \<Rightarrow> fd" where
  "session_get_fd s = s_fd s"

definition session_send ::
    "'w sys \<Rightarrow> tcp_session \<Rightarrow> bytes \<Rightarrow> nat \<Rightarrow> nat \<Rightarrow> 'w \<Rightarrow> (bool \<times> 'w) run" where
  "session_send S s mem off sz w =
     (case bev_get (s_bev_sptr s) of
        None \<Rightarrow> Inr (False, w)
      | Some b \<Rightarrow> if s_isClosing s then Inr (False, w)
          else andThen (mem_slice mem off sz)
            (\<lambda>d. let (r, w') = bufferevent_write S b d w in Inr (r \<noteq> -1, w')))"

definition session_drainInputBuffer :: "'w sys \<Rightarrow> tcp_session \<Rightarrow> nat \<Rightarrow> 'w \<Rightarrow> bool \<times> 'w" where
  "session_drainInputBuffer S s len w =
     (case bev_get (s_bev_sptr s) of
        Some b \<Rightarrow> let (r, w') = input_drain S b len w in (r \<noteq> -1, w')
      | None \<Rightarrow> (False, w))"

definition session_getInputBufferLength :: "'w sys \<Rightarrow> tcp_session \<Rightarrow> 'w \<Rightarrow> nat" where
  "session_getInputBufferLength S s w =
     (case bev_get (s_bev_sptr s) of Some b \<Rightarrow> to_uint32 (input_length S b w) | None \<Rightarrow> 0)"

definition session_viewInputBuffer ::
    "'w sys \<Rightarrow> tcp_session \<Rightarrow> nat \<Rightarrow> 'w \<Rightarrow> bytes option \<times> 'w" where
  "session_viewInputBuffer S s sz w =
     (case bev_get (s_bev_sptr s) of Some b \<Rightarrow> input_pullup S b sz w | None \<Rightarrow> (None, w))"

definition session_readInputBuffer ::
    "'w sys \<Rightarrow> tcp_session \<Rightarrow> nat \<Rightarrow> 'w \<Rightarrow> (bool \<times> bytes) \<times> 'w" where
  "session_readInputBuffer S s sz w =
     (case bev_get (s_bev_sptr s) of
        Some b \<Rightarrow> let ((r, out), w') = input_remove S b sz w in ((r \<noteq> -1, out), w')
      | None \<Rightarrow> ((False, []), w))"

definition session_clearInputBuffer :: "'w sys \<Rightarrow> tcp_session \<Rightarrow> 'w \<Rightarrow> 'w" where
  "session_clearInputBuffer S s w =
     (case bev_get (s_bev_sptr s) of Some b \<Rightarrow> snd (input_drain S b UINT32_MAX w) | None \<Rightarrow> w)"

section \<open>Facts about the operations\<close>

lemma session_destroy_release: "session_destroy S s w = sptr_release S (s_bev_sptr s) w"
  by (cases "s_bev_sptr s") (simp_all add: session_destroy_def)

lemma session_send_refused:
  "bev_get (s_bev_sptr s) = None \<or> s_isClosing s \<Longrightarrow> session_send S s mem off sz w = Inr (False, w)"
  by (cases "s_bev_sptr s") (auto simp: session_send_def)

lemma session_send_open:
  assumes "s_bev_sptr s = Bev b" and "\<not> s_isClosing s" and "mem_slice mem off sz = Inr d"
  shows "session_send S s mem off sz w =
    Inr (fst (bufferevent_write S b d w) \<noteq> -1, snd (bufferevent_write S b d w))"
  using assms by (simp add: session_send_def split: prod.splits)

text \<open>The three ways \<open>init\<close> of a fresh session can end.\<close>

lemma session_init_cases:
  assumes "libevent_ok S V" and "session_init S (new_tcp_session fd junk) w = r"
  obtains (no_bev) w' where "r = Inr (False, (new_tcp_session fd junk)\<lparr>s_bev_sptr := OwnsNull\<rparr>, w')"
      "keeps V w w'"
  | (not_enabled) b w' where "r = Inr (False, new_tcp_session fd junk, w')" "b \<notin> live V w"
      "live V w' = live V w" "\<And>h. h \<noteq> b \<Longrightarrow> inq V w' h = inq V w h \<and> sent V w' h = sent V w h"
  | (ready) b w' where "r = Inr (True, (new_tcp_session fd junk)\<lparr>s_bev_sptr := Bev b\<rparr>, w')"
      "b \<notin> live V w" "live V w' = insert b (live V w)"
      "inq V w' = (inq V w)(b := [])" "sent V w' = (sent V w)(b := [])"
proof -
  let ?s = "new_tcp_session fd junk"
  define w1 where "w1 = make_socket_nonblocking S fd w"
  have k1: "keeps V w w1" unfolding w1_def by (rule keeps_others(5) [OF assms(1)])
  obtain nb w2 where new: "bufferevent_socket_new S fd w1 = (nb, w2)" by (rule prod.exhaust)
  show thesis
  proof (cases nb)
    case None
    have "r = Inr (False, ?s\<lparr>s_bev_sptr := OwnsNull\<rparr>, w2)"
      using assms(2) new None by (simp add: session_init_def new_tcp_session_def w1_def)
    moreover have "keeps V w w2"
      using keeps_trans [OF k1 bufferevent_new_None [OF assms(1) new [unfolded None]]] .
    ultimately show thesis by (rule no_bev)
  next
    case (Some b)
    note b = bufferevent_new_ok [OF assms(1) new [unfolded Some]]
    define w4 where "w4 = bufferevent_setcb S b w2"
    obtain ret w5 where en: "bufferevent_enable S b (EV_READ + EV_WRITE) w4 = (ret, w5)"
      by (rule prod.exhaust)
    have k5: "keeps V w2 w5"
      using keeps_trans [OF keeps_others(1) [OF assms(1), of w2 b]
          keeps_others(2) [OF assms(1), of "bufferevent_setcb S b w2" b "EV_READ + EV_WRITE"]] en
      by (simp add: w4_def)
    show thesis
    proof (cases "ret = -1")
      case True
      have "r = Inr (False, ?s, bufferevent_free S b w5)"
        using assms(2) new Some en True by (simp add: session_init_def new_tcp_session_def w1_def w4_def)
      then show thesis
        using b k1 k5 bufferevent_free_ok [OF assms(1), where b = b and w = w5]
        by (intro not_enabled [where b = b and w' = "bufferevent_free S b w5"]) (auto simp: keeps_def)
    next
      case False
      have "r = Inr (True, ?s\<lparr>s_bev_sptr := Bev b\<rparr>, w5)"
        using assms(2) new Some en False by (simp add: session_init_def new_tcp_session_def w1_def w4_def)
      then show thesis
        using b k1 k5 by (intro ready [where b = b and w' = w5]) (auto simp: keeps_def)
    qed
  qed
qed

end
