(* ===== verification/Inet.thy ===== *)
theory Inet
  imports Tcp_Socket
begin

text \<open>
  Socket addresses as the bytes the program builds them from: \<open>sockaddr_in\<close>, \<open>sockaddr_in6\<close>
  and \<open>sockaddr_un\<close> with the layout of Linux, \<open>htons\<close>, \<open>c_str\<close> and \<open>strncpy\<close>. A copy that does
  not fit into the structure on the stack is the fault \<open>StackSmash\<close>.
\<close>

abbreviation (input) NUL :: char where "NUL \<equiv> CHR 0x00"

definition c_str :: "bytes \<Rightarrow> bytes" where
  "c_str s = takeWhile (\<lambda>c. c \<noteq> NUL) s"

definition store_bytes :: "bytes \<Rightarrow> nat \<Rightarrow> bytes \<Rightarrow> bytes run" where
  "store_bytes buf off bs =
     (if off + length bs \<le> length buf
      then Inr (take off buf @ bs @ drop (off + length bs) buf) else Inl StackSmash)"

text \<open>\<open>strncpy(dest, src, n)\<close> always writes \<open>n\<close> bytes: the string, then NULs.\<close>

definition strncpy_bytes :: "bytes \<Rightarrow> nat \<Rightarrow> bytes" where
  "strncpy_bytes src n = take n (c_str src @ replicate n NUL)"

definition htons_bytes :: "16 word \<Rightarrow> bytes" where
  "htons_bytes p = [char_of (unat p div 256), char_of (unat p mod 256)]"

text \<open>The two bytes of a \<open>sa_family_t\<close>, in the order of a little-endian machine.\<close>

definition family_bytes :: "int \<Rightarrow> bytes" where
  "family_bytes f = [char_of (nat f mod 256), char_of (nat f div 256)]"

definition family_of :: "bytes \<Rightarrow> int" where
  "family_of a = int (of_char (a ! 0) + 256 * of_char (a ! 1))"

definition port_of :: "bytes \<Rightarrow> nat" where
  "port_of a = 256 * of_char (a ! 2) + of_char (a ! 3)"

abbreviation sizeof_sockaddr_in6 :: nat where "sizeof_sockaddr_in6 \<equiv> 28"
abbreviation sizeof_sockaddr_un :: nat where "sizeof_sockaddr_un \<equiv> 110"

text \<open>
  \<open>evutil_inet_pton(family, text, dest)\<close> with the result ignored: on success the bytes of the
  address are written at \<open>dest\<close>, otherwise nothing is.
\<close>

definition store_pton :: "'w sys \<Rightarrow> int \<Rightarrow> bytes \<Rightarrow> bytes \<Rightarrow> nat \<Rightarrow> bytes run" where
  "store_pton S fam ip buf off =
     (case inet_pton S fam (c_str ip) of None \<Rightarrow> Inr buf | Some bs \<Rightarrow> store_bytes buf off bs)"

lemma store_bytes_fits [simp]:
  "off + length bs \<le> length buf \<Longrightarrow>
   store_bytes buf off bs = Inr (take off buf @ bs @ drop (off + length bs) buf)"
  by (simp add: store_bytes_def)

lemma store_bytes_smash: "length buf < off + length bs \<Longrightarrow> store_bytes buf off bs = Inl StackSmash"
  by (simp add: store_bytes_def)

lemma length_strncpy_bytes [simp]: "length (strncpy_bytes src n) = n"
  by (simp add: strncpy_bytes_def)

lemma of_char_char_of_small: "n < 256 \<Longrightarrow> (of_char (char_of n) :: nat) = n"
  by simp

lemma length_htons_bytes [simp]: "length (htons_bytes p) = 2"
  by (simp add: htons_bytes_def)

lemma length_family_bytes [simp]: "length (family_bytes f) = 2"
  by (simp add: family_bytes_def)

lemma port_word_less: "unat (p :: 16 word) < 65536"
  using unsigned_less [of p, where ?'a = nat] by simp

lemma port_of_htons [simp]: "port_of (family_bytes f @ htons_bytes p @ rest) = unat p"
proof -
  have "unat p div 256 < 256" using port_word_less [of p] by (simp add: less_mult_imp_div_less)
  then show ?thesis by (simp add: port_of_def htons_bytes_def family_bytes_def)
qed

lemma family_of_family_bytes [simp]:
  assumes "0 \<le> f" and "f < 256"
  shows "family_of (family_bytes f @ rest) = f"
  using assms by (simp add: family_of_def family_bytes_def nat_less_iff)

text \<open>
  What \<open>inet_pton\<close> is documented to do: an IPv4 address has 4 bytes, an IPv6 address 16.
\<close>

definition inet_pton_ok :: "'w sys \<Rightarrow> bool" where
  "inet_pton_ok S \<longleftrightarrow> (\<forall>ip bs. (inet_pton S AF_INET ip = Some bs \<longrightarrow> length bs = 4) \<and>
     (inet_pton S AF_INET6 ip = Some bs \<longrightarrow> length bs = 16))"

lemma inet_pton_length:
  "inet_pton_ok S \<Longrightarrow> inet_pton S AF_INET ip = Some bs \<Longrightarrow> length bs = 4"
  "inet_pton_ok S \<Longrightarrow> inet_pton S AF_INET6 ip = Some bs \<Longrightarrow> length bs = 16"
  by (auto simp: inet_pton_ok_def)

end
