(* ===== verification/Tcp_Client.thy ===== *)
theory Tcp_Client
  imports Inet
begin

text \<open>
  The connection to the database, \<open>TcpClient\<close> (\<open>src/include/tcpClient.h\<close>,
  \<open>src/src/tcpClient.cpp\<close>): connecting over IPv4, IPv6 or a Unix socket, the socket options,
  and the event handler. \<open>onRead\<close> is in \<open>Read_Handler\<close>.
\<close>

record tcp_client = tcp_socket +
  isConnected :: bool
  cl_dscp :: "32 word"
  conn_info :: CONN_INFO

definition client_init :: "'a tcp_client_scheme \<Rightarrow> bool \<times> 'a tcp_client_scheme" where
  "client_init c = (True, c\<lparr>cl_dscp := 0\<rparr>)"

definition set_dscp :: "'a tcp_client_scheme \<Rightarrow> 32 word \<Rightarrow> 'a tcp_client_scheme" where
  "set_dscp c d = c\<lparr>cl_dscp := d\<rparr>"

definition set_conn_info :: "'a tcp_client_scheme \<Rightarrow> CONN_INFO \<Rightarrow> 'a tcp_client_scheme" where
  "set_conn_info c info = c\<lparr>conn_info := conn_info_assign (conn_info c) info\<rparr>"

text \<open>\<open>disConnect\<close>: the pointer is reset only when it is true in a condition.\<close>

definition disConnect ::
    "'w sys \<Rightarrow> 'a tcp_client_scheme \<Rightarrow> 'w \<Rightarrow> (bool \<times> 'a tcp_client_scheme \<times> 'w) run" where
  "disConnect S c w =
     (if bev_get (bev_sptr c) \<noteq> None then
        andThen (sptr_release S (bev_sptr c) w) (\<lambda>w'. Inr (True, c\<lparr>bev_sptr := NoBev\<rparr>, w'))
      else Inr (True, c, w))"

section \<open>Socket options\<close>

text \<open>
  The loop over the address list stops at the first address \<open>bind\<close> accepts. (The message it
  logs there says that \<open>bind\<close> failed.)
\<close>

fun bind_loop :: "'w sys \<Rightarrow> fd \<Rightarrow> bytes list \<Rightarrow> 'w \<Rightarrow> 'w" where
  "bind_loop S s [] w = w"
| "bind_loop S s (b # bs) w =
     (let (r, w') = sys_bind S s b w in if r \<noteq> -1 then w' else bind_loop S s bs w')"

definition set_source_addr ::
    "'w sys \<Rightarrow> 'a tcp_client_scheme \<Rightarrow> bytes \<Rightarrow> fd \<Rightarrow> 'w \<Rightarrow> (bool \<times> 'w) run" where
  "set_source_addr S c source_addr fd w =
     (if source_addr = [] then Inr (True, w)
      else andThen (if fd < 0 then get_socket S c w else Inr fd)
        (\<lambda>s. if s < 0 then Inr (False, w)
          else let ((rv, addrs), w1) = sys_getaddrinfo S (c_str source_addr) w
            in if rv \<noteq> 0 then Inr (False, w1) else Inr (True, bind_loop S s addrs w1)))"

definition tos_of_dscp :: "32 word \<Rightarrow> 8 word" where
  "tos_of_dscp d = ucast (push_bit 2 (and d 0x3f))"

definition set_sockopt_tos ::
    "'w sys \<Rightarrow> 'a tcp_client_scheme \<Rightarrow> 32 word \<Rightarrow> fd \<Rightarrow> 'w \<Rightarrow> (int \<times> 'w) run" where
  "set_sockopt_tos S c d fd0 w =
     (if bev_get (bev_sptr c) = None then Inr (-1, w)
      else andThen (if fd0 < 0 then get_socket S c w else Inr fd0)
        (\<lambda>fd. if fd < 0 then Inr (-1, w)
          else let (ret, family) = sys_getsockname S fd w
            in if ret \<noteq> 0 then Inr (ret, w)
               else let tos = tos_of_dscp d
                 in if family = AF_INET then Inr (sys_setsockopt S fd (IP_TOS tos) w)
                    else if family = AF_INET6 then Inr (sys_setsockopt S fd (IPV6_TCLASS tos) w)
                    else Inr (-1, w)))"

section \<open>Connecting\<close>

text \<open>\<open>_connect\<close>: from a socket and an address to a registered bufferevent.\<close>

definition connect_fd ::
    "'w sys \<Rightarrow> 'a tcp_client_scheme \<Rightarrow> bytes \<Rightarrow> fd \<Rightarrow> 'w \<Rightarrow> (bool \<times> 'a tcp_client_scheme \<times> 'w) run" where
  "connect_fd S c addr fd w =
     (if fd < 0 then Inr (False, c, w)
      else
        let w1 = make_socket_nonblocking S fd w
        in andThen (set_source_addr S c (get_source_ip (conn_info c)) fd w1) (\<lambda>(_, w2).
          let (r, w3) = bufferevent_socket_new S fd w2
          in andThen (sptr_release S (bev_sptr c) w3) (\<lambda>w4.
            let c1 = c\<lparr>bev_sptr := sptr_owning r\<rparr>
            in case bev_get (bev_sptr c1) of
                 None \<Rightarrow> Inr (False, c1, w4)
               | Some b \<Rightarrow>
                   let (ret, w5) = bufferevent_socket_connect S b addr w4
                   in if ret = -1 then
                        andThen (sptr_release S (bev_sptr c1) w5)
                          (\<lambda>w6. Inr (False, c1\<lparr>bev_sptr := NoBev\<rparr>, w6))
                      else
                        let w6 = bufferevent_setcb S b w5;
                            (ret2, w7) = bufferevent_enable S b (EV_READ + EV_WRITE) w6
                        in if ret2 = -1 then
                             andThen (sptr_release S (bev_sptr c1) w7)
                               (\<lambda>w8. Inr (False, c1\<lparr>bev_sptr := NoBev\<rparr>, w8))
                           else
                             andThen (set_sockopt_tos S c1 (get_dscp (conn_info c1)) fd w7)
                               (\<lambda>(_, w8). Inr (True, c1, w8)))))"

text \<open>The addresses \<open>connect\<close> builds.\<close>

definition sockaddr_in :: "'w sys \<Rightarrow> bytes \<Rightarrow> 16 word \<Rightarrow> bytes run" where
  "sockaddr_in S ip p =
     andThen (store_bytes (replicate sizeof_sockaddr_in NUL) 0 (family_bytes AF_INET)) (\<lambda>a.
       andThen (store_pton S AF_INET ip a 4) (\<lambda>a. store_bytes a 2 (htons_bytes p)))"

definition sockaddr_in6 :: "'w sys \<Rightarrow> bytes \<Rightarrow> 16 word \<Rightarrow> bytes run" where
  "sockaddr_in6 S ip p =
     andThen (store_bytes (replicate sizeof_sockaddr_in6 NUL) 2 (htons_bytes p)) (\<lambda>a.
       andThen (store_bytes a 0 (family_bytes AF_INET6)) (\<lambda>a. store_pton S AF_INET6 ip a 8))"

definition sockaddr_un :: "bytes \<Rightarrow> bytes run" where
  "sockaddr_un p =
     andThen (store_bytes (replicate sizeof_sockaddr_un NUL) 0 (family_bytes AF_UNIX))
       (\<lambda>a. store_bytes a 2 (strncpy_bytes (c_str p) (length p)))"

definition client_connect ::
    "'w sys \<Rightarrow> 'a tcp_client_scheme \<Rightarrow> CONN_INFO \<Rightarrow> 'w \<Rightarrow> (bool \<times> 'a tcp_client_scheme \<times> 'w) run" where
  "client_connect S c0 info w =
     (let c = set_conn_info c0 info
      in case get_conn_type info of
           IP_V4 \<Rightarrow>
             let (sock_fd, w1) = sys_socket S AF_INET w
             in if sock_fd < 0 then Inr (False, c, w1)
                else (case stoi (get_port info) of
                    Inl _ \<Rightarrow> Inr (False, c, w1)
                  | Inr i \<Rightarrow> andThen (sockaddr_in S (get_ip info) (word_of_int i))
                      (\<lambda>addr. connect_fd S c addr sock_fd w1))
         | IP_V6 \<Rightarrow>
             let (sock_fd, w1) = sys_socket S AF_INET6 w
             in if sock_fd < 0 then Inr (False, c, w1)
                else (case stoi (get_port info) of
                    Inl _ \<Rightarrow> Inr (False, c, w1)
                  | Inr i \<Rightarrow> andThen (sockaddr_in6 S (get_ip info) (word_of_int i))
                      (\<lambda>addr. connect_fd S c addr sock_fd w1))
         | UNIX_SOCKET \<Rightarrow>
             let (sock_fd, w1) = sys_socket S AF_UNIX w
             in if sock_fd < 0 then Inr (False, c, w1)
                else andThen (sockaddr_un (get_path info)) (\<lambda>addr. connect_fd S c addr sock_fd w1)
         | UN_KNOWN \<Rightarrow> Inr (False, c, w))"

definition reconnect ::
    "'w sys \<Rightarrow> 'a tcp_client_scheme \<Rightarrow> 'w \<Rightarrow> ('a tcp_client_scheme \<times> 'w) run" where
  "reconnect S c w =
     andThen (if bev_get (bev_sptr c) \<noteq> None
              then andThen (sptr_release S (bev_sptr c) w) (\<lambda>w'. Inr (c\<lparr>bev_sptr := NoBev\<rparr>, w'))
              else Inr (c, w))
       (\<lambda>(c1, w1). andThen (client_connect S c1 (conn_info c1) w1) (\<lambda>(_, c2, w2). Inr (c2, w2)))"

section \<open>Events\<close>

abbreviation (input) BEV_EVENT_EOF :: "16 word" where "BEV_EVENT_EOF \<equiv> 0x10"
abbreviation (input) BEV_EVENT_ERROR :: "16 word" where "BEV_EVENT_ERROR \<equiv> 0x20"
abbreviation (input) BEV_EVENT_TIMEOUT :: "16 word" where "BEV_EVENT_TIMEOUT \<equiv> 0x40"
abbreviation (input) BEV_EVENT_CONNECTED :: "16 word" where "BEV_EVENT_CONNECTED \<equiv> 0x80"
abbreviation (input) ECONNREFUSED :: int where "ECONNREFUSED \<equiv> 111"
abbreviation (input) ETIMEDOUT :: int where "ETIMEDOUT \<equiv> 110"

text \<open>\<open>onConnected\<close> and \<open>onDisconnected\<close> only log.\<close>

definition client_handleEvent ::
    "'w sys \<Rightarrow> 'a tcp_client_scheme \<Rightarrow> 16 word \<Rightarrow> 'w \<Rightarrow> ('a tcp_client_scheme \<times> 'w) run" where
  "client_handleEvent S c events w =
     (if and events (or BEV_EVENT_EOF (or BEV_EVENT_ERROR BEV_EVENT_TIMEOUT)) \<noteq> 0 then
        (case bev_get (bev_sptr c) of
           None \<Rightarrow> Inl NullDeref
         | Some b \<Rightarrow>
             let w1 = snd (bufferevent_disable S b (EV_READ + EV_WRITE) w)
             in andThen (get_socket S c w1) (\<lambda>fd.
                  let w2 = closesocket S fd w1;
                      c1 = c\<lparr>isConnected := False\<rparr>
                  in if bev_get (bev_sptr c1) \<noteq> None then
                       andThen (sptr_release S (bev_sptr c1) w2)
                         (\<lambda>w3. Inr (c1\<lparr>bev_sptr := NoBev\<rparr>, w3))
                     else Inr (c1, w2)))
      else if and events BEV_EVENT_CONNECTED \<noteq> 0 then
        (let socketError = sys_errno S w
         in if socketError \<noteq> ECONNREFUSED \<and> socketError \<noteq> ETIMEDOUT
            then Inr (c\<lparr>isConnected := True\<rparr>, w)
            else Inr (c, w))
      else Inr (c, w))"

definition client_writeCallback ::
    "'w sys \<Rightarrow> 'a tcp_client_scheme \<Rightarrow> 'w \<Rightarrow> ('a tcp_client_scheme \<times> 'w) run" where
  "client_writeCallback S c w = checkClosing S c w"

end
