(* ===== verification/Tcp_Client_Facts.thy ===== *)
theory Tcp_Client_Facts
  imports Tcp_Client
begin

text \<open>
  What \<open>TcpClient\<close> does on each path: the ways a connection attempt can end, the addresses it
  uses, the socket option, and the event handler.
\<close>

section \<open>The parts of a connection attempt\<close>

lemma bind_loop_keeps: "libevent_ok S V \<Longrightarrow> keeps V w (bind_loop S s bs w)"
proof (induction bs arbitrary: w)
  case (Cons b bs)
  obtain r w' where b: "sys_bind S s b w = (r, w')" by (rule prod.exhaust)
  have "keeps V w w'" using keeps_others(9) [OF Cons.prems, of w s b] b by simp
  with b Cons.IH [OF Cons.prems, of w'] show ?case by (auto intro: keeps_trans)
qed simp

lemma set_source_addr_total:
  assumes "libevent_ok S V" and "0 \<le> fd"
  obtains ok w' where "set_source_addr S c a fd w = Inr (ok, w')" "keeps V w w'"
proof (cases "a = []")
  case True
  then show thesis using that by (simp add: set_source_addr_def)
next
  case False
  obtain rv addrs w1 where g: "sys_getaddrinfo S (c_str a) w = ((rv, addrs), w1)"
    by (metis prod.exhaust)
  have k: "keeps V w w1" using keeps_others(10) [OF assms(1), of w "c_str a"] g by simp
  show thesis
    using that [of False w1] that [of True "bind_loop S fd addrs w1"] False g k assms(2)
      keeps_trans [OF k bind_loop_keeps [OF assms(1)]]
    by (cases "rv = 0") (simp_all add: set_source_addr_def)
qed

lemma set_sockopt_tos_total:
  assumes "libevent_ok S V" and "0 \<le> fd"
  obtains r w' where "set_sockopt_tos S c d fd w = Inr (r, w')" "keeps V w w'"
proof -
  obtain ret family where g: "sys_getsockname S fd w = (ret, family)" by (rule prod.exhaust)
  obtain r4 w4 where o4: "sys_setsockopt S fd (IP_TOS (tos_of_dscp d)) w = (r4, w4)" by (rule prod.exhaust)
  obtain r6 w6 where o6: "sys_setsockopt S fd (IPV6_TCLASS (tos_of_dscp d)) w = (r6, w6)" by (rule prod.exhaust)
  have "keeps V w w4" "keeps V w w6"
    using keeps_others(11) [OF assms(1), of w fd] o4 o6 by (metis snd_conv)+
  moreover have "set_sockopt_tos S c d fd w \<in> {Inr (-1, w), Inr (ret, w), Inr (r4, w4), Inr (r6, w6)}"
    using assms(2) g o4 o6 by (simp add: set_sockopt_tos_def Let_def)
  ultimately show thesis using that by auto
qed

text \<open>The ends of \<open>_connect\<close> for a client without a bufferevent.\<close>

definition only_handle :: "'w view \<Rightarrow> bev \<Rightarrow> 'w \<Rightarrow> 'w \<Rightarrow> bool" where
  "only_handle V b w w' \<longleftrightarrow> b \<notin> live V w \<and>
     (\<forall>h. h \<noteq> b \<longrightarrow> inq V w' h = inq V w h \<and> sent V w' h = sent V w h)"

lemma no_bev_update: "bev_sptr c = NoBev \<Longrightarrow> c\<lparr>bev_sptr := NoBev\<rparr> = c"
  by (cases c) simp

lemma connect_fd_cases:
  assumes S: "libevent_ok S V" and c: "bev_sptr c = NoBev"
  obtains (failed) w' where "connect_fd S c addr fd w = Inr (False, c, w')" "live V w' = live V w"
      "keeps V w w' \<or> (\<exists>b. only_handle V b w w')"
  | (no_bev) w' where "connect_fd S c addr fd w = Inr (False, c\<lparr>bev_sptr := OwnsNull\<rparr>, w')" "keeps V w w'"
      "\<exists>w2. fst (bufferevent_socket_new S fd w2) = None"
  | (connected) b w' where "connect_fd S c addr fd w = Inr (True, c\<lparr>bev_sptr := Bev b\<rparr>, w')"
      "only_handle V b w w'" "live V w' = insert b (live V w)" "inq V w' b = []" "sent V w' b = []"
proof (cases "fd < 0")
  case True
  then show thesis using failed [of w] by (simp add: connect_fd_def)
next
  case False
  define w1 where "w1 = make_socket_nonblocking S fd w"
  have k1: "keeps V w w1" unfolding w1_def by (rule keeps_others(5) [OF S])
  obtain ok w2 where sa: "set_source_addr S c (get_source_ip (conn_info c)) fd w1 = Inr (ok, w2)"
    and k2: "keeps V w1 w2" using set_source_addr_total [OF S] False by (metis linorder_not_less)
  obtain nb w3 where new: "bufferevent_socket_new S fd w2 = (nb, w3)" by (rule prod.exhaust)
  note k12 = keeps_trans [OF k1 k2]
  note start = connect_fd_def Let_def w1_def [symmetric] sa new c False
  show thesis
  proof (cases nb)
    case None
    have "connect_fd S c addr fd w = Inr (False, c\<lparr>bev_sptr := OwnsNull\<rparr>, w3)"
      using None by (simp add: start)
    moreover have "keeps V w w3" using keeps_trans [OF k12 bufferevent_new_None [OF S new [unfolded None]]] .
    moreover have "\<exists>w2. fst (bufferevent_socket_new S fd w2) = None" using new None by (metis fst_conv)
    ultimately show thesis by (rule no_bev [of w3])
  next
    case (Some b)
    note b = bufferevent_new_ok [OF S new [unfolded Some]]
    obtain ret w5 where co: "bufferevent_socket_connect S b addr w3 = (ret, w5)" by (rule prod.exhaust)
    have k5: "keeps V w3 w5" using keeps_others(4) [OF S, of w3 b addr] co by simp
    have base: "only_handle V b w w'" if "keeps V w3 w'" for w'
      using that b k12 by (simp add: only_handle_def keeps_def)
    have freed: "live V (bufferevent_free S b w') = live V w" "only_handle V b w (bufferevent_free S b w')"
      if "keeps V w3 w'" for w'
      using base [OF that] that b k12 bufferevent_free_ok [OF S, where b = b and w = w']
      by (auto simp: only_handle_def keeps_def)
    obtain ret2 w7 where en: "bufferevent_enable S b (EV_READ + EV_WRITE) (bufferevent_setcb S b w5) = (ret2, w7)"
      by (rule prod.exhaust)
    have k7: "keeps V w3 w7"
      using keeps_trans [OF k5 keeps_trans [OF keeps_others(1) [OF S] keeps_others(2) [OF S]]] en
      by (metis snd_conv)
    obtain r8 w8 where so: "set_sockopt_tos S (c\<lparr>bev_sptr := Bev b\<rparr>) (get_dscp (conn_info c)) fd w7 = Inr (r8, w8)"
      and k8: "keeps V w7 w8"
      using set_sockopt_tos_total [OF S] False by (metis linorder_not_less)
    note k38 = keeps_trans [OF k7 k8]
    consider "ret = -1" | "ret \<noteq> -1" "ret2 = -1" | "ret \<noteq> -1" "ret2 \<noteq> -1" by blast
    then show thesis
    proof cases
      case 1
      have "connect_fd S c addr fd w = Inr (False, c\<lparr>bev_sptr := NoBev\<rparr>, bufferevent_free S b w5)"
        using Some 1 co by (simp add: start)
      then show thesis using failed freed [OF k5] no_bev_update [OF c] by (metis (full_types))
    next
      case 2
      have "connect_fd S c addr fd w = Inr (False, c\<lparr>bev_sptr := NoBev\<rparr>, bufferevent_free S b w7)"
        using Some 2 co en by (simp add: start)
      then show thesis using failed freed [OF k7] no_bev_update [OF c] by (metis (full_types))
    next
      case 3
      have "connect_fd S c addr fd w = Inr (True, c\<lparr>bev_sptr := Bev b\<rparr>, w8)"
        using Some 3 co en so by (simp add: start)
      then show thesis using connected base [OF k38] k38 k12 b by (simp add: keeps_def)
    qed
  qed
qed

section \<open>Addresses\<close>

lemma store_pton_total:
  assumes "\<And>bs. inet_pton S fam (c_str ip) = Some bs \<Longrightarrow> off + length bs \<le> length buf"
  obtains buf' where "store_pton S fam ip buf off = Inr buf'" "length buf' = length buf"
    "take off buf' = take off buf"
proof (cases "inet_pton S fam (c_str ip)")
  case None
  then show thesis using that by (simp add: store_pton_def)
next
  case (Some bs)
  then show thesis using that assms [OF Some] by (simp add: store_pton_def)
qed

lemma take_4_prefix: "length a = 4 \<Longrightarrow> take 4 buf = a \<Longrightarrow> \<exists>rest. buf = a @ rest"
  by (metis append_take_drop_id)

lemma sockaddr_in_total:
  assumes "inet_pton_ok S"
  obtains rest where "sockaddr_in S ip p = Inr (family_bytes AF_INET @ htons_bytes p @ rest)" "length rest = 12"
proof -
  let ?b = "family_bytes AF_INET @ replicate 14 NUL"
  have z: "store_bytes (replicate sizeof_sockaddr_in NUL) 0 (family_bytes AF_INET) = Inr ?b"
    by (simp add: sizeof_sockaddr_in_def numeral_eq_Suc)
  obtain buf' where buf': "store_pton S AF_INET ip ?b 4 = Inr buf'" "length buf' = 16" "take 4 buf' = take 4 ?b"
  proof (rule store_pton_total [of S AF_INET ip 4 ?b])
    show "4 + length bs \<le> length ?b" if "inet_pton S AF_INET (c_str ip) = Some bs" for bs
      using inet_pton_length(1) [OF assms that] by simp
  qed simp
  have "take 2 buf' = family_bytes AF_INET"
    using arg_cong [OF buf'(3), of "take 2"] by (simp add: min_def)
  then have "store_bytes buf' 2 (htons_bytes p) = Inr (family_bytes AF_INET @ htons_bytes p @ drop 4 buf')"
    using buf'(2) by simp
  then show thesis using that [of "drop 4 buf'"] z buf' by (simp add: sockaddr_in_def)
qed

lemma sockaddr_in6_total:
  assumes "inet_pton_ok S"
  obtains rest where "sockaddr_in6 S ip p = Inr (family_bytes AF_INET6 @ htons_bytes p @ rest)" "length rest = 24"
proof -
  let ?b = "family_bytes AF_INET6 @ htons_bytes p @ replicate 24 NUL"
  have z: "andThen (store_bytes (replicate sizeof_sockaddr_in6 NUL) 2 (htons_bytes p))
      (\<lambda>a. store_bytes a 0 (family_bytes AF_INET6)) = Inr ?b"
    by (simp add: numeral_eq_Suc)
  obtain buf' where buf': "store_pton S AF_INET6 ip ?b 8 = Inr buf'" "length buf' = 28" "take 8 buf' = take 8 ?b"
  proof (rule store_pton_total [of S AF_INET6 ip 8 ?b])
    show "8 + length bs \<le> length ?b" if "inet_pton S AF_INET6 (c_str ip) = Some bs" for bs
      using inet_pton_length(2) [OF assms that] by simp
  qed simp
  have "take 4 buf' = family_bytes AF_INET6 @ htons_bytes p"
    using arg_cong [OF buf'(3), of "take 4"] by (simp add: min_def)
  then have "buf' = family_bytes AF_INET6 @ htons_bytes p @ drop 4 buf'"
    by (metis append_assoc append_take_drop_id)
  moreover have "sockaddr_in6 S ip p = Inr buf'"
    using z buf'(1) by (simp add: sockaddr_in6_def flip: andThen_assoc)
  ultimately show thesis using that [of "drop 4 buf'"] buf'(2) by simp
qed

lemma sockaddr_un_smash: "108 < length p \<Longrightarrow> sockaddr_un p = Inl StackSmash"
  by (simp add: sockaddr_un_def store_bytes_def)

lemma sockaddr_un_total:
  assumes "length p \<le> 108"
  shows "sockaddr_un p = Inr (family_bytes AF_UNIX @ strncpy_bytes (c_str p) (length p) @ replicate (108 - length p) NUL)"
proof -
  have z: "store_bytes (replicate sizeof_sockaddr_un NUL) 0 (family_bytes AF_UNIX) =
      Inr (family_bytes AF_UNIX @ replicate 108 NUL)"
    by (simp add: numeral_eq_Suc)
  have "store_bytes (family_bytes AF_UNIX @ replicate 108 NUL) 2 (strncpy_bytes (c_str p) (length p)) =
      Inr (family_bytes AF_UNIX @ strncpy_bytes (c_str p) (length p) @ replicate (108 - length p) NUL)"
    using assms by (subst store_bytes_fits) (auto simp del: replicate.simps)
  with z show ?thesis by (simp only: sockaddr_un_def andThen_Inr)
qed

end
