(* ===== verification/Tcp_Client_Props.thy ===== *)
theory Tcp_Client_Props
  imports Tcp_Client_Facts
begin

text \<open>
  The properties of \<open>CONN_INFO\<close> and \<open>TcpClient\<close>: what a connection attempt leaves behind, the
  address it uses, and where it leaves memory it owns.
\<close>

section \<open>Connection data\<close>

text \<open>
  \<open>operator==\<close> of \<open>CONN_INFO\<close> holds exactly when all seven members agree, and after an
  assignment the two objects compare equal.
\<close>

theorem conn_info_comparison:
  shows "conn_info_eq this rhs = (this = rhs) \<and> conn_info_eq (conn_info_assign this rhs) rhs"
  by (simp add: conn_info_eq_iff)

lemma unat_tos: "unat (tos_of_dscp d) = 4 * (unat d mod 64)"
proof -
  have m: "and d 0x3f = take_bit 6 d" by (simp add: take_bit_eq_mask mask_eq_exp_minus_1)
  have u: "unat (take_bit 6 d) = unat d mod 64"
    unfolding unsigned_take_bit_eq by (simp add: take_bit_eq_mod)
  have less: "unat (take_bit 6 d) * 4 < 256" unfolding u by simp
  have "unat (push_bit 2 (take_bit 6 d)) = 4 * (unat d mod 64)"
    using less u by (simp add: push_bit_eq_mult unat_word_ariths)
  then have "unat (tos_of_dscp d) = (4 * (unat d mod 64)) mod 256"
    unfolding tos_of_dscp_def m by (simp add: unsigned_ucast_eq take_bit_eq_mod)
  then show ?thesis by simp
qed

text \<open>
  The type-of-service byte carries the low six bits of the DSCP value in its upper six bits
  and leaves the two lower bits clear, whatever the 32-bit value was.
\<close>
theorem tos_of_dscp_bits:
  shows "unat (tos_of_dscp d) div 4 = unat d mod 64 \<and> unat (tos_of_dscp d) mod 4 = 0"
  by (simp add: unat_tos)

section \<open>Connecting\<close>

lemma set_conn_info_sel [simp]:
  "bev_sptr (set_conn_info c info) = bev_sptr c" "isConnected (set_conn_info c info) = isConnected c"
  "conn_info (set_conn_info c info) = info" "isClosing (set_conn_info c info) = isClosing c"
  by (simp_all add: set_conn_info_def)

lemma word_of_port [simp]: "word_of_int (int (unat (p :: 16 word))) = p"
  by simp

text \<open>How the three kinds of connection reach \<open>_connect\<close>.\<close>

lemma client_connect_IP_V4:
  assumes "ci_type info = IP_V4" and "sys_socket S AF_INET w = (fd, w1)" and "0 \<le> fd"
  shows "client_connect S c info w =
    andThen (sockaddr_in S (ci_IP info) (ci_port info)) (\<lambda>a. connect_fd S (set_conn_info c info) a fd w1)"
  using assms by (simp add: client_connect_def get_conn_type_def get_ip_def stoi_get_port)

lemma client_connect_IP_V6:
  assumes "ci_type info = IP_V6" and "sys_socket S AF_INET6 w = (fd, w1)" and "0 \<le> fd"
  shows "client_connect S c info w =
    andThen (sockaddr_in6 S (ci_IP info) (ci_port info)) (\<lambda>a. connect_fd S (set_conn_info c info) a fd w1)"
  using assms by (simp add: client_connect_def get_conn_type_def get_ip_def stoi_get_port)

lemma client_connect_UNIX:
  assumes "ci_type info = UNIX_SOCKET" and "sys_socket S AF_UNIX w = (fd, w1)" and "0 \<le> fd"
  shows "client_connect S c info w =
    andThen (sockaddr_un (ci_path info)) (\<lambda>a. connect_fd S (set_conn_info c info) a fd w1)"
  using assms by (simp add: client_connect_def get_conn_type_def get_path_def)

lemma client_connect_no_socket:
  assumes "ci_type info = UN_KNOWN \<and> w1 = w \<or>
      ci_type info \<noteq> UN_KNOWN \<and> fd < 0 \<and>
      sys_socket S (case ci_type info of IP_V4 \<Rightarrow> AF_INET | IP_V6 \<Rightarrow> AF_INET6 | _ \<Rightarrow> AF_UNIX) w = (fd, w1)"
  shows "client_connect S c info w = Inr (False, set_conn_info c info, w1)"
  using assms by (cases "ci_type info") (auto simp: client_connect_def get_conn_type_def)

text \<open>Every attempt either has no socket or comes down to \<open>_connect\<close> with some address.\<close>

lemma client_connect_reaches:
  assumes S: "libevent_ok S V" "inet_pton_ok S"
    and path: "ci_type info = UNIX_SOCKET \<longrightarrow> length (ci_path info) \<le> 108"
  obtains (no_socket) w1 where "client_connect S c info w = Inr (False, set_conn_info c info, w1)" "keeps V w w1"
  | (socket) addr fd w1 where "client_connect S c info w = connect_fd S (set_conn_info c info) addr fd w1"
      "keeps V w w1" "0 \<le> fd"
proof (cases "ci_type info = UN_KNOWN")
  case True
  then have "client_connect S c info w = Inr (False, set_conn_info c info, w)"
    by (intro client_connect_no_socket) simp
  then show thesis using no_socket by simp
next
  case False
  define fam :: int where
    "fam = (case ci_type info of IP_V4 \<Rightarrow> AF_INET | IP_V6 \<Rightarrow> AF_INET6 | _ \<Rightarrow> AF_UNIX)"
  obtain fd w1 where so: "sys_socket S fam w = (fd, w1)" by (rule prod.exhaust)
  have k: "keeps V w w1" using keeps_others(8) [OF S(1), of w fam] so by simp
  show thesis
  proof (cases "fd < 0")
    case True
    then show thesis
      using no_socket client_connect_no_socket [of info w1 w fd S c] False so k by (simp add: fam_def)
  next
    case fd: False
    obtain a4 a6 where a: "sockaddr_in S (ci_IP info) (ci_port info) = Inr a4"
      "sockaddr_in6 S (ci_IP info) (ci_port info) = Inr a6"
      using sockaddr_in_total [OF S(2)] sockaddr_in6_total [OF S(2)] by metis
    have "\<exists>addr. client_connect S c info w = connect_fd S (set_conn_info c info) addr fd w1"
    proof (cases "ci_type info")
      case IP_V4
      then show ?thesis using client_connect_IP_V4 [of info S w fd w1 c] so fd a by (auto simp: fam_def)
    next
      case IP_V6
      then show ?thesis using client_connect_IP_V6 [of info S w fd w1 c] so fd a by (auto simp: fam_def)
    next
      case UNIX_SOCKET
      then show ?thesis
        using client_connect_UNIX [of info S w fd w1 c] so fd sockaddr_un_total [OF path [rule_format]] by (auto simp: fam_def)
    next
      case UN_KNOWN
      with False show ?thesis by simp
    qed
    then show thesis using socket k fd by (metis linorder_not_less)
  qed
qed

text \<open>The buffers of the bufferevents that existed before are unchanged, and they still exist.\<close>

definition undisturbed :: "'w view \<Rightarrow> 'w \<Rightarrow> 'w \<Rightarrow> bool" where
  "undisturbed V w w' \<longleftrightarrow>
     (\<forall>h \<in> live V w. h \<in> live V w' \<and> inq V w' h = inq V w h \<and> sent V w' h = sent V w h)"

lemma undisturbed_refl [simp]: "undisturbed V w w"
  by (simp add: undisturbed_def)

lemma undisturbed_trans: "undisturbed V w w' \<Longrightarrow> undisturbed V w' w'' \<Longrightarrow> undisturbed V w w''"
  by (simp add: undisturbed_def)

lemma undisturbed_keeps: "keeps V w w' \<Longrightarrow> undisturbed V w w'"
  by (simp add: undisturbed_def keeps_def)

lemma undisturbed_only_handle:
  "only_handle V b w w' \<Longrightarrow> live V w \<subseteq> live V w' \<Longrightarrow> undisturbed V w w'"
  by (auto simp: undisturbed_def only_handle_def)

definition connect_outcome :: "'w view \<Rightarrow> 'a tcp_client_scheme \<Rightarrow> 'w \<Rightarrow> bool \<Rightarrow> 'a tcp_client_scheme \<Rightarrow> 'w \<Rightarrow> bool" where
  "connect_outcome V c w ok c' w' \<longleftrightarrow>
     undisturbed V w w' \<and>
     (if ok then (\<exists>b. c' = c\<lparr>bev_sptr := Bev b\<rparr> \<and> b \<notin> live V w \<and> live V w' = insert b (live V w) \<and>
                    inq V w' b = [] \<and> sent V w' b = [])
      else (c' = c \<or> c' = c\<lparr>bev_sptr := OwnsNull\<rparr>) \<and> live V w' = live V w)"

lemma connect_outcome_sel:
  assumes "connect_outcome V c w ok c' w'"
  shows "conn_info c' = conn_info c" and "isConnected c' = isConnected c" and "isClosing c' = isClosing c"
    and "ok \<Longrightarrow> \<exists>b. bev_sptr c' = Bev b \<and> b \<notin> live V w \<and> live V w' = insert b (live V w) \<and>
                 inq V w' b = [] \<and> sent V w' b = []"
    and "\<not> ok \<Longrightarrow> bev_sptr c' \<in> {bev_sptr c, OwnsNull} \<and> live V w' = live V w"
    and "undisturbed V w w'"
  using assms by (auto simp: connect_outcome_def split: if_splits)

lemma connect_fd_outcome:
  assumes "libevent_ok S V" and "bev_sptr c = NoBev"
  obtains ok c' w' where "connect_fd S c addr fd w = Inr (ok, c', w')" "connect_outcome V c w ok c' w'"
  using assms
proof (cases rule: connect_fd_cases [of S V c addr fd w])
  case (failed w')
  have "undisturbed V w w'"
    using failed(2,3) undisturbed_keeps undisturbed_only_handle by (metis order_refl)
  with that [OF failed(1)] failed(2) show thesis by (simp add: connect_outcome_def)
next
  case (no_bev w')
  with that [OF no_bev(1)] undisturbed_keeps [OF no_bev(2)] show thesis by (simp add: connect_outcome_def keeps_def)
next
  case (connected b w')
  have "undisturbed V w w'"
    by (rule undisturbed_only_handle [OF connected(2)]) (use connected(3) in auto)
  moreover have "b \<notin> live V w" using connected(2) by (simp add: only_handle_def)
  ultimately have "connect_outcome V c w True (c\<lparr>bev_sptr := Bev b\<rparr>) w'"
    unfolding connect_outcome_def if_True using connected(3-5) by blast
  with that [OF connected(1)] show thesis .
qed

lemma client_connect_total:
  assumes S: "libevent_ok S V" "inet_pton_ok S" and c: "bev_sptr c = NoBev"
    and path: "ci_type info = UNIX_SOCKET \<longrightarrow> length (ci_path info) \<le> 108"
  obtains ok c' w' where "client_connect S c info w = Inr (ok, c', w')"
    "connect_outcome V (set_conn_info c info) w ok c' w'"
  using S path
proof (cases rule: client_connect_reaches [where c = c and w = w])
  case (no_socket w1)
  then show thesis using that [OF no_socket(1)] undisturbed_keeps [OF no_socket(2)]
    by (simp add: connect_outcome_def keeps_def)
next
  case (socket addr fd w1)
  obtain ok c' w' where o: "connect_fd S (set_conn_info c info) addr fd w1 = Inr (ok, c', w')"
    "connect_outcome V (set_conn_info c info) w1 ok c' w'"
  proof (rule connect_fd_outcome [OF S(1)])
    show "bev_sptr (set_conn_info c info) = NoBev" using c by simp
  qed
  have "connect_outcome V (set_conn_info c info) w ok c' w'"
    using o(2) undisturbed_trans [OF undisturbed_keeps [OF socket(2)], of w'] socket(2)
    unfolding connect_outcome_def keeps_def by (cases ok) auto
  with o(1) socket(1) that show thesis by simp
qed

text \<open>
  C25: a connection attempt of a client without a bufferevent always returns, for every type, every
  result of the system calls and every path of at most 108 bytes. It reports success exactly when
  it left the client a new bufferevent with empty buffers, and then it is the only one added;
  otherwise none is added or left. The connection data is stored, the connected flag is
  unchanged, and no other bufferevent is disturbed.
\<close>

theorem client_connect_outcome:
  assumes "libevent_ok S V" and "inet_pton_ok S" and "bev_sptr c = NoBev"
    and "length (ci_path info) \<le> 108"
  shows "\<exists>ok c' w'. client_connect S c info w = Inr (ok, c', w') \<and>
    conn_info c' = info \<and> isConnected c' = isConnected c \<and> undisturbed V w w' \<and>
    (if ok then (\<exists>b. bev_sptr c' = Bev b \<and> b \<notin> live V w \<and> live V w' = insert b (live V w) \<and>
                   inq V w' b = [] \<and> sent V w' b = [])
     else bev_get (bev_sptr c') = None \<and> live V w' = live V w)"
proof -
  obtain ok c' w' where o: "client_connect S c info w = Inr (ok, c', w')"
    "connect_outcome V (set_conn_info c info) w ok c' w'"
    using client_connect_total [OF assms(1-3)] assms(4) by metis
  note sel = connect_outcome_sel [OF o(2)]
  show ?thesis
    using o(1) sel(1,2,6) sel(4,5) assms(3)
    by (intro exI [of _ ok] exI [of _ c'] exI [of _ w']) (cases ok; auto)
qed

definition example_info :: CONN_INFO where
  "example_info =
     (new_CONN_INFO 0 0)\<lparr>ci_type := IP_V4, ci_IP := ''127.0.0.1'', ci_port := 6379\<rparr>"

definition new_tcp_client :: "CONN_INFO \<Rightarrow> tcp_client" where
  "new_tcp_client junk =
     \<lparr> bev_sptr = NoBev, isClosing = False, isConnected = False, cl_dscp = 0, conn_info = junk \<rparr>"

lemma sim_inet_pton: "inet_pton_ok sim_sys"
  by (auto simp: inet_pton_ok_def sim_sys_def)

lemma client_connect_outcome_witness:
  "\<exists>ok c' w'. client_connect sim_sys (new_tcp_client (new_CONN_INFO 0 0)) example_info (sim_state [] []) = Inr (ok, c', w') \<and>
    conn_info c' = example_info \<and>
    isConnected c' = isConnected (new_tcp_client (new_CONN_INFO 0 0)) \<and> undisturbed sim_view (sim_state [] []) w' \<and>
    (if ok then (\<exists>b. bev_sptr c' = Bev b \<and> b \<notin> live sim_view (sim_state [] []) \<and>
                   live sim_view w' = insert b (live sim_view (sim_state [] [])) \<and>
                   inq sim_view w' b = [] \<and> sent sim_view w' b = [])
     else bev_get (bev_sptr c') = None \<and> live sim_view w' = live sim_view (sim_state [] []))"
  by (rule client_connect_outcome [OF sim_ok sim_inet_pton])
    (simp_all add: new_tcp_client_def example_info_def new_CONN_INFO_def)

text \<open>
  The port given is the port on the wire: printed by \<open>get_port\<close>, read back by \<open>stoi\<close>, cut to
  16 bits and put into network order, it arrives in an IPv4 address of 16 bytes and in an IPv6
  address of 28 bytes unchanged, for each of the 65536 ports.
\<close>

theorem connect_address_port:
  assumes "inet_pton_ok S"
    and "ci_type info4 = IP_V4" and "sys_socket S AF_INET w = (fd4, w4)" and "0 \<le> fd4"
    and "ci_type info6 = IP_V6" and "sys_socket S AF_INET6 w = (fd6, w6)" and "0 \<le> fd6"
  shows "\<exists>a4 a6. client_connect S c info4 w = connect_fd S (set_conn_info c info4) a4 fd4 w4 \<and>
    length a4 = 16 \<and> family_of a4 = AF_INET \<and> port_of a4 = unat (ci_port info4) \<and>
    client_connect S c info6 w = connect_fd S (set_conn_info c info6) a6 fd6 w6 \<and>
    length a6 = 28 \<and> family_of a6 = AF_INET6 \<and> port_of a6 = unat (ci_port info6)"
proof -
  obtain r4 where r4: "sockaddr_in S (ci_IP info4) (ci_port info4) =
      Inr (family_bytes AF_INET @ htons_bytes (ci_port info4) @ r4)" "length r4 = 12"
    using sockaddr_in_total [OF assms(1)] by blast
  obtain r6 where r6: "sockaddr_in6 S (ci_IP info6) (ci_port info6) =
      Inr (family_bytes AF_INET6 @ htons_bytes (ci_port info6) @ r6)" "length r6 = 24"
    using sockaddr_in6_total [OF assms(1)] by blast
  show ?thesis
    using client_connect_IP_V4 [OF assms(2-4), of c] client_connect_IP_V6 [OF assms(5-7), of c] r4 r6
    by (intro exI [of _ "family_bytes AF_INET @ htons_bytes (ci_port info4) @ r4"]
        exI [of _ "family_bytes AF_INET6 @ htons_bytes (ci_port info6) @ r6"]) simp
qed

lemma connect_address_port_witness:
  "\<exists>a4 a6. client_connect sim_sys (new_tcp_client (new_CONN_INFO 0 0)) example_info (sim_state [] []) =
      connect_fd sim_sys (set_conn_info (new_tcp_client (new_CONN_INFO 0 0)) example_info) a4 7 (sim_state [] []) \<and>
    length a4 = 16 \<and> family_of a4 = AF_INET \<and> port_of a4 = unat (ci_port example_info) \<and>
    client_connect sim_sys (new_tcp_client (new_CONN_INFO 0 0)) (example_info\<lparr>ci_type := IP_V6\<rparr>) (sim_state [] []) =
      connect_fd sim_sys (set_conn_info (new_tcp_client (new_CONN_INFO 0 0)) (example_info\<lparr>ci_type := IP_V6\<rparr>)) a6 7 (sim_state [] []) \<and>
    length a6 = 28 \<and> family_of a6 = AF_INET6 \<and> port_of a6 = unat (ci_port (example_info\<lparr>ci_type := IP_V6\<rparr>))"
  by (rule connect_address_port [OF sim_inet_pton, where ?fd4.0 = 7 and ?fd6.0 = 7]) (simp_all add: example_info_def sim_sys_def)

text \<open>
  C40: a Unix socket path of more than 108 bytes is copied past the end of \<open>sun_path\<close> on the
  stack, for every client and whatever the system does, as soon as a socket was created.
\<close>

theorem connect_long_path_smashes_stack:
  assumes "ci_type info = UNIX_SOCKET" and "108 < length (ci_path info)"
    and "sys_socket S AF_UNIX w = (fd, w1)" and "0 \<le> fd"
  shows "client_connect S c info w = Inl StackSmash"
  using client_connect_UNIX [OF assms(1,3,4), of c] sockaddr_un_smash [OF assms(2)] by simp

lemma connect_long_path_smashes_stack_witness:
  "client_connect sim_sys (new_tcp_client (new_CONN_INFO 0 0))
    ((new_CONN_INFO 0 0)\<lparr>ci_type := UNIX_SOCKET, ci_path := replicate 109 (CHR ''x'')\<rparr>) (sim_state [] []) = Inl StackSmash"
  by (rule connect_long_path_smashes_stack [where fd = 7]) (simp_all add: sim_sys_def)

section \<open>Losing a connection\<close>

lemma handleEvent_lost:
  assumes "bev_sptr c = Bev b" and "and events (or 0x10 (or 0x20 0x40)) \<noteq> 0"
  shows "client_handleEvent S c events w =
    Inr (c\<lparr>isConnected := False, bev_sptr := NoBev\<rparr>,
      bufferevent_free S b (closesocket S (-1) (snd (bufferevent_disable S b (EV_READ + EV_WRITE) w))))"
  using assms by (simp add: client_handleEvent_def get_socket_cases Let_def)

text \<open>
  An EOF, error or timeout event on a client with a bufferevent always returns: the client is
  no longer connected, its bufferevent is gone, every other bufferevent is undisturbed, and sends
  are refused from then on. The socket passed to \<open>evutil_closesocket\<close> is -1 in every case.
\<close>
theorem lost_connection:
  assumes "libevent_ok S V" and "bev_sptr c = Bev b"
    and "and events (or 0x10 (or 0x20 0x40)) \<noteq> 0"
  shows "\<exists>c' w' w1. client_handleEvent S c events w = Inr (c', w') \<and>
    w' = bufferevent_free S b (closesocket S (-1) w1) \<and>
    \<not> isConnected c' \<and> bev_sptr c' = NoBev \<and> live V w' = live V w - {b} \<and>
    (\<forall>h. h = b \<or> inq V w' h = inq V w h \<and> sent V w' h = sent V w h) \<and>
    socket_send S c' mem off sz w' = Inr (False, w')"
proof -
  let ?w1 = "snd (bufferevent_disable S b (EV_READ + EV_WRITE) w)"
  have "keeps V w (closesocket S (-1) ?w1)"
    using keeps_trans [OF keeps_others(3) [OF assms(1)] keeps_others(6) [OF assms(1)]] .
  then show ?thesis
    using handleEvent_lost [OF assms(2,3), of S w] bufferevent_free_ok [OF assms(1), where b = b]
    by (intro exI [of _ "c\<lparr>isConnected := False, bev_sptr := NoBev\<rparr>"]
        exI [of _ "bufferevent_free S b (closesocket S (-1) ?w1)"] exI [of _ ?w1])
      (auto simp: keeps_def socket_send_refused)
qed

lemma lost_connection_witness:
  "\<exists>c' w' w1. client_handleEvent sim_sys ((new_tcp_client example_info)\<lparr>bev_sptr := Bev 0, isConnected := True\<rparr>) 0x11 (sim_state [] []) = Inr (c', w') \<and>
    w' = bufferevent_free sim_sys 0 (closesocket sim_sys (-1) w1) \<and>
    \<not> isConnected c' \<and> bev_sptr c' = NoBev \<and> live sim_view w' = live sim_view (sim_state [] []) - {0} \<and>
    (\<forall>h. h = 0 \<or> inq sim_view w' h = inq sim_view (sim_state [] []) h \<and> sent sim_view w' h = sent sim_view (sim_state [] []) h) \<and>
    socket_send sim_sys c' ''PING'' 0 4 w' = Inr (False, w')"
  by (rule lost_connection [OF sim_ok]) simp_all

text \<open>
  When no bufferevent can be created, the attempt reports failure but leaves a shared pointer
  that owns a null pointer. Every later attempt with a valid socket, whether it can create a
  bufferevent or not, hands that null pointer to \<open>bufferevent_free\<close>, which dereferences it.
\<close>

theorem connect_after_failed_bufferevent:
  assumes "libevent_ok S V" and "0 \<le> fd" and "0 \<le> fd'" and "bev_sptr c = NoBev"
    and "\<And>w. fst (bufferevent_socket_new S fd w) = None"
  shows "\<exists>c' w'. connect_fd S c addr fd w = Inr (False, c', w') \<and> connect_fd S c' addr' fd' w'' = Inl NullDeref"
proof -
  obtain ok w2 where "set_source_addr S c (get_source_ip (conn_info c)) fd (make_socket_nonblocking S fd w) = Inr (ok, w2)"
    using set_source_addr_total [OF assms(1,2)] by metis
  moreover obtain w3 where "bufferevent_socket_new S fd w2 = (None, w3)" by (metis assms(5) prod.collapse)
  ultimately have first: "connect_fd S c addr fd w = Inr (False, c\<lparr>bev_sptr := OwnsNull\<rparr>, w3)"
    using assms(2,4) by (simp add: connect_fd_def)
  let ?c = "c\<lparr>bev_sptr := OwnsNull\<rparr>"
  obtain ok' w5 where "set_source_addr S ?c (get_source_ip (conn_info ?c)) fd' (make_socket_nonblocking S fd' w'') = Inr (ok', w5)"
    using set_source_addr_total [OF assms(1,3)] by metis
  then have "connect_fd S ?c addr' fd' w'' = Inl NullDeref"
    using assms(3) by (simp add: connect_fd_def split: prod.splits)
  with first show ?thesis by blast
qed

lemma connect_after_failed_bufferevent_witness:
  "\<exists>c' w'. connect_fd sim_no_memory (new_tcp_client example_info) [] 7 (sim_state [] []) = Inr (False, c', w') \<and>
    connect_fd sim_no_memory c' [] 8 (sim_state [] []) = Inl NullDeref"
  by (rule connect_after_failed_bufferevent [OF sim_no_memory_ok])
    (simp_all add: new_tcp_client_def sim_no_memory_def)

end
