(* ===== verification/Read_Handler.thy ===== *)
theory Read_Handler
  imports Resp_Values Tcp_Session Tcp_Client_Props
begin

text \<open>
  The three read callbacks of the program, \<open>TcpSession::onRead\<close>, \<open>TcpClient::onRead\<close> and
  \<open>redis_tcp_client::onRead\<close>, have the same shape: ask for the length of the input, get a view of
  all of it, run the parser over it with a callback, drain what the parser consumed. The shape is
  \<open>read_handler\<close>; what it needs from its buffer is the locale \<open>read_source\<close>, and what it does
  with complete, cut and arbitrary input is proved there once.
\<close>

section \<open>The common shape\<close>

definition read_handler ::
    "('s \<Rightarrow> nat) \<Rightarrow> (nat \<Rightarrow> 's \<Rightarrow> bytes option \<times> 's) \<Rightarrow> (nat \<Rightarrow> 's \<Rightarrow> bool \<times> 's) \<Rightarrow>
     (bytes \<Rightarrow> 's on_resp) \<Rightarrow> 's \<Rightarrow> 's run" where
  "read_handler buf_length buf_view buf_drain cb s =
     (let len = buf_length s
      in if len = 0 then Inr s
         else (case buf_view len s of
             (None, s1) \<Rightarrow> Inr s1
           | (Some mem, s1) \<Rightarrow>
               andThen (process_resp mem len (Some (cb mem)) 0 s1)
                 (\<lambda>((consumed, _), s2).
                   if consumed > 0 then Inr (snd (buf_drain (to_uint32 consumed) s2)) else Inr s2)))"

text \<open>Handing over a list of messages, one after the other.\<close>

fun deliver_all :: "('m \<Rightarrow> 's \<Rightarrow> 's run) \<Rightarrow> 'm list \<Rightarrow> 's \<Rightarrow> 's run" where
  "deliver_all d [] s = Inr s"
| "deliver_all d (m # ms) s = andThen (d m s) (deliver_all d ms)"

lemma deliver_all_append: "deliver_all d (xs @ ys) s = andThen (deliver_all d xs s) (deliver_all d ys)"
  by (induction xs arbitrary: s) (auto simp: andThen_assoc intro!: andThen_cong)

lemma deliver_all_invariant:
  assumes "\<And>m s s'. P s \<Longrightarrow> d m s = Inr s' \<Longrightarrow> P s'"
  shows "P s \<Longrightarrow> deliver_all d ms s = Inr s' \<Longrightarrow> P s'"
proof (induction ms arbitrary: s)
  case (Cons m ms)
  from Cons.prems(2) obtain s1 where "d m s = Inr s1" "deliver_all d ms s1 = Inr s'" by auto
  with Cons.IH assms Cons.prems(1) show ?case by blast
qed simp

text \<open>A callback that does \<open>d\<close> to the message it is pointed to.\<close>

definition hands_over :: "(bytes \<Rightarrow> 's on_resp) \<Rightarrow> (bytes \<Rightarrow> 's \<Rightarrow> 's run) \<Rightarrow> bool" where
  "hands_over cb d \<longleftrightarrow>
     (\<forall>mem off n m s. mem_slice mem off n = Inr m \<longrightarrow> cb mem off n s = d m s)"

lemma run_frames_deliver:
  assumes "hands_over cb d"
  shows "run_frames (Some (cb (pre @ concat fs @ post))) (length pre) fs s = deliver_all d fs s"
proof (induction fs arbitrary: pre s)
  case (Cons f fs)
  have "mem_slice (pre @ concat (f # fs) @ post) (length pre) (length f) = Inr f"
    using mem_slice_middle [of pre f "concat fs @ post"] by simp
  then have "cb (pre @ concat (f # fs) @ post) (length pre) (length f) s = d f s"
    using assms unfolding hands_over_def by blast
  moreover have "run_frames (Some (cb (pre @ concat (f # fs) @ post))) (length pre + length f) fs s' =
      deliver_all d fs s'" for s'
    using Cons.IH [of "pre @ f" s'] by simp
  then have "run_frames (Some (cb (pre @ concat (f # fs) @ post))) (length pre + length f) fs = deliver_all d fs"
    by (rule ext)
  ultimately show ?case by (simp add: run_cb_def)
qed simp

lemma run_frames_deliver_0:
  "hands_over cb d \<Longrightarrow> run_frames (Some (cb (concat fs @ post))) 0 fs s = deliver_all d fs s"
  using run_frames_deliver [of cb d "[]"] by simp

lemma read_handler_run:
  assumes "buf_length s = n" and "0 < n" and "buf_view n s = (Some mem, s1)" and "k < 2 ^ 32"
    and "process_resp mem n (Some (cb mem)) 0 s1 = andThen R (\<lambda>s'. Inr ((k, st), s'))"
  shows "read_handler buf_length buf_view buf_drain cb s =
    andThen R (\<lambda>s2. Inr (if 0 < k then snd (buf_drain k s2) else s2))"
proof -
  have "read_handler buf_length buf_view buf_drain cb s =
      andThen (andThen R (\<lambda>s'. Inr ((k, st), s')))
        (\<lambda>((consumed, _), s2). if consumed > 0 then Inr (snd (buf_drain (to_uint32 consumed) s2)) else Inr s2)"
    unfolding assms(5) [symmetric] read_handler_def Let_def using assms(1-3) by simp
  also have "\<dots> = andThen R (\<lambda>s2. Inr (if 0 < k then snd (buf_drain k s2) else s2))"
    using assms(4) by (auto simp: andThen_assoc to_uint32_def intro!: andThen_cong)
  finally show ?thesis .
qed

text \<open>
  What the parser takes from a buffer of complete tokens \<open>ts\<close> and perhaps the beginning \<open>p\<close> of
  another one: all frames, if nothing is cut; else the tokens before the first array.
\<close>

definition taken_msgs :: "token list \<Rightarrow> bytes \<Rightarrow> bytes list" where
  "taken_msgs ts p = (if p = [] then frames ts else map token_bytes (closed_prefix ts))"

lemma frames_empty: "frames ts = [] \<longleftrightarrow> ts = []"
  by (cases ts) auto

lemma taken_whole [simp]: "taken_msgs ts [] = frames ts"
  by (simp add: taken_msgs_def)

lemma taken_msgs_closed: "list_all (\<lambda>t. \<not> opens t) ts \<Longrightarrow> taken_msgs ts p = map token_bytes ts"
  by (auto simp: taken_msgs_def frames_closed closed_prefix_def list_all_iff takeWhile_eq_all_conv [THEN iffD2])

lemma taken_msgs_prefix: "\<exists>rest. tokens_bytes ts @ p = concat (taken_msgs ts p) @ rest"
proof -
  have "tokens_bytes ts = tokens_bytes (closed_prefix ts) @ tokens_bytes (dropWhile (\<lambda>t. \<not> opens t) ts)"
    unfolding closed_prefix_def by (metis concat_append map_append takeWhile_dropWhile_id)
  then show ?thesis by (simp add: taken_msgs_def concat_frames)
qed

lemma length_taken: "m \<in> set (taken_msgs ts p) \<Longrightarrow> length m \<le> length (tokens_bytes ts @ p)"
proof -
  have "m \<in> set fs \<Longrightarrow> length m \<le> length (concat fs)" for fs :: "bytes list"
    by (induction fs) auto
  moreover have "length (concat (taken_msgs ts p)) \<le> length (tokens_bytes ts @ p)"
    using taken_msgs_prefix [of ts p] by (metis le_add1 length_append)
  ultimately show "m \<in> set (taken_msgs ts p) \<Longrightarrow> length m \<le> length (tokens_bytes ts @ p)" by (meson le_trans)
qed

text \<open>What the callback keeps, the parser keeps.\<close>

lemma resp_loop_keeps:
  assumes "\<And>off n s s'. P s \<Longrightarrow> f off n s = Inr s' \<Longrightarrow> P s'"
  shows "P s \<Longrightarrow> resp_loop fuel mem len (Some f) index processed s = Inr (r, s') \<Longrightarrow> P s'"
proof (induction fuel arbitrary: processed s)
  case 0
  then show ?case by (simp add: resp_loop.simps)
next
  case (Suc fuel)
  show ?case
  proof (cases "processed < len")
    case False
    with Suc.prems show ?thesis by (simp add: resp_loop_done)
  next
    case True
    from Suc.prems(2) True show ?thesis
    proof (cases rule: resp_loop_SucE)
      case (more c n s1)
      then have "P s1" using assms Suc.prems(1) by (auto simp: run_cb_def)
      with Suc.IH more show ?thesis by blast
    qed (use Suc.prems(1) in simp_all)
  qed
qed

lemma process_resp_keeps:
  assumes "\<And>off n s s'. P s \<Longrightarrow> f off n s = Inr s' \<Longrightarrow> P s'" and "P s"
    and "process_resp mem len (Some f) index s = Inr (r, s')"
  shows "P s'"
  using resp_loop_keeps [of P f s, OF assms(1,2)] assms(3) by (auto simp: process_resp_def resp_from_def)

section \<open>The interface of the input buffer\<close>

locale read_source =
  fixes good :: "'s \<Rightarrow> bool"
    and pending :: "'s \<Rightarrow> bytes"
    and buf_length :: "'s \<Rightarrow> nat"
    and buf_view :: "nat \<Rightarrow> 's \<Rightarrow> bytes option \<times> 's"
    and buf_drain :: "nat \<Rightarrow> 's \<Rightarrow> bool \<times> 's"
  assumes length_law: "good s \<Longrightarrow> buf_length s = to_uint32 (length (pending s))"
    and view_law: "good s \<Longrightarrow> buf_view n s = (r, s') \<Longrightarrow>
      good s' \<and> pending s' = pending s \<and>
      (case r of None \<Rightarrow> True
       | Some mem \<Rightarrow> n \<le> length (pending s) \<and> (\<exists>rest. mem = take n (pending s) @ rest))"
    and drain_law: "good s \<Longrightarrow> buf_drain n s = (ok, s') \<Longrightarrow>
      good s' \<and> pending s' = (if ok then drop n (pending s) else pending s)"
begin

abbreviation handler :: "(bytes \<Rightarrow> 's on_resp) \<Rightarrow> 's \<Rightarrow> 's run" where
  "handler \<equiv> read_handler buf_length buf_view buf_drain"

definition safe_cb :: "(bytes \<Rightarrow> 's \<Rightarrow> 's run) \<Rightarrow> bool" where
  "safe_cb d \<longleftrightarrow> (\<forall>m s s'. good s \<longrightarrow> d m s = Inr s' \<longrightarrow> good s' \<and> pending s' = pending s)"

lemma deliver_all_safe:
  assumes "safe_cb d" and "good s" and "deliver_all d ms s = Inr s'"
  shows "good s' \<and> pending s' = pending s"
proof (rule deliver_all_invariant [where P = "\<lambda>s'. good s' \<and> pending s' = pending s"])
  show "good s \<and> pending s = pending s" using assms(2) by simp
  show "deliver_all d ms s = Inr s'" by (rule assms(3))
qed (use assms(1) in \<open>auto simp: safe_cb_def\<close>)

lemma small_length:
  assumes "good s" and "length (pending s) < 2 ^ 32"
  shows "buf_length s = length (pending s)"
  using length_law [OF assms(1)] assms(2) by (simp add: to_uint32_def)

text \<open>The whole input is complete messages: all of it is delivered, then drained.\<close>

lemma handler_complete:
  assumes s: "good s" "pending s = tokens_bytes ts" "list_all plain ts" "ts \<noteq> []"
      "length (pending s) < 2 ^ 32"
    and view: "buf_view (length (pending s)) s = (Some mem, s1)"
    and cb: "hands_over cb d"
  shows "handler cb s =
    andThen (deliver_all d (frames ts) s1) (\<lambda>s2. Inr (snd (buf_drain (length (pending s)) s2)))"
proof -
  let ?n = "length (tokens_bytes ts)"
  have pos: "0 < ?n" using s(4) token_bytes_head(2) by (cases ts) auto
  have n: "?n < 2 ^ 32" using s(2,5) by simp
  obtain rest where mem: "mem = tokens_bytes ts @ rest"
    using view_law [OF s(1) view] s(2) by auto
  have "process_resp mem ?n (Some (cb mem)) 0 s1 =
      andThen (deliver_all d (frames ts) s1) (\<lambda>s'. Inr ((?n, Completed), s'))"
    unfolding mem using process_resp_tokens [OF s(3), of rest "Some (cb (tokens_bytes ts @ rest))"] n
      run_frames_deliver_0 [OF cb, of "frames ts" rest s1]
    by (simp add: concat_frames)
  then show ?thesis
    using read_handler_run [of buf_length s ?n buf_view mem s1 ?n cb "deliver_all d (frames ts) s1" Completed buf_drain]
      view pos n small_length [OF s(1,5)] s(2) by simp
qed

text \<open>
  The input may end inside a message, provided the bytes behind the view are no LF: what \<open>taken_msgs\<close>
  says is delivered and drained, and the rest stays.
\<close>

lemma handler_taken:
  assumes s: "good s" "pending s = tokens_bytes ts @ p" "list_all plain ts" "pending s \<noteq> []" "length (pending s) < 2 ^ 32"
    and p: "p \<noteq> [] \<Longrightarrow> unfinished p \<and> (\<exists>x y rest. drop (length (pending s)) mem = x # y # rest \<and> x \<noteq> LF \<and> y \<noteq> LF)"
    and view: "buf_view (length (pending s)) s = (Some mem, s1)"
    and cb: "hands_over cb d"
  shows "handler cb s = andThen (deliver_all d (taken_msgs ts p) s1)
    (\<lambda>s2. Inr (if taken_msgs ts p = [] then s2 else snd (buf_drain (length (concat (taken_msgs ts p))) s2)))"
proof (cases "p = []")
  case True
  with s have ts: "ts \<noteq> []" and s': "pending s = tokens_bytes ts" by auto
  from handler_complete [OF s(1) s' s(3) ts s(5) view cb] frames_empty [of ts] ts True s'
  show ?thesis by (simp add: taken_msgs_def concat_frames)
next
  case False
  let ?n = "length (tokens_bytes ts @ p)" and ?done = "closed_prefix ts"
  obtain x y post where unf: "unfinished p" and tail: "drop (length (pending s)) mem = x # y # post" "x \<noteq> LF" "y \<noteq> LF"
    using p [OF False] by blast
  have "\<exists>rest. mem = pending s @ rest" using view_law [OF s(1) view] by auto
  then have mem: "mem = tokens_bytes ts @ p @ x # y # post" using tail(1) s(2) by auto
  have n: "?n < 2 ^ 32" using s(2,5) by simp
  have split: "tokens_bytes ts = tokens_bytes ?done @ tokens_bytes (dropWhile (\<lambda>t. \<not> opens t) ts)"
    unfolding closed_prefix_def by (metis concat_append map_append takeWhile_dropWhile_id)
  have k: "length (tokens_bytes ?done) < 2 ^ 32" using n split by simp
  have "run_frames (Some (cb (tokens_bytes ?done @ tokens_bytes (dropWhile (\<lambda>t. \<not> opens t) ts) @ p @ x # y # post))) 0
      (map token_bytes ?done) s1 = deliver_all d (map token_bytes ?done) s1"
    by (rule run_frames_deliver_0 [OF cb])
  then have "run_frames (Some (cb mem)) 0 (map token_bytes ?done) s1 = deliver_all d (map token_bytes ?done) s1"
    unfolding mem split by simp
  then have pr: "process_resp mem ?n (Some (cb mem)) 0 s1 = andThen (deliver_all d (map token_bytes ?done) s1)
      (\<lambda>s'. Inr ((length (tokens_bytes ?done), if ?done = ts then Incompleted else Error), s'))"
    using process_resp_cut_aux [OF s(3) unf tail(2,3) refl, of post "Some (cb mem)" s1] n unfolding mem by simp
  have e: "0 < length (tokens_bytes ?done) \<longleftrightarrow> ?done \<noteq> []" by (cases ?done) (simp_all add: token_bytes_head)
  have len: "buf_length s = ?n" "0 < ?n" "buf_view ?n s = (Some mem, s1)"
    using small_length [OF s(1,5)] s(2,4) view by simp_all
  have "handler cb s = andThen (deliver_all d (map token_bytes ?done) s1)
      (\<lambda>s2. Inr (if 0 < length (tokens_bytes ?done) then snd (buf_drain (length (tokens_bytes ?done)) s2) else s2))"
    by (rule read_handler_run [where st = "if ?done = ts then Incompleted else Error"]) (fact len k pr)+
  moreover have "taken_msgs ts p = map token_bytes ?done" using False by (simp add: taken_msgs_def)
  ultimately show ?thesis using e by (auto intro!: andThen_cong)
qed

text \<open>Whatever the input is: the handler only removes bytes from its front.\<close>

lemma handler_suffix:
  assumes "good s" and cb: "\<And>mem off n s s'. good s \<Longrightarrow> cb mem off n s = Inr s' \<Longrightarrow> good s' \<and> pending s' = pending s"
    and "handler cb s = Inr s'"
  shows "good s' \<and> (\<exists>k. pending s' = drop k (pending s))"
proof (cases "buf_length s = 0")
  case True
  with assms(1,3) show ?thesis by (auto simp: read_handler_def intro: exI [of _ 0])
next
  case False
  obtain r s1 where view: "buf_view (buf_length s) s = (r, s1)" by (rule prod.exhaust)
  note v = view_law [OF assms(1) view]
  show ?thesis
  proof (cases r)
    case None
    with False assms(3) view v show ?thesis by (auto simp: read_handler_def intro: exI [of _ 0])
  next
    case (Some mem)
    with False assms(3) view obtain c st s2 where p: "process_resp mem (buf_length s) (Some (cb mem)) 0 s1 = Inr ((c, st), s2)"
      and s': "s' = (if c > 0 then snd (buf_drain (to_uint32 c) s2) else s2)"
      by (auto simp: read_handler_def split: if_splits)
    have "good s2 \<and> pending s2 = pending s"
      by (rule process_resp_keeps [where P = "\<lambda>s'. good s' \<and> pending s' = pending s", OF _ _ p])
        (use cb v in auto)
    then have s2: "good s2" "pending s2 = pending s" by simp_all
    obtain ok s3 where d: "buf_drain (to_uint32 c) s2 = (ok, s3)" by (rule prod.exhaust)
    show ?thesis
      using s' s2 d drain_law [OF s2(1) d] by (auto intro: exI [of _ 0])
  qed
qed

end

section \<open>The sockets as input buffers\<close>

text \<open>Both classes give the interface: \<open>TcpSocket\<close>, and with it every client, and \<open>TcpSession\<close>.\<close>

lemma socket_read_laws:
  assumes S: "libevent_ok S V" and sk: "bev_sptr sk = Bev b"
  shows "getInputBufferLength S sk w = to_uint32 (length (inq V w b))"
    and "viewInputBuffer S sk n w = (r, w') \<Longrightarrow> keeps V w w' \<and>
      (case r of None \<Rightarrow> True | Some mem \<Rightarrow> n \<le> length (inq V w b) \<and> (\<exists>rest. mem = take n (inq V w b) @ rest))"
    and "drainInputBuffer S sk n w = (ok, w') \<Longrightarrow> sent V w' = sent V w \<and> live V w' = live V w \<and>
      inq V w' = (if ok then (inq V w)(b := drop n (inq V w b)) else inq V w)"
proof -
  show "getInputBufferLength S sk w = to_uint32 (length (inq V w b))"
    using sk by (simp add: getInputBufferLength_def input_length_ok [OF S])
  show "viewInputBuffer S sk n w = (r, w') \<Longrightarrow> keeps V w w' \<and>
      (case r of None \<Rightarrow> True | Some mem \<Rightarrow> n \<le> length (inq V w b) \<and> (\<exists>rest. mem = take n (inq V w b) @ rest))"
    using sk input_pullup_ok [OF S, of b n w r w'] by (auto simp: viewInputBuffer_def split: option.splits)
  assume d: "drainInputBuffer S sk n w = (ok, w')"
  obtain r1 w1 where i: "input_drain S b n w = (r1, w1)" by (rule prod.exhaust)
  with d sk have "w' = w1" "ok \<longleftrightarrow> r1 \<noteq> -1" by (auto simp: drainInputBuffer_def)
  then show "sent V w' = sent V w \<and> live V w' = live V w \<and>
      inq V w' = (if ok then (inq V w)(b := drop n (inq V w b)) else inq V w)"
    using input_drain_ok [OF S i] by simp
qed

definition as_socket :: "tcp_session \<Rightarrow> tcp_socket" where
  "as_socket s = \<lparr> bev_sptr = s_bev_sptr s, isClosing = s_isClosing s \<rparr>"

lemma session_as_socket:
  "session_send S s mem off sz w = socket_send S (as_socket s) mem off sz w"
  "session_getInputBufferLength S s w = getInputBufferLength S (as_socket s) w"
  "session_viewInputBuffer S s n w = viewInputBuffer S (as_socket s) n w"
  "session_drainInputBuffer S s n w = drainInputBuffer S (as_socket s) n w"
  "session_readInputBuffer S s n w = readInputBuffer S (as_socket s) n w"
  "session_clearInputBuffer S s w = clearInputBuffer S (as_socket s) w"
  by ((cases "s_bev_sptr s"; simp add: as_socket_def session_send_def socket_send_def session_getInputBufferLength_def
      getInputBufferLength_def session_viewInputBuffer_def viewInputBuffer_def
      session_drainInputBuffer_def drainInputBuffer_def session_readInputBuffer_def
      readInputBuffer_def session_clearInputBuffer_def clearInputBuffer_def)+)

interpretation socket_read: read_source
  "\<lambda>w. libevent_ok S V \<and> bev_sptr sk = Bev b"
  "\<lambda>w. inq V w b"
  "getInputBufferLength S sk"
  "viewInputBuffer S sk"
  "drainInputBuffer S sk"
  for S :: "'w sys" and V :: "'w view" and sk :: "'a tcp_socket_scheme" and b :: bev
proof unfold_locales
  fix w n r w' ok
  assume g: "libevent_ok S V \<and> bev_sptr sk = Bev b"
  note laws = socket_read_laws [of S V sk b, OF g [THEN conjunct1] g [THEN conjunct2]]
  show "getInputBufferLength S sk w = to_uint32 (length (inq V w b))" by (rule laws(1))
  show "(libevent_ok S V \<and> bev_sptr sk = Bev b) \<and> inq V w' b = inq V w b \<and>
      (case r of None \<Rightarrow> True | Some mem \<Rightarrow> n \<le> length (inq V w b) \<and> (\<exists>rest. mem = take n (inq V w b) @ rest))"
    if "viewInputBuffer S sk n w = (r, w')"
    using laws(2) [OF that] g by (simp add: keeps_def)
  show "(libevent_ok S V \<and> bev_sptr sk = Bev b) \<and>
      inq V w' b = (if ok then drop n (inq V w b) else inq V w b)"
    if "drainInputBuffer S sk n w = (ok, w')"
    using laws(3) [OF that] g by simp
qed

section \<open>TcpClient::onRead\<close>

text \<open>The callback of the base class only logs.\<close>

definition client_onRead :: "'w sys \<Rightarrow> 'a tcp_client_scheme \<Rightarrow> 'w \<Rightarrow> 'w run" where
  "client_onRead S c w =
     (let length = getInputBufferLength S c w
      in if length = 0 then Inr w
         else (case viewInputBuffer S c length w of
             (None, w1) \<Rightarrow> Inr w1
           | (Some buf, w1) \<Rightarrow>
               andThen (process_resp buf length (Some (\<lambda>off n w. Inr w)) 0 w1)
                 (\<lambda>((n, _), w2). if n > 0 then Inr (snd (drainInputBuffer S c (to_uint32 n) w2)) else Inr w2)))"

lemma client_onRead_handler:
  "client_onRead S c =
    read_handler (getInputBufferLength S c) (viewInputBuffer S c) (drainInputBuffer S c) (\<lambda>mem off n w. Inr w)"
  by (rule ext) (simp add: client_onRead_def read_handler_def)

text \<open>
  The base class's read callback on input that is complete messages consumes all of it, and
  writes nothing to any bufferevent.
\<close>

theorem client_onRead_complete:
  assumes "libevent_ok S V" and "no_failure S V" and "bev_sptr c = Bev b"
    and "inq V w b = tokens_bytes ts" and "list_all plain ts" and "length (tokens_bytes ts) < 2 ^ 32"
  shows "\<exists>w'. client_onRead S c w = Inr w' \<and> inq V w' = (inq V w)(b := []) \<and> sent V w' = sent V w"
proof (cases "ts = []")
  case True
  then show ?thesis using assms(4) socket_read_laws(1) [OF assms(1,3), of w]
    by (simp add: client_onRead_def to_uint32_def) (metis fun_upd_triv)
next
  case False
  let ?n = "length (inq V w b)"
  obtain r w1 where view: "viewInputBuffer S c ?n w = (r, w1)" by (rule prod.exhaust)
  have "r \<noteq> None" using no_failure_pullup [OF assms(2)] view assms(3) by (simp add: viewInputBuffer_def)
  then obtain mem where r: "r = Some mem" by auto
  have k: "keeps V w w1" using socket_read_laws(2) [OF assms(1,3) view] by simp
  obtain ok w2 where d: "drainInputBuffer S c ?n w1 = (ok, w2)" by (rule prod.exhaust)
  have ok using d assms(3) no_failure_drain [OF assms(2)] by (auto simp: drainInputBuffer_def split: prod.splits)
  have "deliver_all (\<lambda>m. Inr) ms w = Inr w" for ms :: "bytes list" and w :: 'a
    by (induction ms) simp_all
  moreover have "hands_over (\<lambda>mem off n w. Inr w) (\<lambda>m. Inr)" by (simp add: hands_over_def)
  ultimately have "client_onRead S c w = Inr w2"
    using socket_read.handler_complete [of S V c b w ts mem w1 "\<lambda>mem off n w. Inr w" "\<lambda>m. Inr"]
      assms(1,3-6) False view d
    unfolding client_onRead_handler r by simp
  moreover have "inq V w2 = (inq V w)(b := [])" "sent V w2 = sent V w"
    using socket_read_laws(3) [OF assms(1,3) d] k \<open>ok\<close> by (simp_all add: keeps_def)
  ultimately show ?thesis by blast
qed

lemma client_onRead_complete_witness:
  "\<exists>w'. client_onRead sim_sys ((new_tcp_client example_info)\<lparr>bev_sptr := Bev 0\<rparr>)
      (sim_state (tokens_bytes [TString ''OK'']) []) = Inr w' \<and>
    inq sim_view w' = (inq sim_view (sim_state (tokens_bytes [TString ''OK'']) []))(0 := []) \<and>
    sent sim_view w' = sent sim_view (sim_state (tokens_bytes [TString ''OK'']) [])"
  by (rule client_onRead_complete [OF sim_ok sim_no_failure, where ts = "[TString ''OK'']"]) (simp_all add: sim_view_def sim_state_def)

end
