(* ===== verification/Loop.thy ===== *)
theory Loop
  imports Cxx_Std
begin

text \<open>
  The event loop object \<open>Loop\<close> (\<open>src/include/loop.hpp\<close>, \<open>src/src/loop.cpp\<close>): its status, the
  thread it may own, and how \<open>start\<close>, \<open>stop\<close>, \<open>wait\<close> and the destructor interleave with the
  threads that execute \<open>_run\<close>. What happens inside \<open>event_base_loop\<close> is libevent's; here it is
  a runner that may return at any point, as \<open>event_base_loop\<close> does when it was told to exit or when
  no event is left.
\<close>

section \<open>The object\<close>

datatype loop_status = StatusInit | StatusRunning | StatusFinished

fun status_value :: "loop_status \<Rightarrow> nat" where
  "status_value StatusInit = 0"
| "status_value StatusRunning = 2"
| "status_value StatusFinished = 4"

lemma status_value_eq [simp]: "status_value a = status_value b \<longleftrightarrow> a = b"
  by (cases a; cases b; simp)

instantiation loop_status :: linorder
begin

definition less_eq_loop_status :: "loop_status \<Rightarrow> loop_status \<Rightarrow> bool" where
  "less_eq_loop_status a b \<longleftrightarrow> status_value a \<le> status_value b"

definition less_loop_status :: "loop_status \<Rightarrow> loop_status \<Rightarrow> bool" where
  "less_loop_status a b \<longleftrightarrow> status_value a < status_value b"

instance
  by standard (auto simp: less_eq_loop_status_def less_loop_status_def)

end

text \<open>
  The thread member is a null pointer, or a \<open>std::thread\<close> that is joinable or has been joined.
  Destroying a joinable one calls \<open>std::terminate\<close>.
\<close>

datatype thread_sptr = NoThread | Joinable | Joined

record loop =
  loop_id :: "32 word"
  base_sptr :: "nat option"
  thread_sptr :: thread_sptr
  loop_status :: loop_status

definition new_loop :: "nat option \<Rightarrow> loop" where
  "new_loop base =
     \<lparr> loop_id = 0, base_sptr = base, thread_sptr = NoThread, loop_status = StatusInit \<rparr>"

text \<open>\<open>init\<close> takes the next value of the shared counter; without an event base it throws.\<close>

definition loop_init :: "32 word \<Rightarrow> loop \<Rightarrow> (std_exception + bool) \<times> loop \<times> 32 word" where
  "loop_init generator l =
     (let l1 = l\<lparr>loop_id := generator\<rparr>; generator' = generator + 1
      in if base_sptr l1 = None then (Inl logic_error, l1, generator')
         else (Inr True, l1, generator'))"

definition onBeforeStart :: bool where
  "onBeforeStart = True"

definition thread_destroy :: "thread_sptr \<Rightarrow> unit run" where
  "thread_destroy t = (if t = Joinable then Inl Terminate else Inr ())"

text \<open>
  \<open>start\<close>: the result, the object, and whether some thread now executes \<open>_run\<close> (a new one, or
  the caller itself). Assigning the new thread destroys the one assigned before.
\<close>

definition loop_start :: "bool \<Rightarrow> loop \<Rightarrow> (bool \<times> loop \<times> bool) run" where
  "loop_start newThread l =
     (if loop_status l \<noteq> StatusInit then Inr (False, l, False)
      else if \<not> onBeforeStart then Inr (False, l, False)
      else if newThread then
        andThen (thread_destroy (thread_sptr l)) (\<lambda>_. Inr (True, l\<lparr>thread_sptr := Joinable\<rparr>, True))
      else Inr (True, l, True))"

definition run_begin :: "loop \<Rightarrow> loop" where
  "run_begin l = l\<lparr>loop_status := StatusRunning\<rparr>"

definition run_end :: "loop \<Rightarrow> loop" where
  "run_end l = l\<lparr>loop_status := StatusFinished\<rparr>"

text \<open>Does \<open>wait\<close> join the thread? And does \<open>stop\<close> tell the event base to exit?\<close>

definition wait_joins :: "loop \<Rightarrow> bool" where
  "wait_joins l \<longleftrightarrow> thread_sptr l \<noteq> NoThread \<and> StatusFinished \<noteq> loop_status l"

definition stop_exits :: "loop \<Rightarrow> bool" where
  "stop_exits l \<longleftrightarrow> StatusFinished \<noteq> loop_status l"

text \<open>
  The destructor calls \<open>stop\<close>, then the members are destroyed. The result says whether the event
  base was told to exit.
\<close>

definition loop_destroy :: "loop \<Rightarrow> bool run" where
  "loop_destroy l = andThen (thread_destroy (thread_sptr l)) (\<lambda>_. Inr (stop_exits l))"

section \<open>Interleaving\<close>

datatype runner = Entering | Looping

datatype loop_action = Start bool | Stop | Wait | Join | Enter nat | Leave nat

record loop_sys =
  lp :: loop
  runners :: "runner list"
  exit_requested :: bool
  waiting :: bool

definition initial_loop_sys :: "nat option \<Rightarrow> loop_sys" where
  "initial_loop_sys base =
     \<lparr> lp = new_loop base, runners = [], exit_requested = False, waiting = False \<rparr>"

inductive loop_step :: "loop_action \<Rightarrow> loop_sys \<Rightarrow> loop_sys run \<Rightarrow> bool" where
  start: "loop_start b (lp s) = Inr (ok, l, True) \<Longrightarrow>
    loop_step (Start b) s (Inr (s\<lparr>lp := l, runners := runners s @ [Entering]\<rparr>))"
| refused: "loop_start b (lp s) = Inr (ok, l, False) \<Longrightarrow> loop_step (Start b) s (Inr (s\<lparr>lp := l\<rparr>))"
| crash: "loop_start b (lp s) = Inl e \<Longrightarrow> loop_step (Start b) s (Inl e)"
| stop: "loop_step Stop s (Inr (s\<lparr>exit_requested := exit_requested s \<or> stop_exits (lp s)\<rparr>))"
| wait: "loop_step Wait s (Inr (s\<lparr>waiting := waiting s \<or> wait_joins (lp s)\<rparr>))"
| join: "waiting s \<Longrightarrow> runners s = [] \<Longrightarrow> thread_sptr (lp s) = Joinable \<Longrightarrow>
    loop_step Join s (Inr (s\<lparr>lp := (lp s)\<lparr>thread_sptr := Joined\<rparr>, waiting := False\<rparr>))"
| enter: "i < length (runners s) \<Longrightarrow> runners s ! i = Entering \<Longrightarrow>
    loop_step (Enter i) s (Inr (s\<lparr>lp := run_begin (lp s), runners := (runners s)[i := Looping]\<rparr>))"
| leave: "i < length (runners s) \<Longrightarrow> runners s ! i = Looping \<Longrightarrow>
    loop_step (Leave i) s
      (Inr (s\<lparr>lp := run_end (lp s), runners := take i (runners s) @ drop (Suc i) (runners s)\<rparr>))"

inductive loop_run :: "loop_sys \<Rightarrow> loop_action list \<Rightarrow> loop_sys run \<Rightarrow> bool" where
  nil: "loop_run s [] (Inr s)"
| more: "loop_step a s (Inr s1) \<Longrightarrow> loop_run s1 acts r \<Longrightarrow> loop_run s (a # acts) r"
| fault: "loop_step a s (Inl e) \<Longrightarrow> loop_run s [a] (Inl e)"

inductive_cases loop_stepE [elim!]: "loop_step a s (Inr s')"
inductive_cases loop_step_faultE [elim!]: "loop_step a s (Inl e)"
inductive_cases loop_run_ConsE: "loop_run s (a # acts) r"
inductive_simps loop_run_Nil [simp]: "loop_run s [] r"

subsection \<open>Facts about the operations\<close>

lemma loop_start_cases:
  "loop_start b l =
    (if loop_status l \<noteq> StatusInit then Inr (False, l, False)
     else if \<not> b then Inr (True, l, True)
     else if thread_sptr l = Joinable then Inl Terminate
     else Inr (True, l\<lparr>thread_sptr := Joinable\<rparr>, True))"
  by (simp add: loop_start_def onBeforeStart_def thread_destroy_def)

lemma run_begin_end_sel [simp]:
  "loop_status (run_begin l) = StatusRunning" "thread_sptr (run_begin l) = thread_sptr l"
  "loop_status (run_end l) = StatusFinished" "thread_sptr (run_end l) = thread_sptr l"
  by (simp_all add: run_begin_def run_end_def)

text \<open>
  When \<open>start\<close> is only called for a new thread, the program either ends in the fault or has at
  most one runner, and the status says where it is.
\<close>

definition one_runner :: "loop_sys \<Rightarrow> bool" where
  "one_runner s \<longleftrightarrow>
     loop_status (lp s) = StatusInit \<and>
       (runners s = [] \<and> thread_sptr (lp s) = NoThread \<or>
        runners s = [Entering] \<and> thread_sptr (lp s) = Joinable) \<or>
     loop_status (lp s) = StatusRunning \<and> runners s = [Looping] \<and> thread_sptr (lp s) = Joinable \<or>
     loop_status (lp s) = StatusFinished \<and> runners s = [] \<and> thread_sptr (lp s) \<noteq> NoThread"

definition new_threads_only :: "loop_action list \<Rightarrow> bool" where
  "new_threads_only acts \<longleftrightarrow> Start False \<notin> set acts"

lemma one_runner_step:
  assumes "loop_step a s (Inr s')" and "one_runner s" and "a \<noteq> Start False"
  shows "one_runner s' \<and> loop_status (lp s) \<le> loop_status (lp s')"
proof -
  have le: "StatusInit \<le> x" "x \<le> StatusFinished" "x \<le> x" for x
    by (cases x; simp add: less_eq_loop_status_def)+
  show ?thesis
    using assms
  proof cases
    case (start b ok l)
    with assms(2,3) le show ?thesis
      by (auto simp: loop_start_cases one_runner_def split: if_splits)
  next
    case (refused b ok l)
    with assms(2) le show ?thesis by (auto simp: loop_start_cases one_runner_def split: if_splits)
  next
    case join
    with assms(2) le show ?thesis by (auto simp: one_runner_def)
  next
    case (enter i)
    with assms(2) le show ?thesis by (auto simp: one_runner_def less_Suc_eq)
  next
    case (leave i)
    with assms(2) le show ?thesis by (auto simp: one_runner_def less_Suc_eq)
  qed (use assms(2) le in \<open>auto simp: one_runner_def\<close>)
qed

lemma one_runner_initial: "one_runner (initial_loop_sys base)"
  by (simp add: one_runner_def initial_loop_sys_def new_loop_def)

lemma one_runner_run:
  assumes "loop_run s acts (Inr s')" and "one_runner s" and "new_threads_only acts"
  shows "one_runner s' \<and> loop_status (lp s) \<le> loop_status (lp s')"
  using assms
proof (induction s acts "Inr s' :: loop_sys run" arbitrary: s' rule: loop_run.induct)
  case (more a s s1 acts)
  then have "a \<noteq> Start False" "new_threads_only acts" by (auto simp: new_threads_only_def)
  with one_runner_step [OF more.hyps(1) more.prems(1)] more.hyps(3) show ?case
    by (metis order_trans)
qed simp_all

end
