(* ===== verification/Loop_Thread.thy ===== *)
theory Loop_Thread
  imports Read_Handler Loop "HOL-Library.AList"
begin

text \<open>
  The state of one \<open>loop_thread\<close> (\<open>src/include/loop_thread.hpp\<close>) with everything reachable from
  it: the sessions and the database connections are objects on a heap, their addresses are what
  the map, the vector and the reply queues hold. Here are the operations that other components
  call: the eventfd client and server, \<open>send2loop_thread\<close>, \<open>stop\<close>, and the reference counting of
  sessions.
\<close>

section \<open>State\<close>

text \<open>\<open>redis_tcp_client\<close>: a client with the queue of the sessions that wait for a reply.\<close>

record redis_client = tcp_client +
  session_queue :: "nat list"

definition new_redis_client :: "CONN_INFO \<Rightarrow> redis_client" where
  "new_redis_client junk =
     \<lparr> bev_sptr = NoBev, isClosing = False, isConnected = False, cl_dscp = 0, conn_info = junk,
       session_queue = [] \<rparr>"

text \<open>
  \<open>EventFdServer\<close>: \<open>_event\<close> is indeterminate until \<open>init\<close> has set it (\<open>None\<close> is the null pointer).
\<close>

record eventfd_server =
  srv_fd :: fd
  srv_callback :: bool
  srv_event :: "nat option"

text \<open>
  \<open>tls_set\<close> says whether the thread-local \<open>_loop_thread_sptr\<close> of the thread that runs the loop
  points to this loop thread; otherwise it is null.
\<close>

record loop_thread =
  tls_set :: bool
  evfd :: fd
  loop_sptr :: "loop option"
  event_server_sptr :: "eventfd_server option"
  event_client_sptr :: "fd option"
  task_queue :: TASK_QUEUE
  fd_to_session_map :: "(fd \<times> nat) list"
  connection_sptr_vector :: "nat option list"
  sessions :: "nat \<rightharpoonup> tcp_session"
  clients :: "nat \<rightharpoonup> redis_client"
  next_addr :: nat

definition new_loop_thread :: "bool \<Rightarrow> loop_thread" where
  "new_loop_thread tls =
     \<lparr> tls_set = tls, evfd = 0, loop_sptr = None, event_server_sptr = None, event_client_sptr = None,
       task_queue = [], fd_to_session_map = [], connection_sptr_vector = [],
       sessions = Map.empty, clients = Map.empty, next_addr = 0 \<rparr>"

section \<open>Waking the loop\<close>

definition eventfd_client_send :: "'w sys \<Rightarrow> fd \<Rightarrow> 'w \<Rightarrow> bool \<times> 'w" where
  "eventfd_client_send S fd w =
     (let (ret, w') = eventfd_write S fd 1 w in if ret \<noteq> 8 then (False, w') else (True, w'))"

text \<open>\<open>send2loop_thread\<close>: the message is queued before it is known whether the loop can be woken.\<close>

definition send2loop_thread ::
    "'w sys \<Rightarrow> TASK_MSG \<Rightarrow> loop_thread \<Rightarrow> 'w \<Rightarrow> (bool \<times> loop_thread \<times> 'w) run" where
  "send2loop_thread S msg lt w =
     (let lt1 = lt\<lparr>task_queue := task_queue lt @ [msg]\<rparr>
      in if evfd lt1 = 0 then Inr (False, lt1, w)
         else (case event_client_sptr lt1 of
             None \<Rightarrow> Inl NullDeref
           | Some fd \<Rightarrow> Inr (True, lt1, snd (eventfd_client_send S fd w))))"

text \<open>\<open>Loop::stop(true)\<close>, and \<open>loop_thread::stop\<close>, which closes the eventfd only once.\<close>

definition loop_stop :: "'w sys \<Rightarrow> bool \<Rightarrow> loop \<Rightarrow> 'w \<Rightarrow> 'w" where
  "loop_stop S wait_events l w =
     (if StatusFinished = loop_status l then w
      else if wait_events then event_base_loopexit S w else event_base_loopbreak S w)"

definition loop_thread_stop :: "'w sys \<Rightarrow> loop_thread \<Rightarrow> 'w \<Rightarrow> (bool \<times> loop_thread \<times> 'w) run" where
  "loop_thread_stop S lt w =
     (if evfd lt = 0 then Inr (False, lt, w)
      else
        let w1 = sys_close S (evfd lt) w; lt1 = lt\<lparr>evfd := 0\<rparr>
        in (case loop_sptr lt1 of
              None \<Rightarrow> Inl NullDeref
            | Some l \<Rightarrow> Inr (True, lt1, loop_stop S True l w1)))"

section \<open>Reference counts\<close>

text \<open>
  A session lives as long as the map or a reply queue holds its address. Dropping a reference
  destroys it when it was the last one.
\<close>

definition queued_sessions :: "loop_thread \<Rightarrow> nat set" where
  "queued_sessions lt =
     (\<Union>p \<in> set (connection_sptr_vector lt). case p of None \<Rightarrow> {} | Some cid \<Rightarrow>
        (case clients lt cid of None \<Rightarrow> {} | Some c \<Rightarrow> set (session_queue c)))"

definition session_referenced :: "loop_thread \<Rightarrow> nat \<Rightarrow> bool" where
  "session_referenced lt sid \<longleftrightarrow> sid \<in> snd ` set (fd_to_session_map lt) \<or> sid \<in> queued_sessions lt"

definition session_unref :: "'w sys \<Rightarrow> nat \<Rightarrow> loop_thread \<Rightarrow> 'w \<Rightarrow> (loop_thread \<times> 'w) run" where
  "session_unref S sid lt w =
     (if session_referenced lt sid then Inr (lt, w)
      else (case sessions lt sid of
          None \<Rightarrow> Inr (lt, w)
        | Some s \<Rightarrow> andThen (session_destroy S s w)
            (\<lambda>w'. Inr (lt\<lparr>sessions := (sessions lt)(sid := None)\<rparr>, w'))))"

text \<open>\<open>_fd_to_session_map[fd] = s\<close> and \<open>_fd_to_session_map.erase(fd)\<close>.\<close>

definition map_insert :: "'w sys \<Rightarrow> fd \<Rightarrow> nat \<Rightarrow> loop_thread \<Rightarrow> 'w \<Rightarrow> (loop_thread \<times> 'w) run" where
  "map_insert S fd sid lt w =
     (let lt1 = lt\<lparr>fd_to_session_map := AList.update fd sid (fd_to_session_map lt)\<rparr>
      in case map_of (fd_to_session_map lt) fd of
           None \<Rightarrow> Inr (lt1, w)
         | Some old \<Rightarrow> session_unref S old lt1 w)"

definition map_erase :: "'w sys \<Rightarrow> fd \<Rightarrow> loop_thread \<Rightarrow> 'w \<Rightarrow> (loop_thread \<times> 'w) run" where
  "map_erase S fd lt w =
     (let lt1 = lt\<lparr>fd_to_session_map := AList.delete fd (fd_to_session_map lt)\<rparr>
      in case map_of (fd_to_session_map lt) fd of
           None \<Rightarrow> Inr (lt1, w)
         | Some old \<Rightarrow> session_unref S old lt1 w)"

section \<open>A new session\<close>

text \<open>
  The three statements \<open>new TcpSession\<close>, \<open>init()\<close>, insertion into the map, which a new connection
  on the listener and a NEW_SESSION task share. The result of \<open>init\<close> is ignored, so the session
  enters the map also when it failed. \<open>junk\<close> is the indeterminate round-robin counter.
\<close>

definition add_session ::
    "'w sys \<Rightarrow> 32 word \<Rightarrow> fd \<Rightarrow> loop_thread \<Rightarrow> 'w \<Rightarrow> (loop_thread \<times> 'w) run" where
  "add_session S junk fd lt w =
     (let sid = next_addr lt
      in andThen (session_init S (new_tcp_session fd junk) w) (\<lambda>(_, s, w1).
           map_insert S fd sid (lt\<lparr>sessions := (sessions lt)(sid \<mapsto> s), next_addr := Suc sid\<rparr>) w1))"

text \<open>\<open>TCPListener::listenEventCallback\<close>: a null \<open>_loop_thread_sptr\<close> or loop is dereferenced.\<close>

definition listenEventCallback ::
    "'w sys \<Rightarrow> 32 word \<Rightarrow> fd \<Rightarrow> loop_thread \<Rightarrow> 'w \<Rightarrow> (loop_thread \<times> 'w) run" where
  "listenEventCallback S junk fd lt w =
     (let w1 = make_socket_nonblocking S fd w
      in if \<not> tls_set lt \<or> loop_sptr lt = None then Inl NullDeref
         else add_session S junk fd lt w1)"

end
