(* ===== verification/Dispatch.thy ===== *)
theory Dispatch
  imports Loop_Thread
begin

text \<open>
  The traffic dispatcher: a request that arrives on a session goes to one of the database
  connections of its loop thread, chosen in turn (\<open>TcpSession::onRead\<close>,
  \<open>src/src/tcp_session.cpp\<close>), and a reply that arrives on a connection goes to the session at the
  front of its queue (\<open>redis_tcp_client::onRead\<close>, \<open>src/include/redis_tcp_client.hpp\<close>). Also the
  session's event handler.
\<close>

section \<open>Requests\<close>

text \<open>
  The \<open>do ... while (retry_time)\<close> loop, in which \<open>continue\<close> jumps to the condition:
  \<open>retry_time\<close> is an \<open>unsigned short\<close>, the round-robin counter is 32 bits wide and wraps. Before
  it is sent, the message is copied for the log, which reads all of its bytes.
\<close>

function try_connections ::
    "'w sys \<Rightarrow> nat \<Rightarrow> bytes \<Rightarrow> nat \<Rightarrow> nat \<Rightarrow> nat option list \<Rightarrow> 16 word \<Rightarrow> 32 word \<Rightarrow>
     (nat \<rightharpoonup> redis_client) \<Rightarrow> 'w \<Rightarrow> (bool \<times> 32 word \<times> (nat \<rightharpoonup> redis_client) \<times> 'w) run" where
  "try_connections S sid buf off n vec retry gen cs w =
     andThen
       (case vec ! (unat gen mod length vec) of
          None \<Rightarrow> Inr (False, cs, w)
        | Some cid \<Rightarrow> (case cs cid of
            None \<Rightarrow> Inl NullDeref
          | Some c \<Rightarrow>
              if \<not> isConnected c then Inr (False, cs, w)
              else andThen (mem_slice buf off n) (\<lambda>_.
                andThen (socket_send S c buf off (to_uint32 n) w) (\<lambda>(ok, w').
                  if \<not> ok then Inr (False, cs, w')
                  else Inr (True, cs(cid \<mapsto> c\<lparr>session_queue := session_queue c @ [sid]\<rparr>), w')))))
       (\<lambda>(sent, cs', w').
          if sent then Inr (True, gen + 1, cs', w')
          else if retry - 1 \<noteq> 0 then try_connections S sid buf off n vec (retry - 1) (gen + 1) cs' w'
          else Inr (False, gen + 1, cs', w'))"
  by pat_completeness auto
termination
proof (relation "measure (\<lambda>(S, sid, buf, off, n, vec, retry, gen, cs, w). unat (retry - 1))")
  fix retry :: "16 word"
  assume "retry - 1 \<noteq> 0"
  then have "unat (retry - 1 - 1) < unat (retry - 1)" by (rule measure_unat)
  then show "((S, sid, buf, off, n, vec, retry - 1, gen + 1, cs', w'), S, sid, buf, off, n, vec, retry, gen, cs, w)
    \<in> measure (\<lambda>(S, sid, buf, off, n, vec, retry, gen, cs, w). unat (retry - 1))"
    for S :: "'w sys" and sid buf off n vec and gen :: "32 word" and cs' cs :: "nat \<rightharpoonup> redis_client" and w' w
    by simp
qed simp

declare try_connections.simps [simp del]

text \<open>The lambda of \<open>TcpSession::onRead\<close>; \<open>sid\<close> is \<open>this\<close>.\<close>

definition session_cb :: "'w sys \<Rightarrow> nat \<Rightarrow> bytes \<Rightarrow> (loop_thread \<times> 'w) on_resp" where
  "session_cb S sid buf off n = (\<lambda>(lt, w).
     if \<not> tls_set lt \<or> connection_sptr_vector lt = [] then Inr (lt, w)
     else (case sessions lt sid of
         None \<Rightarrow> Inl NullDeref
       | Some s \<Rightarrow>
           andThen (try_connections S sid buf off n (connection_sptr_vector lt)
                (of_nat (length (connection_sptr_vector lt)) + 1) (sIdGenerater s) (clients lt) w)
             (\<lambda>(_, gen, cs, w').
                Inr (lt\<lparr>sessions := (sessions lt)(sid \<mapsto> s\<lparr>sIdGenerater := gen\<rparr>), clients := cs\<rparr>, w'))))"

definition session_onRead ::
    "'w sys \<Rightarrow> nat \<Rightarrow> loop_thread \<times> 'w \<Rightarrow> (loop_thread \<times> 'w) run" where
  "session_onRead S sid = (\<lambda>(lt, w).
     (case sessions lt sid of
        None \<Rightarrow> Inl NullDeref
      | Some s \<Rightarrow>
          let length = session_getInputBufferLength S s w
          in if length = 0 then Inr (lt, w)
             else (case session_viewInputBuffer S s length w of
                 (None, w1) \<Rightarrow> Inr (lt, w1)
               | (Some buf, w1) \<Rightarrow>
                   andThen (process_resp buf length (Some (session_cb S sid buf)) 0 (lt, w1))
                     (\<lambda>((n, _), (lt2, w2)).
                        if n > 0 then
                          (case sessions lt2 sid of
                             None \<Rightarrow> Inl NullDeref
                           | Some s2 \<Rightarrow> Inr (lt2, snd (session_drainInputBuffer S s2 (to_uint32 n) w2)))
                        else Inr (lt2, w2)))))"

text \<open>Every event on a session, whatever it is, marks it as closing and asks the loop to delete it.\<close>

definition session_handleEvent ::
    "'w sys \<Rightarrow> nat \<Rightarrow> 16 word \<Rightarrow> loop_thread \<times> 'w \<Rightarrow> (loop_thread \<times> 'w) run" where
  "session_handleEvent S sid events = (\<lambda>(lt, w).
     (case sessions lt sid of
        None \<Rightarrow> Inl NullDeref
      | Some s \<Rightarrow>
          let lt1 = lt\<lparr>sessions := (sessions lt)(sid \<mapsto> s\<lparr>s_isClosing := True\<rparr>)\<rparr>;
              msg = \<lparr> msg_type = DEL_SESSION, msg_body = AnyFd (s_fd s) \<rparr>
          in if tls_set lt1
             then andThen (send2loop_thread S msg lt1 w) (\<lambda>(_, lt2, w2). Inr (lt2, w2))
             else Inr (lt1, w)))"

text \<open>
  The static functions that are registered with libevent: \<open>data\<close> is the session. The first also
  logs the length of the input and two addresses.
\<close>

definition session_readCallback :: "'w sys \<Rightarrow> nat \<Rightarrow> loop_thread \<times> 'w \<Rightarrow> (loop_thread \<times> 'w) run" where
  [simp]: "session_readCallback S sid = session_onRead S sid"

definition session_writeCallback :: "nat \<Rightarrow> loop_thread \<times> 'w \<Rightarrow> (loop_thread \<times> 'w) run" where
  [simp]: "session_writeCallback sid \<sigma> = Inr \<sigma>"

definition session_eventCallback ::
    "'w sys \<Rightarrow> nat \<Rightarrow> 16 word \<Rightarrow> loop_thread \<times> 'w \<Rightarrow> (loop_thread \<times> 'w) run" where
  [simp]: "session_eventCallback S sid events = session_handleEvent S sid events"

section \<open>Replies\<close>

text \<open>
  The lambda of \<open>redis_tcp_client::onRead\<close>; \<open>cid\<close> is \<open>this\<close>. \<open>front()\<close> of an empty queue is a
  fault. The copy of the shared pointer keeps the session until the end of the callback.
\<close>

definition redis_cb :: "'w sys \<Rightarrow> nat \<Rightarrow> bytes \<Rightarrow> (loop_thread \<times> 'w) on_resp" where
  "redis_cb S cid buf off n = (\<lambda>(lt, w).
     (case clients lt cid of
        None \<Rightarrow> Inl NullDeref
      | Some c \<Rightarrow>
          (case session_queue c of
             [] \<Rightarrow> Inl EmptyQueue
           | sid # rest \<Rightarrow>
               andThen (mem_slice buf off n) (\<lambda>_.
                 (case sessions lt sid of
                    None \<Rightarrow> Inl NullDeref
                  | Some s \<Rightarrow>
                      andThen (session_send S s buf off (to_uint32 n) w) (\<lambda>(_, w1).
                        session_unref S sid
                          (lt\<lparr>clients := (clients lt)(cid \<mapsto> c\<lparr>session_queue := rest\<rparr>)\<rparr>) w1))))))"

definition redis_onRead ::
    "'w sys \<Rightarrow> nat \<Rightarrow> loop_thread \<times> 'w \<Rightarrow> (loop_thread \<times> 'w) run" where
  "redis_onRead S cid = (\<lambda>(lt, w).
     (case clients lt cid of
        None \<Rightarrow> Inl NullDeref
      | Some c \<Rightarrow>
          let length = getInputBufferLength S c w
          in if length = 0 then Inr (lt, w)
             else (case viewInputBuffer S c length w of
                 (None, w1) \<Rightarrow> Inr (lt, w1)
               | (Some buf, w1) \<Rightarrow>
                   andThen (process_resp buf length (Some (redis_cb S cid buf)) 0 (lt, w1))
                     (\<lambda>((n, _), (lt2, w2)).
                        if n > 0 then
                          (case clients lt2 cid of
                             None \<Rightarrow> Inl NullDeref
                           | Some c2 \<Rightarrow> Inr (lt2, snd (drainInputBuffer S c2 (to_uint32 n) w2)))
                        else Inr (lt2, w2)))))"

text \<open>\<open>TcpClient::readCallback\<close>: the virtual \<open>onRead\<close> is that of \<open>redis_tcp_client\<close>.\<close>

definition client_readCallback :: "'w sys \<Rightarrow> nat \<Rightarrow> loop_thread \<times> 'w \<Rightarrow> (loop_thread \<times> 'w) run" where
  [simp]: "client_readCallback S cid = redis_onRead S cid"

end
