(* ===== verification/Dispatch_Facts.thy ===== *)
theory Dispatch_Facts
  imports Dispatch
begin

text \<open>
  The dispatcher against its specification: which connection a request goes to, what it leaves on
  the connection's queue, and how a read callback behaves on a whole buffer of requests or replies.
\<close>

section \<open>Which connections take a message\<close>

definition open_handle :: "(nat \<rightharpoonup> redis_client) \<Rightarrow> nat option \<Rightarrow> bev option" where
  "open_handle cs p =
     (case p of None \<Rightarrow> None
      | Some cid \<Rightarrow> (case cs cid of None \<Rightarrow> None
         | Some c \<Rightarrow> if isConnected c \<and> \<not> isClosing c then bev_get (bev_sptr c) else None))"

definition allocated :: "(nat \<rightharpoonup> redis_client) \<Rightarrow> nat option list \<Rightarrow> bool" where
  "allocated cs vec \<longleftrightarrow> (\<forall>cid. Some cid \<in> set vec \<longrightarrow> cs cid \<noteq> None)"

definition push_session :: "nat \<Rightarrow> nat \<Rightarrow> (nat \<rightharpoonup> redis_client) \<Rightarrow> nat \<rightharpoonup> redis_client" where
  "push_session cid sid cs =
     (case cs cid of None \<Rightarrow> cs
      | Some c \<Rightarrow> cs(cid \<mapsto> c\<lparr>session_queue := session_queue c @ [sid]\<rparr>))"

lemma open_handle_push [simp]: "open_handle (push_session cid sid cs) p = open_handle cs p"
  by (auto simp: open_handle_def push_session_def split: option.splits)

lemma allocated_push [simp]: "allocated (push_session cid sid cs) vec = allocated cs vec"
  by (auto simp: allocated_def push_session_def split: option.splits)

lemma open_handle_SomeE:
  assumes "open_handle cs p = Some b"
  obtains cid c where "p = Some cid" "cs cid = Some c" "isConnected c" "\<not> isClosing c" "bev_sptr c = Bev b"
  using assms by (auto simp: open_handle_def split: option.splits if_splits)

section \<open>The retry loop\<close>

text \<open>The connection the counter points to, and how many rounds the loop has.\<close>

abbreviation conn_at :: "nat option list \<Rightarrow> 32 word \<Rightarrow> nat option" where
  "conn_at vec gen \<equiv> vec ! (unat gen mod length vec)"

definition rounds :: "16 word \<Rightarrow> nat" where
  "rounds retry = (if retry = 0 then 2 ^ 16 else unat retry)"

lemma rounds_pos: "0 < rounds retry"
  by (simp add: rounds_def unat_gt_0)

lemma rounds_step: "retry - 1 \<noteq> 0 \<Longrightarrow> rounds retry = Suc (rounds (retry - 1))"
  by (cases "retry = 0")
    (auto simp: rounds_def unat_minus_one unat_gt_0 unsigned_minus_1_eq_mask mask_eq_exp_minus_1)

lemma rounds_last: "retry - 1 = 0 \<Longrightarrow> rounds retry = 1"
  by (simp add: rounds_def)

text \<open>One round, with a connection that does not take the message, and with one that does.\<close>

lemma conn_at_in_set: "vec \<noteq> [] \<Longrightarrow> conn_at vec gen \<in> set vec"
  by simp

lemma try_skip:
  assumes "open_handle cs (conn_at vec gen) = None" and "allocated cs vec" and "vec \<noteq> []"
    and "mem_slice buf off n = Inr m"
  shows "try_connections S sid buf off n vec retry gen cs w =
    (if retry - 1 \<noteq> 0 then try_connections S sid buf off n vec (retry - 1) (gen + 1) cs w
     else Inr (False, gen + 1, cs, w))"
proof (cases "conn_at vec gen")
  case None
  then show ?thesis by (subst try_connections.simps) simp
next
  case (Some cid)
  with assms(2,3) obtain c where c: "cs cid = Some c"
    using conn_at_in_set [of vec gen] by (auto simp: allocated_def)
  have "\<not> isConnected c \<or> bev_get (bev_sptr c) = None \<or> isClosing c"
    using assms(1) Some c by (auto simp: open_handle_def split: if_splits)
  with assms(4) Some c show ?thesis
    by (subst try_connections.simps) (auto simp: socket_send_refused)
qed

lemma slice_uint32:
  assumes "mem_slice buf off n = Inr m"
  shows "mem_slice buf off (to_uint32 n) = Inr (take (to_uint32 n) m)"
  using assms to_uint32_le [of n] by (auto simp: mem_slice_eq_Inr min_def)

lemma try_send:
  assumes "open_handle cs (conn_at vec gen) = Some b" and "conn_at vec gen = Some cid"
    and "mem_slice buf off n = Inr m"
    and "bufferevent_write S b (take (to_uint32 n) m) w = (r, w')" and "r \<noteq> -1"
  shows "try_connections S sid buf off n vec retry gen cs w =
    Inr (True, gen + 1, push_session cid sid cs, w')"
proof -
  obtain c where c: "cs cid = Some c" "isConnected c" "\<not> isClosing c" "bev_sptr c = Bev b"
    using open_handle_SomeE [OF assms(1)] assms(2) by auto
  have "socket_send S c buf off (to_uint32 n) w = Inr (True, w')"
    using socket_send_open [OF c(4,3) slice_uint32 [OF assms(3)], of S w] assms(4,5) by simp
  with assms(2,3) c show ?thesis
    by (subst try_connections.simps) (simp add: push_session_def)
qed

text \<open>The first connection in turn that takes the message gets it.\<close>

lemma unat_plus_one: "unat (gen :: 32 word) + 1 < 2 ^ 32 \<Longrightarrow> unat (gen + 1) = unat gen + 1"
  by (simp add: unat_word_ariths)

lemma try_first:
  assumes "allocated cs vec" and "vec \<noteq> []" and "mem_slice buf off n = Inr m"
    and "\<And>j. j < k \<Longrightarrow> open_handle cs (vec ! ((unat gen + j) mod length vec)) = None"
    and "open_handle cs (vec ! ((unat gen + k) mod length vec)) = Some b"
    and "vec ! ((unat gen + k) mod length vec) = Some cid"
    and "unat gen + k < 2 ^ 32" and "k < rounds retry"
    and "bufferevent_write S b (take (to_uint32 n) m) w = (r, w')" and "r \<noteq> -1"
  shows "try_connections S sid buf off n vec retry gen cs w =
    Inr (True, gen + of_nat k + 1, push_session cid sid cs, w')"
  using assms(4-8)
proof (induction k arbitrary: gen retry)
  case 0
  then show ?case using try_send [OF _ _ assms(3,9,10), of cs vec gen cid sid retry] by simp
next
  case (Suc k)
  have skip: "open_handle cs (conn_at vec gen) = None" using Suc.prems(1) [of 0] by simp
  have more: "retry - 1 \<noteq> 0" using Suc.prems(5) rounds_last by fastforce
  have g: "unat (gen + 1) = unat gen + 1" using Suc.prems(4) by (intro unat_plus_one) simp
  have "try_connections S sid buf off n vec (retry - 1) (gen + 1) cs w =
      Inr (True, gen + 1 + of_nat k + 1, push_session cid sid cs, w')"
  proof (rule Suc.IH)
    show "open_handle cs (vec ! ((unat (gen + 1) + j) mod length vec)) = None" if "j < k" for j
      using Suc.prems(1) [of "Suc j"] that by (simp add: g)
    show "k < rounds (retry - 1)" using Suc.prems(5) rounds_step [OF more] by simp
  qed (use Suc.prems g in simp_all)
  then show ?case
    using try_skip [OF skip assms(1-3), of S sid retry w] more by (simp add: add.assoc)
qed

text \<open>When no connection takes it, the message is dropped after all rounds.\<close>

lemma try_none:
  assumes "allocated cs vec" and "vec \<noteq> []" and "mem_slice buf off n = Inr m"
    and "\<And>p. p \<in> set vec \<Longrightarrow> open_handle cs p = None"
  shows "try_connections S sid buf off n vec retry gen cs w =
    Inr (False, gen + of_nat (rounds retry), cs, w)"
proof (induction "rounds retry" arbitrary: retry gen)
  case 0
  then show ?case using rounds_pos [of retry] by simp
next
  case (Suc r)
  have skip: "open_handle cs (conn_at vec gen) = None"
    using assms(4) conn_at_in_set [OF assms(2)] by blast
  show ?case
  proof (cases "retry - 1 = 0")
    case True
    then show ?thesis using try_skip [OF skip assms(1-3), of S sid retry w] rounds_last by simp
  next
    case False
    have "r = rounds (retry - 1)" using Suc.hyps(2) rounds_step [OF False] by simp
    from Suc.hyps(1) [OF this, of "gen + 1"] False show ?thesis
      using try_skip [OF skip assms(1-3), of S sid retry w] rounds_step [OF False]
      by (simp add: add.assoc)
  qed
qed

section \<open>Round robin\<close>

text \<open>How far the first open connection is from position \<open>g\<close>, counted in turn.\<close>

definition first_open :: "nat option list \<Rightarrow> (nat \<rightharpoonup> redis_client) \<Rightarrow> nat \<Rightarrow> nat option" where
  "first_open vec cs g =
     find (\<lambda>k. open_handle cs (vec ! ((g + k) mod length vec)) \<noteq> None) [0..<length vec]"

lemma first_open_Some:
  assumes "first_open vec cs g = Some k"
  shows "k < length vec" and "open_handle cs (vec ! ((g + k) mod length vec)) \<noteq> None"
    and "j < k \<Longrightarrow> open_handle cs (vec ! ((g + j) mod length vec)) = None"
  using assms by (auto simp: first_open_def find_Some_iff)

lemma position_in_turn:
  assumes "i < length vec"
  obtains k where "k < length vec" "(g + k) mod length vec = i"
proof -
  let ?n = "length vec"
  let ?k = "(i + ?n - g mod ?n) mod ?n"
  have n: "0 < ?n" using assms by auto
  then have "g mod ?n < ?n" by (rule mod_less_divisor)
  with n have n: "0 < ?n" "g mod ?n < ?n" by simp_all
  have "(g + ?k) mod ?n = (g mod ?n + (i + ?n - g mod ?n)) mod ?n"
    by (metis mod_add_eq mod_mod_trivial)
  also have "g mod ?n + (i + ?n - g mod ?n) = i + ?n" using n(2) by linarith
  finally have "(g + ?k) mod ?n = i" using assms by simp
  with n show thesis by (intro that [of ?k]) auto
qed

lemma first_open_exists:
  assumes "p \<in> set vec" and "open_handle cs p \<noteq> None"
  obtains k where "first_open vec cs g = Some k"
proof (cases "first_open vec cs g")
  case None
  obtain i where i: "i < length vec" "vec ! i = p" using assms(1) by (auto simp: in_set_conv_nth)
  obtain k where "k < length vec" "(g + k) mod length vec = i" by (rule position_in_turn [OF i(1)])
  with None i(2) assms(2) have False by (auto simp: first_open_def find_None_iff)
  then show thesis ..
qed

text \<open>The positions that a sequence of messages goes to.\<close>

fun choices :: "nat option list \<Rightarrow> (nat \<rightharpoonup> redis_client) \<Rightarrow> nat \<Rightarrow> nat \<Rightarrow> nat list" where
  "choices vec cs g 0 = []"
| "choices vec cs g (Suc j) =
     (case first_open vec cs g of None \<Rightarrow> []
      | Some k \<Rightarrow> (g + k) mod length vec # choices vec cs (g + k + 1) j)"

text \<open>What a connection with some handle, or at some address, gets out of such a sequence.\<close>

definition sent_to :: "nat option list \<Rightarrow> (nat \<rightharpoonup> redis_client) \<Rightarrow> bev \<Rightarrow> (nat \<times> bytes) list \<Rightarrow> bytes" where
  "sent_to vec cs h assignment =
     concat (map snd (filter (\<lambda>(i, m). open_handle cs (vec ! i) = Some h) assignment))"

definition queued_on :: "nat option list \<Rightarrow> nat \<Rightarrow> nat list \<Rightarrow> nat" where
  "queued_on vec cid is = length (filter (\<lambda>i. vec ! i = Some cid) is)"

definition push_many :: "(nat \<Rightarrow> nat) \<Rightarrow> nat \<Rightarrow> (nat \<rightharpoonup> redis_client) \<Rightarrow> nat \<rightharpoonup> redis_client" where
  "push_many k sid cs =
     (\<lambda>cid. map_option (\<lambda>c. c\<lparr>session_queue := session_queue c @ replicate (k cid) sid\<rparr>) (cs cid))"

lemma push_many_push:
  "push_many k sid (push_session cid sid cs) = push_many (k(cid := Suc (k cid))) sid cs"
  by (rule ext) (auto simp: push_many_def push_session_def replicate_app_Cons_same split: option.splits)

lemma push_many_0: "push_many (\<lambda>_. 0) sid cs = cs"
  by (rule ext) (simp add: push_many_def option.map_ident)

section \<open>The request callback\<close>

lemma mem_slice_whole: "mem_slice m 0 k = (if k \<le> length m then Inr (take k m) else Inl OutOfBounds)"
  by (simp add: mem_slice_def)

lemma socket_send_slice:
  assumes "mem_slice buf off n = Inr m"
  shows "socket_send S c buf off (to_uint32 n) w = socket_send S c m 0 (to_uint32 n) w"
proof -
  have "to_uint32 n \<le> length m" using assms to_uint32_le [of n] by (auto simp: mem_slice_eq_Inr)
  then have "mem_slice m 0 (to_uint32 n) = Inr (take (to_uint32 n) m)" by (simp add: mem_slice_whole)
  then show ?thesis unfolding socket_send_def slice_uint32 [OF assms] by (simp only:)
qed

lemma try_connections_slice:
  assumes "mem_slice buf off n = Inr m"
  shows "try_connections S sid buf off n vec retry gen cs w = try_connections S sid m 0 n vec retry gen cs w"
proof (induction "unat (retry - 1)" arbitrary: retry gen cs w rule: less_induct)
  case less
  have IH: "try_connections S sid buf off n vec (retry - 1) gen' cs' w' =
      try_connections S sid m 0 n vec (retry - 1) gen' cs' w'" if "retry - 1 \<noteq> 0" for gen' cs' w'
    by (rule less.hyps [OF measure_unat [OF that]])
  have m: "mem_slice m 0 n = Inr m" using assms by (auto simp: mem_slice_eq_Inr)
  show ?case
    unfolding try_connections.simps [of S sid buf off n vec retry gen cs w]
      try_connections.simps [of S sid m 0 n vec retry gen cs w]
      socket_send_slice [OF assms] assms m
    using IH by (intro andThen_cong) auto
qed

text \<open>What the request callback does to a message.\<close>

definition dispatch :: "'w sys \<Rightarrow> nat \<Rightarrow> bytes \<Rightarrow> loop_thread \<times> 'w \<Rightarrow> (loop_thread \<times> 'w) run" where
  "dispatch S sid m = session_cb S sid m 0 (length m)"

lemma session_cb_hands_over: "hands_over (session_cb S sid) (dispatch S sid)"
proof -
  have "session_cb S sid mem off n = session_cb S sid m 0 (length m)" if m: "mem_slice mem off n = Inr m" for mem off n m
  proof -
    have n: "n = length m" using m by (auto simp: mem_slice_eq_Inr)
    show ?thesis unfolding session_cb_def try_connections_slice [OF m] unfolding n by (rule refl)
  qed
  then show ?thesis by (simp add: hands_over_def dispatch_def)
qed

text \<open>A session that can dispatch: it exists, and the thread has connections, all of them objects.\<close>

definition can_dispatch :: "loop_thread \<Rightarrow> nat \<Rightarrow> tcp_session \<Rightarrow> bool" where
  "can_dispatch lt sid s \<longleftrightarrow> sessions lt sid = Some s \<and> tls_set lt \<and> connection_sptr_vector lt \<noteq> [] \<and>
     allocated (clients lt) (connection_sptr_vector lt) \<and> length (connection_sptr_vector lt) + 1 < 2 ^ 16"

definition with_gen :: "loop_thread \<Rightarrow> nat \<Rightarrow> tcp_session \<Rightarrow> 32 word \<Rightarrow> (nat \<rightharpoonup> redis_client) \<Rightarrow> loop_thread" where
  "with_gen lt sid s gen cs =
     lt\<lparr>sessions := (sessions lt)(sid \<mapsto> s\<lparr>sIdGenerater := gen\<rparr>), clients := cs\<rparr>"

lemma rounds_size:
  "length vec + 1 < 2 ^ 16 \<Longrightarrow> rounds (of_nat (length vec) + 1) = length vec + 1"
proof -
  assume "length vec + 1 < 2 ^ 16"
  then have "unat (of_nat (length vec) + 1 :: 16 word) = length vec + 1"
    by (simp add: unat_word_ariths unat_of_nat)
  then show ?thesis by (auto simp: rounds_def)
qed

lemma dispatch_one:
  assumes d: "can_dispatch lt sid s" and f: "no_failure S V"
    and k: "first_open (connection_sptr_vector lt) (clients lt) (unat (sIdGenerater s)) = Some k"
    and g: "unat (sIdGenerater s) + length (connection_sptr_vector lt) < 2 ^ 32" and m: "length m < 2 ^ 32"
  obtains cid b r w' where
    "connection_sptr_vector lt ! ((unat (sIdGenerater s) + k) mod length (connection_sptr_vector lt)) = Some cid"
    "open_handle (clients lt) (Some cid) = Some b"
    "bufferevent_write S b m w = (r, w')" "r \<noteq> -1"
    "dispatch S sid m (lt, w) =
      Inr (with_gen lt sid s (sIdGenerater s + of_nat k + 1) (push_session cid sid (clients lt)), w')"
proof -
  let ?vec = "connection_sptr_vector lt" and ?g = "unat (sIdGenerater s)"
  note d' = d [unfolded can_dispatch_def]
  obtain b where b: "open_handle (clients lt) (?vec ! ((?g + k) mod length ?vec)) = Some b"
    using first_open_Some(2) [OF k] by blast
  then obtain cid where cid: "?vec ! ((?g + k) mod length ?vec) = Some cid"
    by (rule open_handle_SomeE)
  obtain r w' where wr: "bufferevent_write S b m w = (r, w')" by (rule prod.exhaust)
  have r: "r \<noteq> -1" by (rule no_failure_write [OF f wr])
  have kn: "k < length ?vec" by (rule first_open_Some(1) [OF k])
  have whole: "mem_slice m 0 (length m) = Inr m" by (simp add: mem_slice_whole)
  have "try_connections S sid m 0 (length m) ?vec (of_nat (length ?vec) + 1) (sIdGenerater s) (clients lt) w =
      Inr (True, sIdGenerater s + of_nat k + 1, push_session cid sid (clients lt), w')"
  proof (rule try_first [OF _ _ whole _ b cid])
    show "k < rounds (of_nat (length ?vec) + 1)" using rounds_size [of ?vec] kn d' by simp
    show "bufferevent_write S b (take (to_uint32 (length m)) m) w = (r, w')"
      using wr m by (simp add: to_uint32_def)
    show "?g + k < 2 ^ 32" using g kn by simp
  qed (use d' r first_open_Some(3) [OF k] in auto)
  then have "dispatch S sid m (lt, w) =
      Inr (with_gen lt sid s (sIdGenerater s + of_nat k + 1) (push_session cid sid (clients lt)), w')"
    using d' by (simp add: dispatch_def session_cb_def with_gen_def)
  with that cid b wr r show thesis by simp
qed

lemma with_gen_sel [simp]:
  "connection_sptr_vector (with_gen lt sid s gen cs) = connection_sptr_vector lt"
  "clients (with_gen lt sid s gen cs) = cs"
  "fd_to_session_map (with_gen lt sid s gen cs) = fd_to_session_map lt"
  "task_queue (with_gen lt sid s gen cs) = task_queue lt"
  "sessions (with_gen lt sid s gen cs) = (sessions lt)(sid \<mapsto> s\<lparr>sIdGenerater := gen\<rparr>)"
  by (simp_all add: with_gen_def)

lemma with_gen_with_gen [simp]:
  "with_gen (with_gen lt sid s gen cs) sid (s\<lparr>sIdGenerater := gen\<rparr>) gen' cs' = with_gen lt sid s gen' cs'"
  by (simp add: with_gen_def)

lemma can_dispatch_with_gen:
  "can_dispatch lt sid s \<Longrightarrow> allocated cs (connection_sptr_vector lt) \<Longrightarrow>
   can_dispatch (with_gen lt sid s gen cs) sid (s\<lparr>sIdGenerater := gen\<rparr>)"
  by (simp add: can_dispatch_def with_gen_def)

section \<open>A buffer full of requests\<close>

lemma choices_cong: "(\<And>p. open_handle cs p = open_handle cs' p) \<Longrightarrow> choices vec cs g j = choices vec cs' g j"
  by (induction j arbitrary: g) (simp_all add: first_open_def split: option.splits)

lemma choices_push [simp]: "choices vec (push_session cid sid cs) g j = choices vec cs g j"
  by (rule choices_cong) simp

lemma sent_to_push [simp]: "sent_to vec (push_session cid sid cs) h a = sent_to vec cs h a"
  by (simp add: sent_to_def)

text \<open>
  The effect of a list of requests: the connection at each chosen position gets its message and
  one more entry of the session on its queue.
\<close>

lemma deliver_requests:
  assumes S: "libevent_ok S V" "no_failure S V" and d: "can_dispatch lt sid s"
    and p: "p \<in> set (connection_sptr_vector lt)" "open_handle (clients lt) p \<noteq> None"
    and g: "unat (sIdGenerater s) + length ms * length (connection_sptr_vector lt) < 2 ^ 32"
    and ms: "\<And>m. m \<in> set ms \<Longrightarrow> length m < 2 ^ 32"
  shows "\<exists>gen w'. deliver_all (dispatch S sid) ms (lt, w) =
      Inr (with_gen lt sid s gen (push_many (\<lambda>cid. queued_on (connection_sptr_vector lt) cid
        (choices (connection_sptr_vector lt) (clients lt) (unat (sIdGenerater s)) (length ms))) sid (clients lt)), w') \<and>
    inq V w' = inq V w \<and> live V w' = live V w \<and>
    (\<forall>h. sent V w' h = sent V w h @ sent_to (connection_sptr_vector lt) (clients lt) h
       (zip (choices (connection_sptr_vector lt) (clients lt) (unat (sIdGenerater s)) (length ms)) ms))"
  using d p g ms
proof (induction ms arbitrary: lt s w)
  case Nil
  have "with_gen lt sid s (sIdGenerater s) (clients lt) = lt"
    using Nil.prems(1) by (simp add: can_dispatch_def with_gen_def fun_upd_idem)
  then show ?case
    by (intro exI [of _ "sIdGenerater s"] exI [of _ w]) (simp add: queued_on_def push_many_0 sent_to_def)
next
  case (Cons m ms)
  let ?vec = "connection_sptr_vector lt" and ?cs = "clients lt" and ?g = "unat (sIdGenerater s)"
  obtain k where k: "first_open ?vec ?cs ?g = Some k" by (rule first_open_exists [where g = ?g, OF Cons.prems(2,3)])
  have g: "?g + length ?vec + length ms * length ?vec < 2 ^ 32" using Cons.prems(4) by (simp add: add.assoc)
  obtain cid b r w1 where cid: "?vec ! ((?g + k) mod length ?vec) = Some cid"
    and b: "open_handle ?cs (Some cid) = Some b"
    and wr: "bufferevent_write S b m w = (r, w1)" "r \<noteq> -1"
    and one: "dispatch S sid m (lt, w) =
      Inr (with_gen lt sid s (sIdGenerater s + of_nat k + 1) (push_session cid sid ?cs), w1)"
    by (rule dispatch_one [OF Cons.prems(1) S(2) k]) (use g Cons.prems(5) in auto)
  define gen1 where "gen1 = sIdGenerater s + of_nat k + 1"
  define lt1 where "lt1 = with_gen lt sid s gen1 (push_session cid sid ?cs)"
  have kn: "k < length ?vec" by (rule first_open_Some(1) [OF k])
  have gen1: "unat gen1 = ?g + k + 1"
    using g kn by (simp add: gen1_def unat_word_ariths unat_of_nat)
  have lt1: "connection_sptr_vector lt1 = ?vec" "clients lt1 = push_session cid sid ?cs"
    by (simp_all add: lt1_def)
  define q where "q = (\<lambda>cid. queued_on ?vec cid (choices ?vec ?cs (?g + k + 1) (length ms)))"
  obtain gen w' where IH: "deliver_all (dispatch S sid) ms (lt1, w1) =
      Inr (with_gen lt1 sid (s\<lparr>sIdGenerater := gen1\<rparr>) gen (push_many q sid (push_session cid sid ?cs)), w')"
    "inq V w' = inq V w1" "live V w' = live V w1"
    "\<And>h. sent V w' h = sent V w1 h @ sent_to ?vec ?cs h (zip (choices ?vec ?cs (?g + k + 1) (length ms)) ms)"
  proof -
    have "can_dispatch lt1 sid (s\<lparr>sIdGenerater := gen1\<rparr>)"
      unfolding lt1_def using Cons.prems(1) by (intro can_dispatch_with_gen) (auto simp: can_dispatch_def)
    from Cons.IH [OF this, of w1] show thesis
      using that Cons.prems(2,3,5) g kn unfolding lt1 by (auto simp: gen1 q_def)
  qed
  have "with_gen lt1 sid (s\<lparr>sIdGenerater := gen1\<rparr>) gen (push_many q sid (push_session cid sid ?cs)) =
      with_gen lt sid s gen (push_many (\<lambda>cid. queued_on ?vec cid (choices ?vec ?cs ?g (Suc (length ms)))) sid ?cs)"
  proof -
    have "q(cid := Suc (q cid)) = (\<lambda>cid. queued_on ?vec cid (choices ?vec ?cs ?g (Suc (length ms))))"
      using k cid by (auto simp: q_def queued_on_def)
    then show ?thesis by (simp add: lt1_def push_many_push)
  qed
  moreover have "sent V w' h = sent V w h @ sent_to ?vec ?cs h (zip (choices ?vec ?cs ?g (Suc (length ms))) (m # ms))" for h
    using IH(4) [of h] bufferevent_write_ok(3) [OF S(1) wr(1)] wr(2) k cid b by (auto simp: sent_to_def)
  moreover have "inq V w' = inq V w" "live V w' = live V w"
    using IH(2,3) bufferevent_write_ok(1,2) [OF S(1) wr(1)] by simp_all
  ultimately show ?case
    using one IH(1) by (intro exI [of _ gen] exI [of _ w']) (simp add: lt1_def gen1_def)
qed

lemma unat_less_2_32: "unat (x :: 32 word) < 4294967296"
  using unsigned_less [of x] by simp

text \<open>With one connection the counter does not matter: no request is dropped when it wraps.\<close>

lemma deliver_sole:
  assumes S: "libevent_ok S V" "no_failure S V" and d: "can_dispatch lt sid s"
    and vec: "connection_sptr_vector lt = [Some cid]" and oh: "open_handle (clients lt) (Some cid) = Some bc"
    and ms: "\<And>m. m \<in> set ms \<Longrightarrow> length m < 2 ^ 32"
  shows "\<exists>gen w'. deliver_all (dispatch S sid) ms (lt, w) =
      Inr (with_gen lt sid s gen (push_many (\<lambda>cid'. if cid' = cid then length ms else 0) sid (clients lt)), w') \<and>
    inq V w' = inq V w \<and> live V w' = live V w \<and> sent V w' = (sent V w)(bc := sent V w bc @ concat ms)"
  using d vec oh ms
proof (induction ms arbitrary: lt s w)
  case Nil
  have "with_gen lt sid s (sIdGenerater s) (clients lt) = lt"
    using Nil.prems(1) by (simp add: can_dispatch_def with_gen_def fun_upd_idem)
  moreover have "push_many (\<lambda>cid'. if cid' = cid then length ([] :: bytes list) else 0) sid (clients lt) = clients lt"
    using push_many_0 [of sid "clients lt"] by (simp add: if_distrib cong: if_cong)
  ultimately show ?case by (intro exI [of _ "sIdGenerater s"] exI [of _ w]) simp
next
  case (Cons m ms)
  let ?cs = "clients lt"
  note d' = Cons.prems(1) [unfolded can_dispatch_def]
  obtain r w1 where wr: "bufferevent_write S bc m w = (r, w1)" by (rule prod.exhaust)
  have r: "r \<noteq> -1" by (rule no_failure_write [OF S(2) wr])
  have whole: "mem_slice m 0 (length m) = Inr m" by (simp add: mem_slice_whole)
  have "try_connections S sid m 0 (length m) [Some cid] 2 (sIdGenerater s) ?cs w =
      Inr (True, sIdGenerater s + of_nat 0 + 1, push_session cid sid ?cs, w1)"
  proof (rule try_first [OF _ _ whole _ _ _ _ _ _ r])
    show "bufferevent_write S bc (take (to_uint32 (length m)) m) w = (r, w1)"
      using wr Cons.prems(4) [of m] by (simp add: to_uint32_def)
    show "0 < rounds 2" by (simp add: rounds_def)
    show "unat (sIdGenerater s) + 0 < 2 ^ 32" by (simp add: unat_less_2_32)
  qed (use d' Cons.prems(2,3) in simp_all)
  then have one: "dispatch S sid m (lt, w) =
      Inr (with_gen lt sid s (sIdGenerater s + 1) (push_session cid sid ?cs), w1)"
    using d' Cons.prems(2) by (simp add: dispatch_def session_cb_def with_gen_def)
  define lt1 where "lt1 = with_gen lt sid s (sIdGenerater s + 1) (push_session cid sid ?cs)"
  have lt1: "connection_sptr_vector lt1 = [Some cid]" "clients lt1 = push_session cid sid ?cs"
    using Cons.prems(2) by (simp_all add: lt1_def)
  have "can_dispatch lt1 sid (s\<lparr>sIdGenerater := sIdGenerater s + 1\<rparr>)"
    unfolding lt1_def using Cons.prems(1) by (intro can_dispatch_with_gen) (auto simp: can_dispatch_def)
  note can = this
  have oh1: "open_handle (clients lt1) (Some cid) = Some bc" using Cons.prems(3) lt1(2) by simp
  have ms1: "\<And>m. m \<in> set ms \<Longrightarrow> length m < 2 ^ 32" using Cons.prems(4) by simp
  obtain gen w' where IH: "deliver_all (dispatch S sid) ms (lt1, w1) = Inr (with_gen lt1 sid (s\<lparr>sIdGenerater := sIdGenerater s + 1\<rparr>) gen
        (push_many (\<lambda>cid'. if cid' = cid then length ms else 0) sid (push_session cid sid ?cs)), w')"
    "inq V w' = inq V w1" "live V w' = live V w1" "sent V w' = (sent V w1)(bc := sent V w1 bc @ concat ms)"
    using Cons.IH [OF can lt1(1) oh1 ms1, of w1, unfolded lt1(2)] by blast
  have "(\<lambda>cid'. if cid' = cid then length ms else 0)(cid := Suc (length ms)) =
      (\<lambda>cid'. if cid' = cid then length (m # ms) else 0)" by auto
  then have e: "with_gen lt1 sid (s\<lparr>sIdGenerater := sIdGenerater s + 1\<rparr>) gen
        (push_many (\<lambda>cid'. if cid' = cid then length ms else 0) sid (push_session cid sid ?cs)) =
      with_gen lt sid s gen (push_many (\<lambda>cid'. if cid' = cid then length (m # ms) else 0) sid ?cs)"
    by (simp add: lt1_def push_many_push)
  show ?case
    using one IH bufferevent_write_ok [OF S(1) wr] r unfolding e
    by (intro exI [of _ gen] exI [of _ w']) (auto simp: lt1_def [symmetric])
qed

end
