(* ===== verification/Dispatch_Reads.thy ===== *)
theory Dispatch_Reads
  imports Dispatch_Facts
begin

text \<open>
  The two read callbacks of the proxy as instances of \<open>read_source\<close>: the input buffer of an
  object on the heap of the loop thread. Then the effect of a buffer of replies.
\<close>

section \<open>Objects as input buffers\<close>

definition sess_length :: "'w sys \<Rightarrow> nat \<Rightarrow> loop_thread \<times> 'w \<Rightarrow> nat" where
  "sess_length S sid = (\<lambda>(lt, w). session_getInputBufferLength S (the (sessions lt sid)) w)"

definition sess_view :: "'w sys \<Rightarrow> nat \<Rightarrow> nat \<Rightarrow> loop_thread \<times> 'w \<Rightarrow> bytes option \<times> (loop_thread \<times> 'w)" where
  "sess_view S sid n = (\<lambda>(lt, w).
     map_prod id (\<lambda>w'. (lt, w')) (session_viewInputBuffer S (the (sessions lt sid)) n w))"

definition sess_drain :: "'w sys \<Rightarrow> nat \<Rightarrow> nat \<Rightarrow> loop_thread \<times> 'w \<Rightarrow> bool \<times> (loop_thread \<times> 'w)" where
  "sess_drain S sid n = (\<lambda>(lt, w).
     map_prod id (\<lambda>w'. (lt, w')) (session_drainInputBuffer S (the (sessions lt sid)) n w))"

definition cli_length :: "'w sys \<Rightarrow> nat \<Rightarrow> loop_thread \<times> 'w \<Rightarrow> nat" where
  "cli_length S cid = (\<lambda>(lt, w). getInputBufferLength S (the (clients lt cid)) w)"

definition cli_view :: "'w sys \<Rightarrow> nat \<Rightarrow> nat \<Rightarrow> loop_thread \<times> 'w \<Rightarrow> bytes option \<times> (loop_thread \<times> 'w)" where
  "cli_view S cid n = (\<lambda>(lt, w).
     map_prod id (\<lambda>w'. (lt, w')) (viewInputBuffer S (the (clients lt cid)) n w))"

definition cli_drain :: "'w sys \<Rightarrow> nat \<Rightarrow> nat \<Rightarrow> loop_thread \<times> 'w \<Rightarrow> bool \<times> (loop_thread \<times> 'w)" where
  "cli_drain S cid n = (\<lambda>(lt, w).
     map_prod id (\<lambda>w'. (lt, w')) (drainInputBuffer S (the (clients lt cid)) n w))"

text \<open>The object exists, and it has a bufferevent.\<close>

definition has_session :: "'w sys \<Rightarrow> 'w view \<Rightarrow> nat \<Rightarrow> bev \<Rightarrow> loop_thread \<times> 'w \<Rightarrow> bool" where
  "has_session S V sid b = (\<lambda>(lt, w). libevent_ok S V \<and> (\<exists>s. sessions lt sid = Some s \<and> s_bev_sptr s = Bev b))"

definition has_client :: "'w sys \<Rightarrow> 'w view \<Rightarrow> nat \<Rightarrow> bev \<Rightarrow> loop_thread \<times> 'w \<Rightarrow> bool" where
  "has_client S V cid b = (\<lambda>(lt, w). libevent_ok S V \<and> (\<exists>c. clients lt cid = Some c \<and> bev_sptr c = Bev b))"

interpretation sess_read: read_source
  "has_session S V sid b" "\<lambda>(lt, w). inq V w b" "sess_length S sid" "sess_view S sid" "sess_drain S sid"
  for S :: "'w sys" and V :: "'w view" and sid :: nat and b :: bev
proof unfold_locales
  fix \<sigma> :: "loop_thread \<times> 'w" and n r \<sigma>' ok
  assume g: "has_session S V sid b \<sigma>"
  obtain lt w where \<sigma>: "\<sigma> = (lt, w)" by (rule prod.exhaust)
  obtain s where s: "libevent_ok S V" "sessions lt sid = Some s" "s_bev_sptr s = Bev b"
    using g by (auto simp: has_session_def \<sigma>)
  have sk: "bev_sptr (as_socket s) = Bev b" using s(3) by (simp add: as_socket_def)
  note laws = socket_read_laws [OF s(1) sk, folded session_as_socket]
  show "sess_length S sid \<sigma> = to_uint32 (length (case \<sigma> of (lt, w) \<Rightarrow> inq V w b))"
    using laws(1) s(2) by (simp add: \<sigma> sess_length_def)
  show "has_session S V sid b \<sigma>' \<and> (case \<sigma>' of (lt, w) \<Rightarrow> inq V w b) = (case \<sigma> of (lt, w) \<Rightarrow> inq V w b) \<and>
      (case r of None \<Rightarrow> True
       | Some mem \<Rightarrow> n \<le> length (case \<sigma> of (lt, w) \<Rightarrow> inq V w b) \<and>
           (\<exists>rest. mem = take n (case \<sigma> of (lt, w) \<Rightarrow> inq V w b) @ rest))"
    if v: "sess_view S sid n \<sigma> = (r, \<sigma>')"
  proof -
    obtain r1 w1 where v1: "session_viewInputBuffer S s n w = (r1, w1)" by (rule prod.exhaust)
    with v s(2) have "r = r1" "\<sigma>' = (lt, w1)" by (auto simp: \<sigma> sess_view_def)
    with laws(2) [OF v1] g show ?thesis by (cases r1) (simp_all add: \<sigma> has_session_def keeps_def)
  qed
  show "has_session S V sid b \<sigma>' \<and> (case \<sigma>' of (lt, w) \<Rightarrow> inq V w b) =
      (if ok then drop n (case \<sigma> of (lt, w) \<Rightarrow> inq V w b) else (case \<sigma> of (lt, w) \<Rightarrow> inq V w b))"
    if v: "sess_drain S sid n \<sigma> = (ok, \<sigma>')"
  proof -
    obtain r1 w1 where v1: "session_drainInputBuffer S s n w = (r1, w1)" by (rule prod.exhaust)
    with v s(2) have "ok = r1" "\<sigma>' = (lt, w1)" by (auto simp: \<sigma> sess_drain_def)
    with laws(3) [OF v1] g show ?thesis by (simp add: \<sigma> has_session_def)
  qed
qed

interpretation cli_read: read_source
  "has_client S V cid b" "\<lambda>(lt, w). inq V w b" "cli_length S cid" "cli_view S cid" "cli_drain S cid"
  for S :: "'w sys" and V :: "'w view" and cid :: nat and b :: bev
proof unfold_locales
  fix \<sigma> :: "loop_thread \<times> 'w" and n r \<sigma>' ok
  assume g: "has_client S V cid b \<sigma>"
  obtain lt w where \<sigma>: "\<sigma> = (lt, w)" by (rule prod.exhaust)
  obtain c where c: "libevent_ok S V" "clients lt cid = Some c" "bev_sptr c = Bev b"
    using g by (auto simp: has_client_def \<sigma>)
  note laws = socket_read_laws [OF c(1,3)]
  show "cli_length S cid \<sigma> = to_uint32 (length (case \<sigma> of (lt, w) \<Rightarrow> inq V w b))"
    using laws(1) c(2) by (simp add: \<sigma> cli_length_def)
  show "has_client S V cid b \<sigma>' \<and> (case \<sigma>' of (lt, w) \<Rightarrow> inq V w b) = (case \<sigma> of (lt, w) \<Rightarrow> inq V w b) \<and>
      (case r of None \<Rightarrow> True
       | Some mem \<Rightarrow> n \<le> length (case \<sigma> of (lt, w) \<Rightarrow> inq V w b) \<and>
           (\<exists>rest. mem = take n (case \<sigma> of (lt, w) \<Rightarrow> inq V w b) @ rest))"
    if v: "cli_view S cid n \<sigma> = (r, \<sigma>')"
  proof -
    obtain r1 w1 where v1: "viewInputBuffer S c n w = (r1, w1)" by (rule prod.exhaust)
    with v c(2) have "r = r1" "\<sigma>' = (lt, w1)" by (auto simp: \<sigma> cli_view_def)
    with laws(2) [OF v1] g show ?thesis by (cases r1) (simp_all add: \<sigma> has_client_def keeps_def)
  qed
  show "has_client S V cid b \<sigma>' \<and> (case \<sigma>' of (lt, w) \<Rightarrow> inq V w b) =
      (if ok then drop n (case \<sigma> of (lt, w) \<Rightarrow> inq V w b) else (case \<sigma> of (lt, w) \<Rightarrow> inq V w b))"
    if v: "cli_drain S cid n \<sigma> = (ok, \<sigma>')"
  proof -
    obtain r1 w1 where v1: "drainInputBuffer S c n w = (r1, w1)" by (rule prod.exhaust)
    with v c(2) have "ok = r1" "\<sigma>' = (lt, w1)" by (auto simp: \<sigma> cli_drain_def)
    with laws(3) [OF v1] g show ?thesis by (simp add: \<sigma> has_client_def)
  qed
qed

section \<open>The callbacks keep their own object\<close>

lemma session_cb_keeps:
  assumes "sessions (fst \<sigma>) sid \<noteq> None" and "session_cb S sid buf off n \<sigma> = Inr \<sigma>'"
  shows "sessions (fst \<sigma>') sid \<noteq> None"
  using assms by (cases \<sigma>) (auto simp: session_cb_def split: if_splits option.splits)

lemma session_unref_sel:
  assumes "session_unref S sid lt w = Inr (lt', w')"
  shows "clients lt' = clients lt" and "connection_sptr_vector lt' = connection_sptr_vector lt"
    and "fd_to_session_map lt' = fd_to_session_map lt" and "task_queue lt' = task_queue lt"
  using assms by (auto simp: session_unref_def split: if_splits option.splits)

lemma redis_cb_keeps:
  assumes "clients (fst \<sigma>) cid \<noteq> None" and "redis_cb S cid buf off n \<sigma> = Inr \<sigma>'"
  shows "clients (fst \<sigma>') cid \<noteq> None"
  using assms
  by (cases \<sigma>; cases \<sigma>')
    (auto simp: redis_cb_def split: if_splits option.splits list.splits dest!: session_unref_sel(1))

lemma session_onRead_handler:
  assumes "sessions lt sid = Some s"
  shows "session_onRead S sid (lt, w) =
    read_handler (sess_length S sid) (sess_view S sid) (sess_drain S sid) (session_cb S sid) (lt, w)"
proof (cases "session_getInputBufferLength S s w = 0")
  case True
  with assms show ?thesis by (simp add: session_onRead_def read_handler_def sess_length_def Let_def)
next
  case False
  let ?n = "session_getInputBufferLength S s w"
  obtain r w1 where v: "session_viewInputBuffer S s ?n w = (r, w1)" by (rule prod.exhaust)
  show ?thesis
  proof (cases r)
    case None
    with assms v show ?thesis
      by (simp add: session_onRead_def read_handler_def sess_length_def sess_view_def Let_def)
  next
    case (Some buf)
    have "sessions (fst \<sigma>2) sid \<noteq> None"
      if "process_resp buf ?n (Some (session_cb S sid buf)) 0 (lt, w1) = Inr (res, \<sigma>2)" for res \<sigma>2
      by (rule process_resp_keeps [where P = "\<lambda>\<sigma>. sessions (fst \<sigma>) sid \<noteq> None", OF session_cb_keeps _ that])
        (use assms in simp_all)
    then have "andThen (process_resp buf ?n (Some (session_cb S sid buf)) 0 (lt, w1))
        (\<lambda>((n, _), (lt2, w2)). if n > 0 then
            (case sessions lt2 sid of None \<Rightarrow> Inl NullDeref
             | Some s2 \<Rightarrow> Inr (lt2, snd (session_drainInputBuffer S s2 (to_uint32 n) w2)))
          else Inr (lt2, w2)) =
        andThen (process_resp buf ?n (Some (session_cb S sid buf)) 0 (lt, w1))
        (\<lambda>((n, _), \<sigma>2). if n > 0 then Inr (snd (sess_drain S sid (to_uint32 n) \<sigma>2)) else Inr \<sigma>2)"
      by (intro andThen_cong refl) (force simp: sess_drain_def split: prod.splits)
    with assms v Some False show ?thesis
      by (simp add: session_onRead_def read_handler_def sess_length_def sess_view_def Let_def)
  qed
qed

lemma redis_onRead_handler:
  assumes "clients lt cid = Some c"
  shows "redis_onRead S cid (lt, w) =
    read_handler (cli_length S cid) (cli_view S cid) (cli_drain S cid) (redis_cb S cid) (lt, w)"
proof (cases "getInputBufferLength S c w = 0")
  case True
  with assms show ?thesis by (simp add: redis_onRead_def read_handler_def cli_length_def Let_def)
next
  case False
  let ?n = "getInputBufferLength S c w"
  obtain r w1 where v: "viewInputBuffer S c ?n w = (r, w1)" by (rule prod.exhaust)
  show ?thesis
  proof (cases r)
    case None
    with assms v show ?thesis
      by (simp add: redis_onRead_def read_handler_def cli_length_def cli_view_def Let_def)
  next
    case (Some buf)
    have "clients (fst \<sigma>2) cid \<noteq> None"
      if "process_resp buf ?n (Some (redis_cb S cid buf)) 0 (lt, w1) = Inr (res, \<sigma>2)" for res \<sigma>2
      by (rule process_resp_keeps [where P = "\<lambda>\<sigma>. clients (fst \<sigma>) cid \<noteq> None", OF redis_cb_keeps _ that])
        (use assms in simp_all)
    then have "andThen (process_resp buf ?n (Some (redis_cb S cid buf)) 0 (lt, w1))
        (\<lambda>((n, _), (lt2, w2)). if n > 0 then
            (case clients lt2 cid of None \<Rightarrow> Inl NullDeref
             | Some c2 \<Rightarrow> Inr (lt2, snd (drainInputBuffer S c2 (to_uint32 n) w2)))
          else Inr (lt2, w2)) =
        andThen (process_resp buf ?n (Some (redis_cb S cid buf)) 0 (lt, w1))
        (\<lambda>((n, _), \<sigma>2). if n > 0 then Inr (snd (cli_drain S cid (to_uint32 n) \<sigma>2)) else Inr \<sigma>2)"
      by (intro andThen_cong refl) (force simp: cli_drain_def split: prod.splits)
    with assms v Some False show ?thesis
      by (simp add: redis_onRead_def read_handler_def cli_length_def cli_view_def Let_def)
  qed
qed

section \<open>A buffer full of replies\<close>

definition session_handle :: "(nat \<rightharpoonup> tcp_session) \<Rightarrow> nat \<Rightarrow> bev option" where
  "session_handle ss sid =
     (case ss sid of None \<Rightarrow> None
      | Some s \<Rightarrow> if s_isClosing s then None else bev_get (s_bev_sptr s))"

text \<open>What the sessions of a queue get when the messages are handed out to them one by one.\<close>

definition answered :: "(nat \<rightharpoonup> tcp_session) \<Rightarrow> bev \<Rightarrow> (nat \<times> bytes) list \<Rightarrow> bytes" where
  "answered ss h pairs = concat (map snd (filter (\<lambda>(sid, m). session_handle ss sid = Some h) pairs))"

definition answer :: "'w sys \<Rightarrow> nat \<Rightarrow> bytes \<Rightarrow> loop_thread \<times> 'w \<Rightarrow> (loop_thread \<times> 'w) run" where
  "answer S cid m = redis_cb S cid m 0 (length m)"

lemma session_send_slice:
  assumes "mem_slice buf off n = Inr m"
  shows "session_send S s buf off (to_uint32 n) w = session_send S s m 0 (to_uint32 n) w"
  unfolding session_as_socket by (rule socket_send_slice [OF assms])

lemma redis_cb_hands_over: "hands_over (redis_cb S cid) (answer S cid)"
proof -
  have "redis_cb S cid mem off n = redis_cb S cid m 0 (length m)" if m: "mem_slice mem off n = Inr m" for mem off n m
  proof -
    have n: "n = length m" using m by (auto simp: mem_slice_eq_Inr)
    have w: "mem_slice m 0 n = Inr m" by (simp add: mem_slice_whole n)
    show ?thesis unfolding redis_cb_def n [symmetric] session_send_slice [OF m] m w by (rule refl)
  qed
  then show ?thesis by (simp add: hands_over_def answer_def)
qed

lemma answer_one:
  assumes S: "libevent_ok S V" "no_failure S V" and c: "clients lt cid = Some c" "session_queue c = sid # rest"
    and s: "sessions lt sid \<noteq> None" "sid \<in> snd ` set (fd_to_session_map lt)" and m: "length m < 2 ^ 32"
  obtains w' where
    "answer S cid m (lt, w) = Inr (lt\<lparr>clients := (clients lt)(cid \<mapsto> c\<lparr>session_queue := rest\<rparr>)\<rparr>, w')"
    "inq V w' = inq V w" "live V w' = live V w"
    "\<And>h. sent V w' h = sent V w h @ (if session_handle (sessions lt) sid = Some h then m else [])"
proof -
  obtain s where s': "sessions lt sid = Some s" using s(1) by auto
  have n: "to_uint32 (length m) = length m" using m by (simp add: to_uint32_def)
  have whole: "mem_slice m 0 (length m) = Inr m" by (simp add: mem_slice_whole)
  obtain ok w' where send: "session_send S s m 0 (length m) w = Inr (ok, w')"
    and eff: "inq V w' = inq V w" "live V w' = live V w"
      "\<And>h. sent V w' h = sent V w h @ (if session_handle (sessions lt) sid = Some h then m else [])"
  proof (cases "session_handle (sessions lt) sid")
    case None
    then have "session_send S s m 0 (length m) w = Inr (False, w)"
      using s' by (intro session_send_refused) (auto simp: session_handle_def split: if_splits)
    with that [of False w] None show thesis by simp
  next
    case (Some b)
    then have b: "s_bev_sptr s = Bev b" "\<not> s_isClosing s"
      using s' by (auto simp: session_handle_def split: if_splits)
    obtain r w' where wr: "bufferevent_write S b m w = (r, w')" by (rule prod.exhaust)
    have "session_send S s m 0 (length m) w = Inr (True, w')"
      using session_send_open [OF b whole, of S w] wr no_failure_write [OF S(2) wr] by simp
    with that [of True w'] Some bufferevent_write_ok [OF S(1) wr] no_failure_write [OF S(2) wr] show thesis by simp
  qed
  have "answer S cid m (lt, w) = Inr (lt\<lparr>clients := (clients lt)(cid \<mapsto> c\<lparr>session_queue := rest\<rparr>)\<rparr>, w')"
    using c s' s(2) send whole n by (simp add: answer_def redis_cb_def session_unref_def session_referenced_def)
  with that eff show thesis by blast
qed

lemma deliver_replies:
  assumes S: "libevent_ok S V" "no_failure S V" and c: "clients lt cid = Some c" "session_queue c = sids @ rest"
    and len: "length sids = length ms" and ms: "\<And>m. m \<in> set ms \<Longrightarrow> length m < 2 ^ 32"
    and s: "\<And>sid. sid \<in> set sids \<Longrightarrow> sessions lt sid \<noteq> None \<and> sid \<in> snd ` set (fd_to_session_map lt)"
  shows "\<exists>w'. deliver_all (answer S cid) ms (lt, w) =
      Inr (lt\<lparr>clients := (clients lt)(cid \<mapsto> c\<lparr>session_queue := rest\<rparr>)\<rparr>, w') \<and>
    inq V w' = inq V w \<and> live V w' = live V w \<and>
    (\<forall>h. sent V w' h = sent V w h @ answered (sessions lt) h (zip sids ms))"
  using c len ms s
proof (induction ms arbitrary: lt c sids w)
  case Nil
  have "c\<lparr>session_queue := rest\<rparr> = c" using Nil.prems(2,3) by (cases c) simp
  moreover have "(clients lt)(cid \<mapsto> c) = clients lt" using Nil.prems(1) by (rule fun_upd_idem)
  moreover have "lt\<lparr>clients := clients lt\<rparr> = lt" by simp
  ultimately show ?case by (intro exI [of _ w]) (simp add: answered_def)
next
  case (Cons m ms)
  obtain sid sids' where sids: "sids = sid # sids'" using Cons.prems(3) by (cases sids) auto
  have q: "session_queue c = sid # sids' @ rest" using Cons.prems(2) sids by simp
  have sm: "sessions lt sid \<noteq> None" "sid \<in> snd ` set (fd_to_session_map lt)" "length m < 2 ^ 32"
    using Cons.prems(4,5) sids by auto
  obtain w1 where one: "answer S cid m (lt, w) =
      Inr (lt\<lparr>clients := (clients lt)(cid \<mapsto> c\<lparr>session_queue := sids' @ rest\<rparr>)\<rparr>, w1)"
    "inq V w1 = inq V w" "live V w1 = live V w"
    "\<And>h. sent V w1 h = sent V w h @ (if session_handle (sessions lt) sid = Some h then m else [])"
    by (rule answer_one [OF S Cons.prems(1) q sm, where w = w]) (rule that)
  let ?lt = "lt\<lparr>clients := (clients lt)(cid \<mapsto> c\<lparr>session_queue := sids' @ rest\<rparr>)\<rparr>"
  obtain w' where IH: "deliver_all (answer S cid) ms (?lt, w1) =
      Inr (?lt\<lparr>clients := (clients ?lt)(cid \<mapsto> c\<lparr>session_queue := sids' @ rest\<rparr>\<lparr>session_queue := rest\<rparr>)\<rparr>, w')"
    "inq V w' = inq V w1" "live V w' = live V w1"
    "\<And>h. sent V w' h = sent V w1 h @ answered (sessions ?lt) h (zip sids' ms)"
  proof -
    have "clients ?lt cid = Some (c\<lparr>session_queue := sids' @ rest\<rparr>)" by simp
    moreover have "session_queue (c\<lparr>session_queue := sids' @ rest\<rparr>) = sids' @ rest" by simp
    moreover have "length sids' = length ms" using Cons.prems(3) sids by simp
    moreover have "length m < 2 ^ 32" if "m \<in> set ms" for m using Cons.prems(4) that by simp
    moreover have "sessions ?lt sid \<noteq> None \<and> sid \<in> snd ` set (fd_to_session_map ?lt)" if "sid \<in> set sids'" for sid
      using Cons.prems(5) [of sid] that sids by simp
    ultimately show thesis using Cons.IH [of ?lt, where w = w1] that by blast
  qed
  have e: "?lt\<lparr>clients := (clients ?lt)(cid \<mapsto> c\<lparr>session_queue := sids' @ rest\<rparr>\<lparr>session_queue := rest\<rparr>)\<rparr> =
      lt\<lparr>clients := (clients lt)(cid \<mapsto> c\<lparr>session_queue := rest\<rparr>)\<rparr>" by simp
  have "deliver_all (answer S cid) (m # ms) (lt, w) =
      Inr (lt\<lparr>clients := (clients lt)(cid \<mapsto> c\<lparr>session_queue := rest\<rparr>)\<rparr>, w')"
    unfolding deliver_all.simps one(1) andThen_Inr IH(1) e by (rule refl)
  moreover have "sent V w' h = sent V w h @ answered (sessions lt) h (zip sids (m # ms))" for h
    using one(4) IH(4) sids by (simp add: answered_def)
  moreover have "inq V w' = inq V w" "live V w' = live V w" using one(2,3) IH(2,3) by simp_all
  ultimately show ?case by blast
qed

text \<open>More replies than sessions waiting: the queue runs empty.\<close>

lemma deliver_too_many:
  assumes S: "libevent_ok S V" "no_failure S V" and c: "clients lt cid = Some c"
    and len: "length (session_queue c) < length ms" and ms: "\<And>m. m \<in> set ms \<Longrightarrow> length m < 2 ^ 32"
    and s: "\<And>sid. sid \<in> set (session_queue c) \<Longrightarrow> sessions lt sid \<noteq> None \<and> sid \<in> snd ` set (fd_to_session_map lt)"
  shows "deliver_all (answer S cid) ms (lt, w) = Inl EmptyQueue"
proof -
  define k where "k = length (session_queue c)"
  obtain w' where "deliver_all (answer S cid) (take k ms) (lt, w) =
      Inr (lt\<lparr>clients := (clients lt)(cid \<mapsto> c\<lparr>session_queue := []\<rparr>)\<rparr>, w')"
    using deliver_replies [OF S c, of "session_queue c" "[]" "take k ms" w] len ms s
    by (auto simp: k_def dest: in_set_takeD)
  moreover obtain m rest where "drop k ms = m # rest"
    using len by (cases "drop k ms") (auto simp: k_def)
  ultimately have "deliver_all (answer S cid) (take k ms @ drop k ms) (lt, w) = Inl EmptyQueue"
    unfolding deliver_all_append by (simp add: answer_def redis_cb_def)
  then show ?thesis by simp
qed

end
