(* ===== verification/Dispatch_Props.thy ===== *)
theory Dispatch_Props
  imports Dispatch_Reads
begin

text \<open>
  The properties of the traffic dispatcher: requests are forwarded once each and in turn, replies
  go back to the waiting sessions in order, and the inputs and counters for which this fails.
\<close>

section \<open>A loop thread for the witnesses\<close>

definition demo_session :: tcp_session where
  "demo_session = \<lparr> s_fd = 3, s_bev_sptr = Bev 0, s_isClosing = False, sIdGenerater = 0 \<rparr>"

definition demo_client :: "nat list \<Rightarrow> redis_client" where
  "demo_client q = (new_redis_client example_info)\<lparr>bev_sptr := Bev 1, isConnected := True, session_queue := q\<rparr>"

definition demo_thread :: "nat list \<Rightarrow> loop_thread" where
  "demo_thread q =
     (new_loop_thread True)\<lparr>evfd := 5, event_client_sptr := Some 5, fd_to_session_map := [(3, 0)],
       connection_sptr_vector := [Some 1], sessions := [0 \<mapsto> demo_session], clients := [1 \<mapsto> demo_client q],
       next_addr := 2\<rparr>"

lemma demo_sel [simp]:
  "sessions (demo_thread q) 0 = Some demo_session" "clients (demo_thread q) 1 = Some (demo_client q)"
  "clients (demo_thread q) (Suc 0) = Some (demo_client q)"
  "connection_sptr_vector (demo_thread q) = [Some 1]" "fd_to_session_map (demo_thread q) = [(3, 0)]"
  "tls_set (demo_thread q)" "evfd (demo_thread q) = 5" "event_client_sptr (demo_thread q) = Some 5"
  "task_queue (demo_thread q) = []"
  "bev_sptr (demo_client q) = Bev 1" "isConnected (demo_client q)" "\<not> isClosing (demo_client q)"
  "session_queue (demo_client q) = q"
  "s_bev_sptr demo_session = Bev 0" "\<not> s_isClosing demo_session" "sIdGenerater demo_session = 0" "s_fd demo_session = 3"
  by (simp_all add: demo_thread_def demo_client_def demo_session_def new_redis_client_def new_loop_thread_def)

lemma demo_can_dispatch: "can_dispatch (demo_thread q) 0 demo_session"
  by (simp add: can_dispatch_def allocated_def)

lemma demo_open: "open_handle (clients (demo_thread q)) (Some 1) \<noteq> None"
  by (simp add: open_handle_def)

section \<open>Views of a buffer\<close>

lemma whole_view:
  assumes S: "libevent_ok S V" "no_failure S V" and sk: "bev_sptr sk = Bev b"
  obtains rest w' where "viewInputBuffer S sk (length (inq V w b)) w = (Some (inq V w b @ rest), w')" "keeps V w w'"
proof -
  obtain r w' where v: "viewInputBuffer S sk (length (inq V w b)) w = (r, w')" by (rule prod.exhaust)
  have "r \<noteq> None" using no_failure_pullup [OF S(2)] v sk by (simp add: viewInputBuffer_def)
  then obtain mem where "r = Some mem" by auto
  with socket_read_laws(2) [OF S(1) sk v] v that show thesis by auto
qed

lemma session_whole_view:
  assumes "libevent_ok S V" and "no_failure S V" and "sessions lt sid = Some s" and "s_bev_sptr s = Bev b"
  obtains rest w' where "sess_view S sid (length (inq V w b)) (lt, w) = (Some (inq V w b @ rest), (lt, w'))" "keeps V w w'"
proof -
  have "bev_sptr (as_socket s) = Bev b" using assms(4) by (simp add: as_socket_def)
  from whole_view [OF assms(1,2) this, of w] obtain rest w' where
    "session_viewInputBuffer S s (length (inq V w b)) w = (Some (inq V w b @ rest), w')" "keeps V w w'"
    unfolding session_as_socket by blast
  with assms(3) that show thesis by (simp add: sess_view_def)
qed

lemma client_whole_view:
  assumes "libevent_ok S V" and "no_failure S V" and "clients lt cid = Some c" and "bev_sptr c = Bev b"
  obtains rest w' where "cli_view S cid (length (inq V w b)) (lt, w) = (Some (inq V w b @ rest), (lt, w'))" "keeps V w w'"
proof -
  from whole_view [OF assms(1,2,4), of w] obtain rest w' where
    "viewInputBuffer S c (length (inq V w b)) w = (Some (inq V w b @ rest), w')" "keeps V w w'" by blast
  with assms(3) that show thesis by (simp add: cli_view_def)
qed

text \<open>
  The input of a buffer is complete tokens, or ends inside one; in the second case the bytes behind
  its view must be no LF.
\<close>

definition cut_ok :: "'w sys \<Rightarrow> bytes \<Rightarrow> bool" where
  "cut_ok S p \<longleftrightarrow> (p = [] \<or> unfinished p \<and> clean_views S)"

lemma cut_ok_empty [simp]: "cut_ok S []"
  by (simp add: cut_ok_def)

text \<open>
  Input that the parser takes apart into the values that were sent (see \<open>Resp_Values\<close>): values one
  after the other, an array only as the last of them, or the beginning of a value behind values that
  are no arrays; and not too much for the 32 bits of \<open>getInputBufferLength\<close>.
\<close>

definition legible :: "'w sys \<Rightarrow> bytes \<Rightarrow> resp list \<Rightarrow> bytes \<Rightarrow> bool" where
  "legible S input vs rest \<longleftrightarrow> arrives input vs rest \<and> (rest = [] \<or> clean_views S) \<and> length input < 2 ^ 32"

lemma legibleE:
  assumes "legible S input vs rest"
  obtains ts p where "input = tokens_bytes ts @ p" "list_all plain ts" "cut_ok S p" "taken_msgs ts p = map resp_bytes vs"
    "length input < 2 ^ 32" "drop (length (concat (taken_msgs ts p))) input = rest"
proof -
  note l = assms [unfolded legible_def]
  from l [THEN conjunct1] obtain ts p where t: "input = tokens_bytes ts @ p" "list_all plain ts" "p = [] \<longleftrightarrow> rest = []"
    "p = [] \<or> unfinished p" "(if p = [] then frames ts else map token_bytes (closed_prefix ts)) = map resp_bytes vs"
    by (rule arrives_tokens)
  have "taken_msgs ts p = map resp_bytes vs" using t(5) by (simp add: taken_msgs_def)
  moreover from this have "drop (length (concat (taken_msgs ts p))) input = rest"
    using arrives_drop [OF l [THEN conjunct1]] by (simp add: values_bytes_def)
  moreover have "cut_ok S p" using t(3,4) l by (auto simp: cut_ok_def)
  ultimately show thesis using that t(1,2) l by blast
qed

lemma legible_whole: "legible S (values_bytes vs) vs [] \<longleftrightarrow>
    list_all plain_value vs \<and> separate vs \<and> length (values_bytes vs) < 2 ^ 32"
  by (simp add: legible_def arrives_whole)

lemma clean_tail:
  assumes "cut_ok S p" and "p \<noteq> []" and "viewInputBuffer S sk n w = (Some mem, w')"
  shows "unfinished p \<and> (\<exists>x y rest. drop n mem = x # y # rest \<and> x \<noteq> LF \<and> y \<noteq> LF)"
proof -
  obtain b where "input_pullup S b n w = (Some mem, w')"
    using assms(3) by (auto simp: viewInputBuffer_def split: option.splits)
  moreover have "clean_views S" "unfinished p" using assms(1,2) by (simp_all add: cut_ok_def)
  ultimately show ?thesis unfolding clean_views_def by blast
qed

lemma drain_done:
  assumes S: "libevent_ok S V" "no_failure S V" and sk: "bev_sptr sk = Bev b"
    and d: "drainInputBuffer S sk n w = (ok, w')"
  shows "inq V w' = (inq V w)(b := drop n (inq V w b))" and "sent V w' = sent V w" and "live V w' = live V w"
proof -
  have ok using d sk no_failure_drain [OF S(2)] by (auto simp: drainInputBuffer_def split: prod.splits)
  with socket_read_laws(3) [OF S(1) sk d] show "inq V w' = (inq V w)(b := drop n (inq V w b))"
    and "sent V w' = sent V w" and "live V w' = live V w" by simp_all
qed

lemma length_frame: "m \<in> set (frames ts) \<Longrightarrow> length m \<le> length (tokens_bytes ts)"
proof -
  have "m \<in> set fs \<Longrightarrow> length m \<le> length (concat fs)" for fs :: "bytes list"
    by (induction fs) auto
  then show "m \<in> set (frames ts) \<Longrightarrow> length m \<le> length (tokens_bytes ts)" by (metis concat_frames)
qed

section \<open>Requests\<close>

lemma choices_open:
  assumes "p \<in> set vec" and "open_handle cs p \<noteq> None"
  shows "length (choices vec cs g j) = j" and "i \<in> set (choices vec cs g j) \<Longrightarrow> open_handle cs (vec ! i) \<noteq> None"
proof -
  show "length (choices vec cs g j) = j"
  proof (induction j arbitrary: g)
    case (Suc j)
    obtain k where "first_open vec cs g = Some k" by (rule first_open_exists [OF assms])
    with Suc show ?case by simp
  qed simp
  show "i \<in> set (choices vec cs g j) \<Longrightarrow> open_handle cs (vec ! i) \<noteq> None"
  proof (induction j arbitrary: g)
    case (Suc j)
    obtain k where "first_open vec cs g = Some k" by (rule first_open_exists [OF assms])
    with Suc first_open_Some(2) [OF this] show ?case by auto
  qed simp
qed

text \<open>
  A read of a session, from what its request callback does to the messages taken (\<open>G\<close> is what is
  known of the counter afterwards).
\<close>

lemma session_reads_counter:
  assumes S: "libevent_ok S V" "no_failure S V" and ses: "sessions lt sid = Some s" "s_bev_sptr s = Bev b"
    and input: "inq V w b = tokens_bytes ts @ p" "list_all plain ts" "length (inq V w b) < 2 ^ 32" "cut_ok S p"
    and d: "\<And>w1. \<exists>gen w2. deliver_all (dispatch S sid) (taken_msgs ts p) (lt, w1) = Inr (with_gen lt sid s gen cs, w2) \<and> G gen \<and>
      inq V w2 = inq V w1 \<and> live V w2 = live V w1 \<and> (\<forall>h. sent V w2 h = sent V w1 h @ out h)"
  obtains gen w' where "session_onRead S sid (lt, w) = Inr (with_gen lt sid s gen cs, w')" "G gen"
    "inq V w' = (inq V w)(b := drop (length (concat (taken_msgs ts p))) (inq V w b))" "live V w' = live V w"
    "\<And>h. sent V w' h = sent V w h @ out h"
proof -
  note result = that
  have unchanged: thesis if t: "taken_msgs ts p = []" and r: "session_onRead S sid (lt, w) = Inr (lt, w1)" and k: "keeps V w w1" for w1
  proof -
    obtain gen where "lt = with_gen lt sid s gen cs" "G gen" "\<forall>h. out h = []" using d [of w1] t by auto
    show thesis by (rule result [of gen w1]) (use \<open>lt = with_gen lt sid s gen cs\<close> \<open>G gen\<close> \<open>\<forall>h. out h = []\<close> t r k in \<open>simp_all add: keeps_def\<close>)
  qed
  show thesis
  proof (cases "inq V w b = []")
    case True
    then have t: "taken_msgs ts p = []" using input(1) by (cases ts) (simp_all add: token_bytes_head)
    have "session_getInputBufferLength S s w = 0"
      using socket_read_laws(1) [OF S(1), of "as_socket s" b w] ses True
      by (simp add: session_as_socket as_socket_def to_uint32_def)
    then have r: "session_onRead S sid (lt, w) = Inr (lt, w)" using ses by (simp add: session_onRead_def)
    show thesis by (rule unchanged [OF t r]) simp
  next
    case False
    have good: "has_session S V sid b (lt, w)" using S(1) ses by (simp add: has_session_def)
    obtain rest w1 where v: "sess_view S sid (length (inq V w b)) (lt, w) = (Some (inq V w b @ rest), (lt, w1))"
      and k1: "keeps V w w1" by (rule session_whole_view [OF S ses])
    have "viewInputBuffer S (as_socket s) (length (inq V w b)) w = (Some (inq V w b @ rest), w1)"
      using v ses(1) by (cases "viewInputBuffer S (as_socket s) (length (inq V w b)) w") (simp add: sess_view_def session_as_socket)
    note tail = clean_tail [OF input(4) _ this]
    have run: "session_onRead S sid (lt, w) = andThen (deliver_all (dispatch S sid) (taken_msgs ts p) (lt, w1))
        (\<lambda>\<sigma>. Inr (if taken_msgs ts p = [] then \<sigma> else snd (sess_drain S sid (length (concat (taken_msgs ts p))) \<sigma>)))"
      unfolding session_onRead_handler [OF ses(1)]
      using sess_read.handler_taken [OF good, unfolded prod.case, OF input(1,2) False input(3) tail v
          session_cb_hands_over [of S sid]] by simp
    show thesis
    proof (cases "taken_msgs ts p = []")
      case True
      with run have "session_onRead S sid (lt, w) = Inr (lt, w1)" by simp
      from unchanged [OF True this k1] show thesis .
    next
      case False
      obtain gen w2 where d2: "deliver_all (dispatch S sid) (taken_msgs ts p) (lt, w1) = Inr (with_gen lt sid s gen cs, w2)" "G gen"
        "inq V w2 = inq V w1" "live V w2 = live V w1" "\<And>h. sent V w2 h = sent V w1 h @ out h"
        using d [of w1] by blast
      obtain ok w3 where d3: "drainInputBuffer S (as_socket (s\<lparr>sIdGenerater := gen\<rparr>)) (length (concat (taken_msgs ts p))) w2 = (ok, w3)"
        by (rule prod.exhaust)
      have sk: "bev_sptr (as_socket (s\<lparr>sIdGenerater := gen\<rparr>)) = Bev b" using ses by (simp add: as_socket_def)
      note fin = drain_done [OF S sk d3]
      have "session_onRead S sid (lt, w) = Inr (with_gen lt sid s gen cs, w3)"
        unfolding run d2(1) using d3 False by (simp add: sess_drain_def session_as_socket)
      then show thesis by (rule result) (use fin d2(2-5) k1 in \<open>simp_all add: keeps_def\<close>)
    qed
  qed
qed

lemma session_reads:
  assumes S: "libevent_ok S V" "no_failure S V" and ses: "sessions lt sid = Some s" "s_bev_sptr s = Bev b"
    and input: "inq V w b = tokens_bytes ts @ p" "list_all plain ts" "length (inq V w b) < 2 ^ 32" "cut_ok S p"
    and d: "\<And>w1. \<exists>gen w2. deliver_all (dispatch S sid) (taken_msgs ts p) (lt, w1) = Inr (with_gen lt sid s gen cs, w2) \<and>
      inq V w2 = inq V w1 \<and> live V w2 = live V w1 \<and> (\<forall>h. sent V w2 h = sent V w1 h @ out h)"
  obtains gen w' where "session_onRead S sid (lt, w) = Inr (with_gen lt sid s gen cs, w')"
    "inq V w' = (inq V w)(b := drop (length (concat (taken_msgs ts p))) (inq V w b))" "live V w' = live V w"
    "\<And>h. sent V w' h = sent V w h @ out h"
  by (rule session_reads_counter [OF S ses input, where G = "\<lambda>_. True" and cs = cs and out = out]) (use d that in auto)

lemma session_reads_requests:
  assumes S: "libevent_ok S V" "no_failure S V" and d: "can_dispatch lt sid s" and b: "s_bev_sptr s = Bev b"
    and input: "inq V w b = tokens_bytes ts @ p" "list_all plain ts" "length (inq V w b) < 2 ^ 32" "cut_ok S p"
    and q: "q \<in> set (connection_sptr_vector lt)" "open_handle (clients lt) q \<noteq> None"
    and g: "unat (sIdGenerater s) + length (taken_msgs ts p) * length (connection_sptr_vector lt) < 2 ^ 32"
  obtains gen w' where "session_onRead S sid (lt, w) =
      Inr (with_gen lt sid s gen (push_many (\<lambda>cid. queued_on (connection_sptr_vector lt) cid
        (choices (connection_sptr_vector lt) (clients lt) (unat (sIdGenerater s)) (length (taken_msgs ts p)))) sid (clients lt)), w')"
    "inq V w' = (inq V w)(b := drop (length (concat (taken_msgs ts p))) (inq V w b))" "live V w' = live V w"
    "\<And>h. sent V w' h = sent V w h @ sent_to (connection_sptr_vector lt) (clients lt) h
       (zip (choices (connection_sptr_vector lt) (clients lt) (unat (sIdGenerater s)) (length (taken_msgs ts p))) (taken_msgs ts p))"
proof (rule session_reads [OF S _ b input])
  show "sessions lt sid = Some s" using d by (simp add: can_dispatch_def)
  have "length m < 2 ^ 32" if "m \<in> set (taken_msgs ts p)" for m
    using length_taken [OF that] input(1,3) by simp
  then show "\<exists>gen w2. deliver_all (dispatch S sid) (taken_msgs ts p) (lt, w1) =
      Inr (with_gen lt sid s gen (push_many (\<lambda>cid. queued_on (connection_sptr_vector lt) cid
        (choices (connection_sptr_vector lt) (clients lt) (unat (sIdGenerater s)) (length (taken_msgs ts p)))) sid (clients lt)), w2) \<and>
    inq V w2 = inq V w1 \<and> live V w2 = live V w1 \<and> (\<forall>h. sent V w2 h = sent V w1 h @
      sent_to (connection_sptr_vector lt) (clients lt) h
       (zip (choices (connection_sptr_vector lt) (clients lt) (unat (sIdGenerater s)) (length (taken_msgs ts p))) (taken_msgs ts p)))" for w1
    by (rule deliver_requests [OF S d q g])
qed (rule that)

text \<open>The same when the input is complete.\<close>

lemma session_reads_whole:
  assumes "libevent_ok S V" and "no_failure S V" and "can_dispatch lt sid s" and "s_bev_sptr s = Bev b"
    and "inq V w b = tokens_bytes ts" and "list_all plain ts" and "length (tokens_bytes ts) < 2 ^ 32"
    and "q \<in> set (connection_sptr_vector lt)" and "open_handle (clients lt) q \<noteq> None"
    and "unat (sIdGenerater s) + length (frames ts) * length (connection_sptr_vector lt) < 2 ^ 32"
    and "places = choices (connection_sptr_vector lt) (clients lt) (unat (sIdGenerater s)) (length (frames ts))"
  shows "\<exists>gen w'. session_onRead S sid (lt, w) =
      Inr (with_gen lt sid s gen (push_many (\<lambda>cid. queued_on (connection_sptr_vector lt) cid places) sid (clients lt)), w') \<and>
    inq V w' = (inq V w)(b := []) \<and>
    (\<forall>h. sent V w' h = sent V w h @ sent_to (connection_sptr_vector lt) (clients lt) h (zip places (frames ts)))"
proof -
  have input: "inq V w b = tokens_bytes ts @ []" "length (inq V w b) < 2 ^ 32" using assms(5,7) by simp_all
  show ?thesis
    by (rule session_reads_requests [OF assms(1-4) input(1) assms(6) input(2) cut_ok_empty assms(8,9)])
      (use assms(5,10,11) in \<open>auto simp: concat_frames\<close>)
qed

text \<open>
  C6: requests are forwarded. When a session's input is complete requests (RESP values without a CR in
  a payload, of which only the last may be an array with elements, and perhaps the beginning of
  another one) and some connection of the thread is open (connected, with a bufferevent, not
  closing), the read callback consumes exactly these requests, and every one of them goes to exactly
  one connection: to the first open one from the session's counter on, the counter then pointing
  behind it. That connection is sent the bytes of the request and gets the session once more at the
  end of its reply queue; nothing else changes on any connection. This holds as long as the counter
  does not wrap at \<open>2 ^ 32\<close> and the thread has fewer than 65535 connections.
\<close>

theorem requests_forwarded:
  assumes "libevent_ok S V" and "no_failure S V" and "can_dispatch lt sid s" and "s_bev_sptr s = Bev b"
    and "legible S (inq V w b) vs rest"
    and "p \<in> set (connection_sptr_vector lt)" and "open_handle (clients lt) p \<noteq> None"
    and "unat (sIdGenerater s) + length vs * length (connection_sptr_vector lt) < 2 ^ 32"
    and "places = choices (connection_sptr_vector lt) (clients lt) (unat (sIdGenerater s)) (length vs)"
  shows "\<exists>lt' w'. session_onRead S sid (lt, w) = Inr (lt', w') \<and>
    length places = length vs \<and> inq V w' = (inq V w)(b := rest) \<and>
    clients lt' = push_many (\<lambda>cid. queued_on (connection_sptr_vector lt) cid places) sid (clients lt) \<and>
    (\<forall>h. sent V w' h = sent V w h @ sent_to (connection_sptr_vector lt) (clients lt) h (zip places (map resp_bytes vs)))"
proof -
  obtain ts q where i: "inq V w b = tokens_bytes ts @ q" "list_all plain ts" "cut_ok S q" and t: "taken_msgs ts q = map resp_bytes vs"
    and l: "length (inq V w b) < 2 ^ 32" and d: "drop (length (concat (taken_msgs ts q))) (inq V w b) = rest"
    by (rule legibleE [OF assms(5)])
  have g: "unat (sIdGenerater s) + length (taken_msgs ts q) * length (connection_sptr_vector lt) < 2 ^ 32" using assms(8) t by simp
  show ?thesis
    by (rule session_reads_requests [OF assms(1-4) i(1,2) l i(3) assms(6,7) g])
      (use choices_open(1) [OF assms(6,7)] assms(9) t d in auto)
qed

lemma legible_PING: "legible S (tokens_bytes [TString ''PING'']) [SimpleString ''PING''] []"
  using legible_whole [of S "[SimpleString ''PING'']"] by (simp add: plain_value_def resp_bytes_def)

lemma requests_forwarded_witness:
  "\<exists>lt' w'. session_onRead sim_sys 0 (demo_thread [], sim_state (tokens_bytes [TString ''PING'']) []) = Inr (lt', w') \<and>
    length [0 :: nat] = length [SimpleString ''PING''] \<and>
    inq sim_view w' = (inq sim_view (sim_state (tokens_bytes [TString ''PING'']) []))(0 := []) \<and>
    clients lt' = push_many (\<lambda>cid. queued_on (connection_sptr_vector (demo_thread [])) cid [0]) 0 (clients (demo_thread [])) \<and>
    (\<forall>h. sent sim_view w' h = sent sim_view (sim_state (tokens_bytes [TString ''PING'']) []) h @
      sent_to (connection_sptr_vector (demo_thread [])) (clients (demo_thread [])) h (zip [0] (map resp_bytes [SimpleString ''PING''])))"
proof (rule requests_forwarded [OF sim_ok sim_no_failure demo_can_dispatch, where p = "Some 1"])
  have "inq sim_view (sim_state (tokens_bytes [TString ''PING'']) []) 0 = tokens_bytes [TString ''PING'']"
    by (simp add: sim_view_def sim_state_def)
  then show "legible sim_sys (inq sim_view (sim_state (tokens_bytes [TString ''PING'']) []) 0) [SimpleString ''PING''] []"
    using legible_PING by simp
qed (use demo_open [of "[]"] in \<open>simp_all add: first_open_def open_handle_def\<close>)

lemma first_open_all:
  assumes "vec \<noteq> []" and "\<And>p. p \<in> set vec \<Longrightarrow> open_handle cs p \<noteq> None"
  shows "first_open vec cs g = Some 0"
proof -
  have "open_handle cs (vec ! (g mod length vec)) \<noteq> None" using assms by simp
  moreover have "[0..<length vec] = 0 # [Suc 0..<length vec]" using assms(1) by (simp add: upt_conv_Cons)
  ultimately show ?thesis by (simp add: first_open_def)
qed

lemma choices_all_open:
  assumes "vec \<noteq> []" and "\<And>p. p \<in> set vec \<Longrightarrow> open_handle cs p \<noteq> None"
  shows "choices vec cs g j = map (\<lambda>i. (g + i) mod length vec) [0..<j]"
proof (induction j arbitrary: g)
  case (Suc j)
  have "map (\<lambda>i. (g + i) mod length vec) [0..<Suc j] =
      g mod length vec # map (\<lambda>i. (Suc g + i) mod length vec) [0..<j]"
    by (subst upt_conv_Cons) (simp_all add: map_Suc_upt [symmetric] comp_def del: upt_Suc)
  with Suc first_open_all [OF assms] show ?case by simp
qed simp

lemma dispatch_dropped:
  assumes "can_dispatch lt sid s" and "\<And>p. p \<in> set (connection_sptr_vector lt) \<Longrightarrow> open_handle (clients lt) p = None"
  shows "\<exists>gen. dispatch S sid m (lt, w) = Inr (with_gen lt sid s gen (clients lt), w)"
proof -
  have d: "sessions lt sid = Some s" "tls_set lt" "connection_sptr_vector lt \<noteq> []"
    "allocated (clients lt) (connection_sptr_vector lt)" using assms(1) by (simp_all add: can_dispatch_def)
  have "mem_slice m 0 (length m) = Inr m" by (simp add: mem_slice_whole)
  from try_none [OF d(4,3) this assms(2), of S sid "of_nat (length (connection_sptr_vector lt)) + 1" "sIdGenerater s" w]
  show ?thesis using d by (auto simp: dispatch_def session_cb_def with_gen_def)
qed

lemma deliver_dropped:
  assumes "can_dispatch lt sid s" and "\<And>p. p \<in> set (connection_sptr_vector lt) \<Longrightarrow> open_handle (clients lt) p = None"
  shows "\<exists>gen. deliver_all (dispatch S sid) ms (lt, w) = Inr (with_gen lt sid s gen (clients lt), w)"
  using assms
proof (induction ms arbitrary: lt s)
  case Nil
  then have "with_gen lt sid s (sIdGenerater s) (clients lt) = lt"
    by (simp add: can_dispatch_def with_gen_def fun_upd_idem)
  then show ?case by (intro exI [of _ "sIdGenerater s"]) simp
next
  case (Cons m ms)
  obtain gen where one: "dispatch S sid m (lt, w) = Inr (with_gen lt sid s gen (clients lt), w)"
    using dispatch_dropped [OF Cons.prems, of S m w] by blast
  have "can_dispatch (with_gen lt sid s gen (clients lt)) sid (s\<lparr>sIdGenerater := gen\<rparr>)"
    using Cons.prems(1) by (intro can_dispatch_with_gen) (auto simp: can_dispatch_def)
  from Cons.IH [OF this] Cons.prems(2) obtain gen' where
    "deliver_all (dispatch S sid) ms (with_gen lt sid s gen (clients lt), w) =
      Inr (with_gen lt sid s gen' (clients lt), w)" by auto
  with one show ?case by auto
qed

text \<open>
  C33: when no connection of the thread is open, requests are consumed and dropped: the message is
  sent to no connection and queued on none, and the session is told nothing.
\<close>
theorem requests_dropped_without_connection:
  assumes "libevent_ok S V" and "no_failure S V" and "can_dispatch lt sid s" and "s_bev_sptr s = Bev b"
    and "inq V w b = tokens_bytes ts" and "list_all plain ts" and "ts \<noteq> []" and "length (tokens_bytes ts) < 2 ^ 32"
    and "\<And>p. p \<in> set (connection_sptr_vector lt) \<Longrightarrow> open_handle (clients lt) p = None"
  shows "\<exists>lt' w'. session_onRead S sid (lt, w) = Inr (lt', w') \<and> inq V w' = (inq V w)(b := []) \<and>
    sent V w' = sent V w \<and> clients lt' = clients lt \<and> task_queue lt' = task_queue lt"
proof -
  have s: "sessions lt sid = Some s" using assms(3) by (simp add: can_dispatch_def)
  have input: "inq V w b = tokens_bytes ts @ []" "length (inq V w b) < 2 ^ 32" using assms(5,8) by simp_all
  have d: "\<exists>gen w2. deliver_all (dispatch S sid) (taken_msgs ts []) (lt, w1) = Inr (with_gen lt sid s gen (clients lt), w2) \<and>
      inq V w2 = inq V w1 \<and> live V w2 = live V w1 \<and> (\<forall>h. sent V w2 h = sent V w1 h @ [])" for w1
    using deliver_dropped [OF assms(3,9), of S "taken_msgs ts []" w1] by auto
  obtain gen w' where "session_onRead S sid (lt, w) = Inr (with_gen lt sid s gen (clients lt), w')"
    "inq V w' = (inq V w)(b := drop (length (concat (taken_msgs ts []))) (inq V w b))" "\<And>h. sent V w' h = sent V w h @ []"
    by (rule session_reads [OF assms(1,2) s assms(4) input(1) assms(6) input(2) cut_ok_empty, where cs = "clients lt" and out = "\<lambda>h. []", OF d]) (rule that)
  then show ?thesis using assms(5) by (auto simp: concat_frames)
qed

lemma requests_dropped_without_connection_witness:
  "\<exists>lt' w'. session_onRead sim_sys 0 ((demo_thread [])\<lparr>clients := [1 \<mapsto> (demo_client [])\<lparr>isConnected := False\<rparr>]\<rparr>,
      sim_state (tokens_bytes [TString ''PING'']) []) = Inr (lt', w') \<and>
    inq sim_view w' = (inq sim_view (sim_state (tokens_bytes [TString ''PING'']) []))(0 := []) \<and>
    sent sim_view w' = sent sim_view (sim_state (tokens_bytes [TString ''PING'']) []) \<and>
    clients lt' = clients ((demo_thread [])\<lparr>clients := [1 \<mapsto> (demo_client [])\<lparr>isConnected := False\<rparr>]\<rparr>) \<and>
    task_queue lt' = task_queue ((demo_thread [])\<lparr>clients := [1 \<mapsto> (demo_client [])\<lparr>isConnected := False\<rparr>]\<rparr>)"
  by (rule requests_dropped_without_connection [OF sim_ok sim_no_failure, where ts = "[TString ''PING'']" and s = demo_session])
    (simp_all add: sim_view_def sim_state_def can_dispatch_def allocated_def open_handle_def)

text \<open>
  The 32-bit counter wraps to 0, which is no multiple of 7 away from \<open>2 ^ 32\<close>: with seven
  connections and the counter four below the limit, the eight rounds of the loop visit the
  connections 0, 1, 2, 3 twice and never the others. When the first four are not open the message
  is dropped, even though the others may be.
\<close>

theorem counter_wrap_skips_connections:
  assumes "length vec = 7" and "allocated cs vec" and "mem_slice buf off n = Inr m"
    and "\<And>i. i < 4 \<Longrightarrow> open_handle cs (vec ! i) = None"
  shows "try_connections S sid buf off n vec (of_nat (length vec) + 1) 0xFFFFFFFC cs w = Inr (False, 4, cs, w)"
proof -
  have ne: "vec \<noteq> []" using assms(1) by auto
  have step: "try_connections S sid buf off n vec retry gen cs w =
      (if retry - 1 \<noteq> 0 then try_connections S sid buf off n vec (retry - 1) (gen + 1) cs w
       else Inr (False, gen + 1, cs, w))" if "unat gen mod 7 < 4" for retry gen
  proof (rule try_skip [OF _ assms(2) ne assms(3)])
    show "open_handle cs (conn_at vec gen) = None" using assms(1,4) that by simp
  qed
  show ?thesis by (simp add: assms(1) step)
qed

lemma counter_wrap_skips_connections_witness:
  "open_handle [1 \<mapsto> demo_client []] ([None, None, None, None, None, Some 1, None] ! 5) = Some 1 \<and>
   try_connections sim_sys 0 ''x'' 0 1 [None, None, None, None, None, Some 1, None]
     (of_nat (length [None, None, None, None, None, Some (1 :: nat), None]) + 1) 0xFFFFFFFC [1 \<mapsto> demo_client []] (sim_state [] []) =
   Inr (False, 4, [1 \<mapsto> demo_client []], sim_state [] [])"
proof
  show "open_handle [1 \<mapsto> demo_client []] ([None, None, None, None, None, Some 1, None] ! 5) = Some 1"
    by (simp add: open_handle_def)
  have "[None, None, None, None, None, Some (1 :: nat), None] ! i = None" if "i < 4" for i
  proof -
    from that have "i = 0 \<or> i = 1 \<or> i = 2 \<or> i = 3" by linarith
    then show ?thesis by auto
  qed
  then show "try_connections sim_sys 0 ''x'' 0 1 [None, None, None, None, None, Some 1, None]
     (of_nat (length [None, None, None, None, None, Some (1 :: nat), None]) + 1) 0xFFFFFFFC [1 \<mapsto> demo_client []] (sim_state [] []) =
   Inr (False, 4, [1 \<mapsto> demo_client []], sim_state [] [])"
    by (intro counter_wrap_skips_connections)
      (auto simp: allocated_def mem_slice_def open_handle_def simp del: nth_Cons_numeral)
qed

text \<open>
  The retry counter has 16 bits: with 65536 connections it starts at 1, and only the one
  connection the round-robin counter points to is tried. If that one is not open, the message is
  dropped, whatever the other 65535 are.
\<close>

theorem retry_counter_truncated:
  assumes "length vec = 65536" and "allocated cs vec" and "mem_slice buf off n = Inr m"
    and "open_handle cs (vec ! (unat gen mod 65536)) = None"
  shows "try_connections S sid buf off n vec (of_nat (length vec) + 1) gen cs w = Inr (False, gen + 1, cs, w)"
proof -
  have "vec \<noteq> []" using assms(1) by auto
  moreover have "(of_nat (length vec) + 1 :: 16 word) = 1" using assms(1) by simp
  moreover have "open_handle cs (conn_at vec gen) = None" using assms(1,4) by simp
  ultimately show ?thesis
    using try_skip [OF _ assms(2) _ assms(3), of gen S sid 1 w] by (simp only:) simp
qed

lemma retry_counter_truncated_witness:
  "try_connections sim_sys 0 ''x'' 0 1 (None # replicate 65535 (Some 1))
     (of_nat (length (None # replicate 65535 (Some (1 :: nat)))) + 1) 0 [1 \<mapsto> demo_client []] (sim_state [] []) =
   Inr (False, 0 + 1, [1 \<mapsto> demo_client []], sim_state [] [])"
  by (rule retry_counter_truncated) (simp_all add: allocated_def mem_slice_def open_handle_def)

section \<open>Replies\<close>

lemma redis_reads:
  assumes S: "libevent_ok S V" "no_failure S V" and c: "clients lt cid = Some c" "bev_sptr c = Bev b"
    and input: "inq V w b = tokens_bytes ts @ p" "list_all plain ts" "inq V w b \<noteq> []" "length (inq V w b) < 2 ^ 32" "cut_ok S p"
  obtains w1 where "keeps V w w1"
    "redis_onRead S cid (lt, w) = andThen (deliver_all (answer S cid) (taken_msgs ts p) (lt, w1))
      (\<lambda>\<sigma>. Inr (if taken_msgs ts p = [] then \<sigma> else snd (cli_drain S cid (length (concat (taken_msgs ts p))) \<sigma>)))"
proof -
  have good: "has_client S V cid b (lt, w)" using S(1) c by (simp add: has_client_def)
  obtain rest w1 where v: "cli_view S cid (length (inq V w b)) (lt, w) = (Some (inq V w b @ rest), (lt, w1))"
    and k1: "keeps V w w1" by (rule client_whole_view [OF S c])
  have "viewInputBuffer S c (length (inq V w b)) w = (Some (inq V w b @ rest), w1)"
    using v c(1) by (cases "viewInputBuffer S c (length (inq V w b)) w") (simp add: cli_view_def)
  note tail = clean_tail [OF input(5) _ this]
  show thesis
    using that [OF k1]
      cli_read.handler_taken [OF good, unfolded prod.case, OF input(1-4) tail v redis_cb_hands_over [of S cid]]
    unfolding redis_onRead_handler [OF c(1)] by simp
qed

text \<open>The sessions of a queue are alive and still in the map.\<close>

definition waiting_sessions :: "loop_thread \<Rightarrow> nat list \<Rightarrow> bool" where
  "waiting_sessions lt q \<longleftrightarrow>
     list_all (\<lambda>sid. sessions lt sid \<noteq> None \<and> sid \<in> snd ` set (fd_to_session_map lt)) q"

lemma redis_reads_replies:
  assumes S: "libevent_ok S V" "no_failure S V" and c: "clients lt cid = Some c" "bev_sptr c = Bev b"
    and input: "inq V w b = tokens_bytes ts @ p" "list_all plain ts" "length (inq V w b) < 2 ^ 32" "cut_ok S p"
    and q: "session_queue c = sids @ rest" "length sids = length (taken_msgs ts p)" "waiting_sessions lt sids"
  shows "\<exists>w'. redis_onRead S cid (lt, w) =
      Inr (lt\<lparr>clients := (clients lt)(cid \<mapsto> c\<lparr>session_queue := rest\<rparr>)\<rparr>, w') \<and>
    inq V w' = (inq V w)(b := drop (length (concat (taken_msgs ts p))) (inq V w b)) \<and>
    (\<forall>h. sent V w' h = sent V w h @ answered (sessions lt) h (zip sids (taken_msgs ts p)))"
proof -
  have none: "lt\<lparr>clients := (clients lt)(cid \<mapsto> c\<lparr>session_queue := rest\<rparr>)\<rparr> = lt" if "taken_msgs ts p = []"
  proof -
    have "c\<lparr>session_queue := rest\<rparr> = c" using q(1,2) that by (cases c) simp
    moreover have "(clients lt)(cid \<mapsto> c) = clients lt" using c(1) by (rule fun_upd_idem)
    ultimately show ?thesis by simp
  qed
  show ?thesis
  proof (cases "inq V w b = []")
    case True
    then have t: "taken_msgs ts p = []" using input(1) by (cases ts) (simp_all add: token_bytes_head)
    have "redis_onRead S cid (lt, w) = Inr (lt, w)"
      using c True socket_read_laws(1) [OF S(1) c(2), of w] by (simp add: redis_onRead_def to_uint32_def)
    with none [OF t] t q(2) show ?thesis by (intro exI [of _ w]) (simp add: answered_def)
  next
    case False
    obtain w1 where k1: "keeps V w w1" and run: "redis_onRead S cid (lt, w) =
        andThen (deliver_all (answer S cid) (taken_msgs ts p) (lt, w1))
          (\<lambda>\<sigma>. Inr (if taken_msgs ts p = [] then \<sigma> else snd (cli_drain S cid (length (concat (taken_msgs ts p))) \<sigma>)))"
      by (rule redis_reads [OF S c input(1,2) False input(3,4)])
    have ms: "length m < 2 ^ 32" if "m \<in> set (taken_msgs ts p)" for m
      using length_taken [OF that] input(1,3) by simp
    have ss: "sessions lt sid \<noteq> None \<and> sid \<in> snd ` set (fd_to_session_map lt)" if "sid \<in> set sids" for sid
      using q(3) that by (simp add: waiting_sessions_def list_all_iff)
    obtain w2 where d2: "deliver_all (answer S cid) (taken_msgs ts p) (lt, w1) =
        Inr (lt\<lparr>clients := (clients lt)(cid \<mapsto> c\<lparr>session_queue := rest\<rparr>)\<rparr>, w2)"
      "inq V w2 = inq V w1" "live V w2 = live V w1"
      "\<And>h. sent V w2 h = sent V w1 h @ answered (sessions lt) h (zip sids (taken_msgs ts p))"
      using deliver_replies [OF S c(1) q(1,2) ms ss, of w1] by blast
    show ?thesis
    proof (cases "taken_msgs ts p = []")
      case True
      have "deliver_all (answer S cid) [] (lt, w1) = Inr (lt, w1)" by simp
      with run True have "redis_onRead S cid (lt, w) = Inr (lt, w1)" by simp
      with True none k1 q(2) show ?thesis by (intro exI [of _ w1]) (simp add: keeps_def answered_def)
    next
      case False
      obtain ok w3 where d3: "drainInputBuffer S (c\<lparr>session_queue := rest\<rparr>) (length (concat (taken_msgs ts p))) w2 = (ok, w3)"
        by (rule prod.exhaust)
      have sk: "bev_sptr (c\<lparr>session_queue := rest\<rparr>) = Bev b" using c(2) by simp
      note fin = drain_done [OF S sk d3]
      have "redis_onRead S cid (lt, w) = Inr (lt\<lparr>clients := (clients lt)(cid \<mapsto> c\<lparr>session_queue := rest\<rparr>)\<rparr>, w3)"
        unfolding run d2(1) using d3 False by (simp add: cli_drain_def)
      moreover have "inq V w3 = (inq V w)(b := drop (length (concat (taken_msgs ts p))) (inq V w b))"
        using fin d2(2) k1 by (simp add: keeps_def)
      moreover have "sent V w3 h = sent V w h @ answered (sessions lt) h (zip sids (taken_msgs ts p))" for h
        using fin(2) d2(4) k1 by (simp add: keeps_def)
      ultimately show ?thesis by blast
    qed
  qed
qed

text \<open>
  C7: replies go back in order. When a connection's input is complete replies (RESP values without a
  CR in a payload, of which only the last may be an array with elements, and perhaps the beginning
  of another one) and at least as many sessions wait in its queue, the read callback consumes exactly
  these replies, takes as many sessions off the queue, and sends the i-th reply to the i-th of them, in
  this order, unless that session is closing or has no bufferevent; nothing is sent anywhere else.
\<close>

theorem replies_in_order:
  assumes "libevent_ok S V" and "no_failure S V" and "clients lt cid = Some c" and "bev_sptr c = Bev b"
    and "legible S (inq V w b) rs rest"
    and "session_queue c = sids @ others" and "length sids = length rs" and "waiting_sessions lt sids"
  shows "\<exists>w'. redis_onRead S cid (lt, w) =
      Inr (lt\<lparr>clients := (clients lt)(cid \<mapsto> c\<lparr>session_queue := others\<rparr>)\<rparr>, w') \<and>
    inq V w' = (inq V w)(b := rest) \<and>
    (\<forall>h. sent V w' h = sent V w h @ answered (sessions lt) h (zip sids (map resp_bytes rs)))"
proof -
  obtain ts q where i: "inq V w b = tokens_bytes ts @ q" "list_all plain ts" "cut_ok S q" and t: "taken_msgs ts q = map resp_bytes rs"
    and l: "length (inq V w b) < 2 ^ 32" and d: "drop (length (concat (taken_msgs ts q))) (inq V w b) = rest"
    by (rule legibleE [OF assms(5)])
  show ?thesis
    using redis_reads_replies [OF assms(1-4) i(1,2) l i(3) assms(6) _ assms(8)] t d assms(7) by simp
qed

lemma legible_two: "legible S (tokens_bytes [TString ''A'', TInteger 7]) [SimpleString ''A'', Integer 7] []"
  using legible_whole [of S "[SimpleString ''A'', Integer 7]"]
  by (simp add: plain_value_def resp_bytes_def compound_def to_string_int_def to_string_digit)

lemma replies_in_order_witness:
  "\<exists>w'. redis_onRead sim_sys 1 (demo_thread [0, 0], sim_state [] (tokens_bytes [TString ''A'', TInteger 7])) =
      Inr ((demo_thread [0, 0])\<lparr>clients := (clients (demo_thread [0, 0]))(1 \<mapsto> (demo_client [0, 0])\<lparr>session_queue := []\<rparr>)\<rparr>, w') \<and>
    inq sim_view w' = (inq sim_view (sim_state [] (tokens_bytes [TString ''A'', TInteger 7])))(1 := []) \<and>
    (\<forall>h. sent sim_view w' h = sent sim_view (sim_state [] (tokens_bytes [TString ''A'', TInteger 7])) h @
      answered (sessions (demo_thread [0, 0])) h (zip [0, 0] (map resp_bytes [SimpleString ''A'', Integer 7])))"
proof (rule replies_in_order [OF sim_ok sim_no_failure])
  have "inq sim_view (sim_state [] (tokens_bytes [TString ''A'', TInteger 7])) 1 = tokens_bytes [TString ''A'', TInteger 7]"
    by (simp add: sim_view_def sim_state_def)
  then show "legible sim_sys (inq sim_view (sim_state [] (tokens_bytes [TString ''A'', TInteger 7])) 1) [SimpleString ''A'', Integer 7] []"
    using legible_two by simp
qed (simp_all add: waiting_sessions_def)

lemma redis_queue_underflow:
  assumes "libevent_ok S V" and "no_failure S V" and "clients lt cid = Some c" and "bev_sptr c = Bev b"
    and "inq V w b = tokens_bytes ts" and "list_all plain ts" and "length (tokens_bytes ts) < 2 ^ 32"
    and "length (session_queue c) < length (frames ts)" and "waiting_sessions lt (session_queue c)"
  shows "redis_onRead S cid (lt, w) = Inl EmptyQueue"
proof -
  have ne: "ts \<noteq> []" using assms(8) by auto
  have in0: "inq V w b = tokens_bytes ts @ []" "inq V w b \<noteq> []" "length (inq V w b) < 2 ^ 32"
    using assms(5,7) ne by (cases ts; simp add: token_bytes_head)+
  obtain w1 where run: "redis_onRead S cid (lt, w) =
      andThen (deliver_all (answer S cid) (taken_msgs ts []) (lt, w1))
        (\<lambda>\<sigma>. Inr (if taken_msgs ts [] = [] then \<sigma> else snd (cli_drain S cid (length (concat (taken_msgs ts []))) \<sigma>)))"
    by (rule redis_reads [OF assms(1-4) in0(1) assms(6) in0(2,3) cut_ok_empty])
  have ms: "length m < 2 ^ 32" if "m \<in> set (frames ts)" for m
    using length_frame [OF that] assms(7) by simp
  have ss: "sessions lt sid \<noteq> None \<and> sid \<in> snd ` set (fd_to_session_map lt)" if "sid \<in> set (session_queue c)" for sid
    using assms(9) that by (simp add: waiting_sessions_def list_all_iff)
  have "deliver_all (answer S cid) (frames ts) (lt, w1) = Inl EmptyQueue"
    using deliver_too_many [OF assms(1-3,8) ms ss] by blast
  with run show ?thesis by simp
qed

text \<open>
  An unsolicited reply is fatal: when a connection's input holds more complete messages than
  sessions wait in its queue, the callback calls \<open>front()\<close> on an empty queue.
\<close>
theorem unsolicited_reply_faults:
  assumes "libevent_ok S V" and "no_failure S V" and "clients lt cid = Some c" and "bev_sptr c = Bev b"
    and "inq V w b = tokens_bytes ts" and "list_all plain ts" and "length (tokens_bytes ts) < 2 ^ 32"
    and "length (session_queue c) < length (frames ts)" and "waiting_sessions lt (session_queue c)"
  shows "redis_onRead S cid (lt, w) = Inl EmptyQueue"
  by (rule redis_queue_underflow [OF assms])

lemma unsolicited_reply_faults_witness:
  "redis_onRead sim_sys 1 (demo_thread [], sim_state [] (tokens_bytes [TString ''A''])) = Inl EmptyQueue"
  by (rule unsolicited_reply_faults [OF sim_ok sim_no_failure, where ts = "[TString ''A'']" and c = "demo_client []" and b = 1])
    (simp_all add: sim_view_def sim_state_def waiting_sessions_def)

end
