(* ===== verification/Proxy_Props.thy ===== *)
theory Proxy_Props
  imports Dispatch_Props
begin

text \<open>
  The proxy end to end, over both read callbacks: a session and a database connection, with the
  network between the two callbacks free to do anything but take back what was sent.
\<close>

section \<open>One connection\<close>

lemma choices_single:
  assumes "open_handle cs p \<noteq> None"
  shows "choices [p] cs g j = replicate j 0"
proof -
  have "choices [p] cs g j = map (\<lambda>i. (g + i) mod length [p]) [0..<j]"
    by (rule choices_all_open) (use assms in auto)
  then show ?thesis by (simp add: map_replicate_const)
qed

lemma queued_on_single: "queued_on [Some cid] cid' (replicate k 0) = (if cid' = cid then k else 0)"
  by (induction k) (auto simp: queued_on_def)

lemma zip_replicate_map: "length fs = k \<Longrightarrow> zip (replicate k x) fs = map (Pair x) fs"
  by (induction fs arbitrary: k) auto

lemma sent_to_single:
  "sent_to [p] cs h (zip (replicate (length fs) 0) fs) = (if open_handle cs p = Some h then concat fs else [])"
  by (simp add: sent_to_def zip_replicate_map filter_map comp_def)

lemma answered_single:
  "answered ss h (zip (replicate (length fs) sid) fs) = (if session_handle ss sid = Some h then concat fs else [])"
  by (simp add: answered_def zip_replicate_map filter_map comp_def)

text \<open>The thread has the one connection \<open>cid\<close>, which is open with handle \<open>bc\<close>.\<close>

definition sole_connection :: "loop_thread \<Rightarrow> nat \<Rightarrow> redis_client \<Rightarrow> bev \<Rightarrow> bool" where
  "sole_connection lt cid c bc \<longleftrightarrow> tls_set lt \<and> connection_sptr_vector lt = [Some cid] \<and>
     clients lt cid = Some c \<and> isConnected c \<and> \<not> isClosing c \<and> bev_sptr c = Bev bc"

definition single_connection :: "loop_thread \<Rightarrow> nat \<Rightarrow> redis_client \<Rightarrow> bev \<Rightarrow> bool" where
  "single_connection lt cid c bc \<longleftrightarrow> sole_connection lt cid c bc \<and> session_queue c = []"

definition open_session :: "loop_thread \<Rightarrow> nat \<Rightarrow> tcp_session \<Rightarrow> bev \<Rightarrow> bool" where
  "open_session lt sid s b \<longleftrightarrow> sessions lt sid = Some s \<and> sid \<in> snd ` set (fd_to_session_map lt) \<and>
     \<not> s_isClosing s \<and> s_bev_sptr s = Bev b"

lemma forward_sole:
  assumes S: "libevent_ok S V" "no_failure S V" and c: "sole_connection lt cid c bc" and s: "open_session lt sid s b"
    and input: "inq V w b = tokens_bytes ts @ p" "list_all plain ts" "length (inq V w b) < 2 ^ 32" "cut_ok S p"
  obtains gen cs w1 where "session_onRead S sid (lt, w) = Inr (with_gen lt sid s gen cs, w1)"
    "inq V w1 = (inq V w)(b := drop (length (concat (taken_msgs ts p))) (inq V w b))"
    "sent V w1 = (sent V w)(bc := sent V w bc @ concat (taken_msgs ts p))"
    "cs cid = Some (c\<lparr>session_queue := session_queue c @ replicate (length (taken_msgs ts p)) sid\<rparr>)"
proof -
  note c' = c [unfolded sole_connection_def] and s' = s [unfolded open_session_def]
  let ?cs = "push_many (\<lambda>cid'. if cid' = cid then length (taken_msgs ts p) else 0) sid (clients lt)"
  let ?out = "\<lambda>h. if h = bc then concat (taken_msgs ts p) else []"
  have ses: "sessions lt sid = Some s" "s_bev_sptr s = Bev b" using s' by simp_all
  have oh: "open_handle (clients lt) (Some cid) = Some bc" using c' by (simp add: open_handle_def)
  have d: "can_dispatch lt sid s" using c' s' by (simp add: can_dispatch_def allocated_def)
  have ms: "length m < 2 ^ 32" if "m \<in> set (taken_msgs ts p)" for m
    using length_taken [OF that] input(1,3) by simp
  have all: "\<exists>gen w2. deliver_all (dispatch S sid) (taken_msgs ts p) (lt, w1) = Inr (with_gen lt sid s gen ?cs, w2) \<and>
      inq V w2 = inq V w1 \<and> live V w2 = live V w1 \<and> (\<forall>h. sent V w2 h = sent V w1 h @ ?out h)" for w1
  proof -
    have vec: "connection_sptr_vector lt = [Some cid]" using c' by simp
    obtain gen w2 where "deliver_all (dispatch S sid) (taken_msgs ts p) (lt, w1) = Inr (with_gen lt sid s gen ?cs, w2)"
        "inq V w2 = inq V w1" "live V w2 = live V w1" "sent V w2 = (sent V w1)(bc := sent V w1 bc @ concat (taken_msgs ts p))"
      using deliver_sole [OF S d vec oh ms, where w = w1] by blast
    then show ?thesis by (intro exI [of _ gen] exI [of _ w2]) simp
  qed
  obtain gen w' where r: "session_onRead S sid (lt, w) = Inr (with_gen lt sid s gen ?cs, w')"
    and eff: "inq V w' = (inq V w)(b := drop (length (concat (taken_msgs ts p))) (inq V w b))" "\<And>h. sent V w' h = sent V w h @ ?out h"
    by (rule session_reads [OF S ses input all]) (rule that)
  show thesis by (rule that [OF r eff(1)]) (use eff(2) c' in \<open>auto simp: push_many_def\<close>)
qed

lemma forward_single:
  assumes S: "libevent_ok S V" "no_failure S V" and c: "single_connection lt cid c bc" and s: "open_session lt sid s b"
    and input: "inq V w b = tokens_bytes ts" "list_all plain ts" "length (tokens_bytes ts) < 2 ^ 32"
  obtains gen lt1 w1 where "session_onRead S sid (lt, w) = Inr (lt1, w1)"
    "inq V w1 = (inq V w)(b := [])" "sent V w1 = (sent V w)(bc := sent V w bc @ tokens_bytes ts)"
    "clients lt1 cid = Some (c\<lparr>session_queue := replicate (length (frames ts)) sid\<rparr>)"
    "sessions lt1 sid = Some (s\<lparr>sIdGenerater := gen\<rparr>)" "fd_to_session_map lt1 = fd_to_session_map lt"
proof -
  have c': "sole_connection lt cid c bc" "session_queue c = []" using c by (simp_all add: single_connection_def)
  have in': "inq V w b = tokens_bytes ts @ []" "length (inq V w b) < 2 ^ 32" using input by simp_all
  show thesis
    by (rule forward_sole [OF S c'(1) s in'(1) input(2) in'(2) cut_ok_empty], rule that)
      (assumption | simp add: c'(2) input(1) concat_frames)+
qed

text \<open>A request and its reply, in terms of frames.\<close>

lemma frames_roundtrip:
  assumes "libevent_ok S V" and "no_failure S V" and "single_connection lt cid c bc" and "open_session lt sid s b"
    and "inq V w b = tokens_bytes ts" and "list_all plain ts" and "length (tokens_bytes ts) < 2 ^ 32" and "b \<noteq> bc"
    and "list_all plain rs" and "length (frames rs) = length (frames ts)" and "length (tokens_bytes rs) < 2 ^ 32"
  shows "\<exists>lt1 w1. session_onRead S sid (lt, w) = Inr (lt1, w1) \<and>
    sent V w1 bc = sent V w bc @ tokens_bytes ts \<and>
    (\<forall>w2. inq V w2 bc = tokens_bytes rs \<and> sent V w2 = sent V w1 \<longrightarrow>
      (\<exists>lt3 w3 c3. redis_onRead S cid (lt1, w2) = Inr (lt3, w3) \<and>
        sent V w3 b = sent V w b @ tokens_bytes rs \<and> inq V w3 bc = [] \<and>
        clients lt3 cid = Some c3 \<and> session_queue c3 = []))"
proof -
  obtain gen lt1 w1 where r1: "session_onRead S sid (lt, w) = Inr (lt1, w1)"
    "inq V w1 = (inq V w)(b := [])" "sent V w1 = (sent V w)(bc := sent V w bc @ tokens_bytes ts)"
    and cl: "clients lt1 cid = Some (c\<lparr>session_queue := replicate (length (frames ts)) sid\<rparr>)"
    and se: "sessions lt1 sid = Some (s\<lparr>sIdGenerater := gen\<rparr>)" "fd_to_session_map lt1 = fd_to_session_map lt"
    by (rule forward_single [OF assms(1-7)])
  have bc: "bev_sptr (c\<lparr>session_queue := replicate (length (frames ts)) sid\<rparr>) = Bev bc"
    using assms(3) by (simp add: single_connection_def sole_connection_def)
  have handle: "session_handle (sessions lt1) sid = Some b"
    using se assms(4) by (simp add: session_handle_def open_session_def)
  have wait: "waiting_sessions lt1 (replicate (length (frames ts)) sid)"
    using se assms(4) by (auto simp: waiting_sessions_def open_session_def list_all_iff)
  have "\<exists>lt3 w3 c3. redis_onRead S cid (lt1, w2) = Inr (lt3, w3) \<and>
        sent V w3 b = sent V w b @ tokens_bytes rs \<and> inq V w3 bc = [] \<and>
        clients lt3 cid = Some c3 \<and> session_queue c3 = []"
    if w2: "inq V w2 bc = tokens_bytes rs" "sent V w2 = sent V w1" for w2
  proof -
    obtain w3 where r3: "redis_onRead S cid (lt1, w2) =
        Inr (lt1\<lparr>clients := (clients lt1)(cid \<mapsto> c\<lparr>session_queue := replicate (length (frames ts)) sid\<rparr>\<lparr>session_queue := []\<rparr>)\<rparr>, w3)"
      "inq V w3 = (inq V w2)(bc := [])"
      "\<And>h. sent V w3 h = sent V w2 h @ answered (sessions lt1) h (zip (replicate (length (frames ts)) sid) (frames rs))"
      using redis_reads_replies [OF assms(1,2) cl bc _ assms(9) _ cut_ok_empty, of w2 "replicate (length (frames ts)) sid" "[]"]
        w2(1) assms(10,11) wait by (auto simp: concat_frames)
    have "sent V w3 b = sent V w b @ tokens_bytes rs"
      using r3(3) [of b] w2(2) r1(3) assms(8,10) handle answered_single [of "sessions lt1" b "frames rs" sid]
      by (simp add: concat_frames)
    with r3(1,2) show ?thesis by simp
  qed
  moreover have "sent V w1 bc = sent V w bc @ tokens_bytes ts" using r1(3) by simp
  ultimately show ?thesis using r1(1) by blast
qed

text \<open>
  C5: a request and its reply: the requests in the input of a session (RESP values without a CR in a
  payload, of which only the last may be an array with elements) reach the connection as they are, and
  when the database has answered each of them with one such value, the replies reach that session
  as they are and the connection's queue is empty again. In between the network may do anything that
  leaves the written bytes and the callbacks' objects alone. (A payload with a CR is not passed on
  whole: \<open>bulk_length_ignored\<close>.)
\<close>

theorem request_reply_roundtrip:
  assumes "libevent_ok S V" and "no_failure S V" and "single_connection lt cid c bc" and "open_session lt sid s b"
    and "legible S (inq V w b) vs []" and "b \<noteq> bc" and "legible S (values_bytes rs) rs []" and "length rs = length vs"
  shows "\<exists>lt1 w1. session_onRead S sid (lt, w) = Inr (lt1, w1) \<and>
    sent V w1 bc = sent V w bc @ values_bytes vs \<and>
    (\<forall>w2. inq V w2 bc = values_bytes rs \<and> sent V w2 = sent V w1 \<longrightarrow>
      (\<exists>lt3 w3 c3. redis_onRead S cid (lt1, w2) = Inr (lt3, w3) \<and>
        sent V w3 b = sent V w b @ values_bytes rs \<and> inq V w3 bc = [] \<and>
        clients lt3 cid = Some c3 \<and> session_queue c3 = []))"
proof -
  note v = assms(5) [unfolded legible_def arrives_def] and r = assms(7) [unfolded legible_whole]
  have "frames (values_tokens vs) = map resp_bytes vs" "frames (values_tokens rs) = map resp_bytes rs"
    using v r by (simp_all add: frames_separate)
  moreover have i: "inq V w b = values_bytes vs" using v by simp
  moreover have "length (values_bytes vs) < 2 ^ 32" using v by (auto simp: i)
  ultimately have len: "length (frames (values_tokens rs)) = length (frames (values_tokens vs))" "length (values_bytes vs) < 2 ^ 32"
    using assms(8) by simp_all
  show ?thesis
    using frames_roundtrip [OF assms(1-4) _ plain_values_tokens _ assms(6) plain_values_tokens len(1), of w] v r i len(2)
    by (simp add: tokens_bytes_values)
qed

lemma demo_single: "single_connection (demo_thread []) 1 (demo_client []) 1"
  by (simp add: single_connection_def sole_connection_def)

lemma demo_open_session: "open_session (demo_thread q) 0 demo_session 0"
  by (simp add: open_session_def)

abbreviation ping :: "token list" where "ping \<equiv> [THeader 1, TBulk ''PING'']"
abbreviation pong :: "token list" where "pong \<equiv> [TString ''PONG'']"

text \<open>The values these tokens print.\<close>

abbreviation ping_value :: resp where "ping_value \<equiv> Array [Bulk ''PING'']"
abbreviation pong_value :: resp where "pong_value \<equiv> SimpleString ''PONG''"

lemma demo_values [simp]: "resp_bytes ping_value = tokens_bytes ping" "resp_bytes pong_value = tokens_bytes pong"
  by (simp_all add: resp_bytes_def)

lemma demo_legible: "legible S (tokens_bytes ping) [ping_value] []" "legible S (tokens_bytes pong) [pong_value] []"
  using legible_whole [of S "[ping_value]"] legible_whole [of S "[pong_value]"]
  by (simp_all add: plain_value_def to_string_int_def to_string_digit)

lemma request_reply_roundtrip_witness:
  "\<exists>lt1 w1 lt3 w3 c3. session_onRead sim_sys 0 (demo_thread [], sim_state (tokens_bytes ping) []) = Inr (lt1, w1) \<and>
    sent sim_view w1 1 = tokens_bytes ping \<and>
    redis_onRead sim_sys 1 (lt1, w1\<lparr>sim_in := (\<lambda>b. tokens_bytes pong)\<rparr>) = Inr (lt3, w3) \<and>
    sent sim_view w3 0 = tokens_bytes pong \<and> clients lt3 1 = Some c3 \<and> session_queue c3 = []"
proof -
  let ?w = "sim_state (tokens_bytes ping) []"
  have sv: "inq sim_view = sim_in" "sent sim_view = sim_out" by (simp_all add: sim_view_def)
  have i: "legible sim_sys (inq sim_view ?w 0) [ping_value] []" "legible sim_sys (values_bytes [pong_value]) [pong_value] []"
    using demo_legible by (simp_all add: sv sim_state_def)
  obtain lt1 w1 where 1: "session_onRead sim_sys 0 (demo_thread [], ?w) = Inr (lt1, w1)"
    "sent sim_view w1 1 = sent sim_view ?w 1 @ values_bytes [ping_value]"
    and 2: "\<And>w2. inq sim_view w2 1 = values_bytes [pong_value] \<Longrightarrow> sent sim_view w2 = sent sim_view w1 \<Longrightarrow>
      \<exists>lt3 w3 c3. redis_onRead sim_sys 1 (lt1, w2) = Inr (lt3, w3) \<and>
        sent sim_view w3 0 = sent sim_view ?w 0 @ values_bytes [pong_value] \<and> inq sim_view w3 1 = [] \<and>
        clients lt3 1 = Some c3 \<and> session_queue c3 = []"
    using request_reply_roundtrip [OF sim_ok sim_no_failure demo_single demo_open_session i(1) _ i(2)] by auto
  obtain lt3 w3 c3 where "redis_onRead sim_sys 1 (lt1, w1\<lparr>sim_in := (\<lambda>b. tokens_bytes pong)\<rparr>) = Inr (lt3, w3)"
    "sent sim_view w3 0 = tokens_bytes pong" "clients lt3 1 = Some c3" "session_queue c3 = []"
    using 2 [of "w1\<lparr>sim_in := (\<lambda>b. tokens_bytes pong)\<rparr>"] by (auto simp: sv sim_state_def)
  with 1 show ?thesis by (auto simp: sv sim_state_def)
qed

text \<open>
  C38: pipelining breaks the pairing: when a session's input starts with an array command and
  anything complete follows it, all of it goes to the database as one message with one place in
  the reply queue. As soon as the database has answered more than once, which it does when two
  commands were sent, the read callback of the connection calls \<open>front()\<close> on an empty queue.
\<close>

theorem pipelined_commands_fault:
  assumes "libevent_ok S V" and "no_failure S V" and "single_connection lt cid c bc" and "open_session lt sid s b"
    and "inq V w b = tokens_bytes (t # ts)" and "list_all plain (t # ts)" and "opens t"
    and "length (tokens_bytes (t # ts)) < 2 ^ 32"
    and "list_all plain rs" and "1 < length (frames rs)" and "length (tokens_bytes rs) < 2 ^ 32"
  shows "\<exists>lt1 w1. session_onRead S sid (lt, w) = Inr (lt1, w1) \<and>
    sent V w1 bc = sent V w bc @ tokens_bytes (t # ts) \<and>
    (\<forall>w2. inq V w2 bc = tokens_bytes rs \<longrightarrow> redis_onRead S cid (lt1, w2) = Inl EmptyQueue)"
proof -
  have one: "length (frames (t # ts)) = 1" using assms(7) by simp
  obtain gen lt1 w1 where r1: "session_onRead S sid (lt, w) = Inr (lt1, w1)"
    "inq V w1 = (inq V w)(b := [])" "sent V w1 = (sent V w)(bc := sent V w bc @ tokens_bytes (t # ts))"
    and cl: "clients lt1 cid = Some (c\<lparr>session_queue := replicate (length (frames (t # ts))) sid\<rparr>)"
    and se: "sessions lt1 sid = Some (s\<lparr>sIdGenerater := gen\<rparr>)" "fd_to_session_map lt1 = fd_to_session_map lt"
    by (rule forward_single [OF assms(1-6,8)])
  have bc: "bev_sptr (c\<lparr>session_queue := replicate (length (frames (t # ts))) sid\<rparr>) = Bev bc"
    using assms(3) by (simp add: single_connection_def sole_connection_def)
  have "waiting_sessions lt1 (session_queue (c\<lparr>session_queue := replicate (length (frames (t # ts))) sid\<rparr>))"
    using se assms(4) by (auto simp: waiting_sessions_def open_session_def list_all_iff)
  then have "redis_onRead S cid (lt1, w2) = Inl EmptyQueue" if "inq V w2 bc = tokens_bytes rs" for w2
    using redis_queue_underflow [OF assms(1,2) cl bc that assms(9,11)] one assms(10) by simp
  moreover have "sent V w1 bc = sent V w bc @ tokens_bytes (t # ts)" using r1(3) by simp
  ultimately show ?thesis using r1(1) by blast
qed

lemma pipelined_commands_fault_witness:
  "\<exists>lt1 w1. session_onRead sim_sys 0 (demo_thread [], sim_state (tokens_bytes (ping @ ping)) []) = Inr (lt1, w1) \<and>
    redis_onRead sim_sys 1 (lt1, w1\<lparr>sim_in := (\<lambda>b. tokens_bytes (pong @ pong))\<rparr>) = Inl EmptyQueue"
proof -
  have sv: "inq sim_view = sim_in" "sent sim_view = sim_out" by (simp_all add: sim_view_def)
  obtain lt1 w1 where 1: "session_onRead sim_sys 0 (demo_thread [], sim_state (tokens_bytes (ping @ ping)) []) = Inr (lt1, w1)"
    and 2: "\<And>w2. inq sim_view w2 1 = tokens_bytes (pong @ pong) \<Longrightarrow> redis_onRead sim_sys 1 (lt1, w2) = Inl EmptyQueue"
    using pipelined_commands_fault [OF sim_ok sim_no_failure demo_single demo_open_session,
        of "sim_state (tokens_bytes (ping @ ping)) []" "THeader 1" "TBulk ''PING'' # ping" "pong @ pong"]
    by (auto simp: sv sim_state_def to_string_int_def to_string_digit)
  with 2 [of "w1\<lparr>sim_in := (\<lambda>b. tokens_bytes (pong @ pong))\<rparr>"] show ?thesis by (auto simp: sv)
qed

end
