(* ===== verification/Multiplex.thy ===== *)
theory Multiplex
  imports Proxy_Props
begin

text \<open>
  The proxy as a multiplexer: any number of sessions share one database connection. The abstract
  state is the history alone, the requests in the order they were forwarded and the replies in the
  order they arrived; what is queued and what every client has received is a function of it.
\<close>

section \<open>Specification\<close>

text \<open>
  \<open>requests\<close> are pairs of a session and a message. The sessions that still wait are those of the
  requests without a reply, and a session gets the replies whose position is one of its requests.
\<close>

definition still_waiting :: "(nat \<times> bytes) list \<Rightarrow> bytes list \<Rightarrow> nat list" where
  "still_waiting requests replies = map fst (drop (length replies) requests)"

definition replies_for :: "nat \<Rightarrow> (nat \<times> bytes) list \<Rightarrow> bytes list \<Rightarrow> bytes" where
  "replies_for sid requests replies =
     concat (map snd (filter (\<lambda>(sid', m). sid' = sid) (zip (map fst requests) replies)))"

text \<open>
  Runs of the two read callbacks. Before each of them the network has delivered some complete
  tokens \<open>ts\<close> and perhaps the beginning \<open>p\<close> of another one, and nothing that was written has been
  taken back. What the parser takes of it joins the history.
\<close>

inductive mux_run :: "'w sys \<Rightarrow> 'w view \<Rightarrow> nat \<Rightarrow> bev \<Rightarrow> loop_thread \<times> 'w \<Rightarrow> loop_thread \<Rightarrow> 'w \<Rightarrow>
    (nat \<times> bytes) list \<Rightarrow> bytes list \<Rightarrow> bool"
  for S V cid bc start where
  mux_start: "start = (lt, w) \<Longrightarrow> mux_run S V cid bc start lt w [] []"
| mux_request: "mux_run S V cid bc start lt w requests replies \<Longrightarrow> sent V w1 = sent V w \<Longrightarrow>
     open_session lt sid s b \<Longrightarrow> inq V w1 b = tokens_bytes ts @ p \<Longrightarrow> list_all plain ts \<Longrightarrow> cut_ok S p \<Longrightarrow>
     length (inq V w1 b) < 2 ^ 32 \<Longrightarrow> session_onRead S sid (lt, w1) = Inr (lt', w') \<Longrightarrow>
     mux_run S V cid bc start lt' w' (requests @ map (Pair sid) (taken_msgs ts p)) replies"
| mux_reply: "mux_run S V cid bc start lt w requests replies \<Longrightarrow> sent V w1 = sent V w \<Longrightarrow>
     inq V w1 bc = tokens_bytes ts @ p \<Longrightarrow> list_all plain ts \<Longrightarrow> cut_ok S p \<Longrightarrow>
     length (inq V w1 bc) < 2 ^ 32 \<Longrightarrow> length replies + length (taken_msgs ts p) \<le> length requests \<Longrightarrow>
     redis_onRead S cid (lt, w1) = Inr (lt', w') \<Longrightarrow>
     mux_run S V cid bc start lt' w' requests (replies @ taken_msgs ts p)"

section \<open>Simulation\<close>

text \<open>Sessions that differ at most in their counter.\<close>

definition same_sessions :: "loop_thread \<Rightarrow> loop_thread \<Rightarrow> bool" where
  "same_sessions lt0 lt \<longleftrightarrow>
     (\<forall>sid. \<exists>gen. sessions lt sid = map_option (\<lambda>s. s\<lparr>sIdGenerater := gen\<rparr>) (sessions lt0 sid))"

lemma same_sessions_refl: "same_sessions lt lt"
  unfolding same_sessions_def
proof
  fix sid
  show "\<exists>gen. sessions lt sid = map_option (\<lambda>s. s\<lparr>sIdGenerater := gen\<rparr>) (sessions lt sid)"
  proof (cases "sessions lt sid")
    case (Some s)
    then show ?thesis by (intro exI [of _ "sIdGenerater s"]) simp
  qed simp
qed

lemma same_sessions_update:
  assumes "same_sessions lt0 lt" and "sessions lt sid = Some s"
    and "sessions lt' = (sessions lt)(sid \<mapsto> s\<lparr>sIdGenerater := gen\<rparr>)"
  shows "same_sessions lt0 lt'"
  unfolding same_sessions_def
proof
  fix i
  obtain g where g: "sessions lt i = map_option (\<lambda>s. s\<lparr>sIdGenerater := g\<rparr>) (sessions lt0 i)"
    using assms(1) unfolding same_sessions_def by blast
  show "\<exists>gen. sessions lt' i = map_option (\<lambda>s. s\<lparr>sIdGenerater := gen\<rparr>) (sessions lt0 i)"
  proof (cases "i = sid")
    case True
    then obtain s0 where "sessions lt0 sid = Some s0" "s = s0\<lparr>sIdGenerater := g\<rparr>"
      using g assms(2) by (cases "sessions lt0 sid") auto
    with True assms(3) show ?thesis by (intro exI [of _ gen]) simp
  next
    case False
    with g assms(3) show ?thesis by auto
  qed
qed

lemma same_sessions_handle:
  assumes "same_sessions lt0 lt"
  shows "session_handle (sessions lt) = session_handle (sessions lt0)"
proof
  fix sid
  obtain g where "sessions lt sid = map_option (\<lambda>s. s\<lparr>sIdGenerater := g\<rparr>) (sessions lt0 sid)"
    using assms unfolding same_sessions_def by blast
  then show "session_handle (sessions lt) sid = session_handle (sessions lt0) sid"
    by (cases "sessions lt0 sid") (simp_all add: session_handle_def)
qed

lemma same_sessions_dom: "same_sessions lt0 lt \<Longrightarrow> sessions lt sid = None \<longleftrightarrow> sessions lt0 sid = None"
  unfolding same_sessions_def by (metis map_option_is_None)

text \<open>The relation between a concrete state and the history.\<close>

definition mux_rel :: "'w view \<Rightarrow> nat \<Rightarrow> bev \<Rightarrow> loop_thread \<times> 'w \<Rightarrow> loop_thread \<Rightarrow> 'w \<Rightarrow>
    (nat \<times> bytes) list \<Rightarrow> bytes list \<Rightarrow> bool" where
  "mux_rel V cid bc start lt w requests replies \<longleftrightarrow>
     (\<exists>c. sole_connection lt cid c bc \<and> session_queue c = still_waiting requests replies) \<and>
     same_sessions (fst start) lt \<and> fd_to_session_map lt = fd_to_session_map (fst start) \<and>
     length replies \<le> length requests \<and> waiting_sessions lt (map fst requests) \<and>
     sent V w bc = sent V (snd start) bc @ concat (map snd requests) \<and>
     (\<forall>h. h \<noteq> bc \<longrightarrow> sent V w h = sent V (snd start) h @ answered (sessions lt) h (zip (map fst requests) replies))"

lemma waiting_sessions_cong:
  assumes "\<And>sid. sessions lt' sid = None \<longleftrightarrow> sessions lt sid = None" and "fd_to_session_map lt' = fd_to_session_map lt"
  shows "waiting_sessions lt' q = waiting_sessions lt q"
  using assms by (simp add: waiting_sessions_def)

lemma waiting_sessions_append: "waiting_sessions lt (p @ q) \<longleftrightarrow> waiting_sessions lt p \<and> waiting_sessions lt q"
  by (simp add: waiting_sessions_def)

lemma waiting_sessions_replicate:
  "open_session lt sid s b \<Longrightarrow> waiting_sessions lt (replicate n sid)"
  by (simp add: waiting_sessions_def open_session_def list_all_iff)

lemma waiting_sessions_subset:
  assumes "waiting_sessions lt p" and "set q \<subseteq> set p"
  shows "waiting_sessions lt q"
  using assms unfolding waiting_sessions_def list_all_iff by blast

lemma answered_append: "answered ss h (ps @ qs) = answered ss h ps @ answered ss h qs"
  by (simp add: answered_def)

lemma answered_cong: "session_handle ss = session_handle ss' \<Longrightarrow> answered ss h ps = answered ss' h ps"
  by (simp add: answered_def)

lemma zip_append_short:
  "length ys \<le> length xs \<Longrightarrow> zip (xs @ zs) ys = zip xs ys"
  by (simp add: zip_append1)

lemma mux_request_step:
  assumes S: "libevent_ok S V" "no_failure S V" and R: "mux_rel V cid bc start lt w requests replies"
    and w1: "sent V w1 = sent V w" and s: "open_session lt sid s b" and b: "b \<noteq> bc"
    and input: "inq V w1 b = tokens_bytes ts @ p" "list_all plain ts" "length (inq V w1 b) < 2 ^ 32" "cut_ok S p"
  shows "\<exists>lt' w'. session_onRead S sid (lt, w1) = Inr (lt', w') \<and>
    inq V w' = (inq V w1)(b := drop (length (concat (taken_msgs ts p))) (inq V w1 b)) \<and>
    mux_rel V cid bc start lt' w' (requests @ map (Pair sid) (taken_msgs ts p)) replies"
proof -
  note R' = R [unfolded mux_rel_def]
  obtain c where c: "sole_connection lt cid c bc" "session_queue c = still_waiting requests replies"
    using R' by blast
  obtain gen cs w' where run: "session_onRead S sid (lt, w1) = Inr (with_gen lt sid s gen cs, w')"
    and w': "inq V w' = (inq V w1)(b := drop (length (concat (taken_msgs ts p))) (inq V w1 b))"
      "sent V w' = (sent V w1)(bc := sent V w1 bc @ concat (taken_msgs ts p))"
    and cs: "cs cid = Some (c\<lparr>session_queue := session_queue c @ replicate (length (taken_msgs ts p)) sid\<rparr>)"
    by (rule forward_sole [OF S c(1) s input])
  let ?lt = "with_gen lt sid s gen cs" and ?rq = "requests @ map (Pair sid) (taken_msgs ts p)"
  have ses: "sessions lt sid = Some s" using s by (simp add: open_session_def)
  have same: "same_sessions (fst start) ?lt"
    by (rule same_sessions_update [OF _ ses]) (use R' in simp_all)
  have h: "session_handle (sessions ?lt) = session_handle (sessions lt)"
    using same_sessions_handle [OF same] same_sessions_handle R' by metis
  have fsts: "map fst (map (Pair sid) (taken_msgs ts p)) = replicate (length (taken_msgs ts p)) sid"
    by (simp add: comp_def map_replicate_const)
  have q: "sole_connection ?lt cid (c\<lparr>session_queue := session_queue c @ replicate (length (taken_msgs ts p)) sid\<rparr>) bc"
    using c(1) cs by (simp add: sole_connection_def with_gen_def)
  have sw: "session_queue c @ replicate (length (taken_msgs ts p)) sid = still_waiting ?rq replies"
    using c(2) R' fsts by (simp add: still_waiting_def)
  have wt: "waiting_sessions ?lt (map fst ?rq)"
  proof -
    have "sessions ?lt i = None \<longleftrightarrow> sessions lt i = None" for i using ses by auto
    moreover have "waiting_sessions lt (map fst ?rq)"
      unfolding map_append fsts waiting_sessions_append
      using R' waiting_sessions_replicate [OF s] by blast
    ultimately show ?thesis using waiting_sessions_cong [of ?lt lt] by simp
  qed
  have up: "sent V w' bc = sent V (snd start) bc @ concat (map snd ?rq)"
    using w'(2) w1 R' by (simp add: comp_def)
  have down: "sent V w' x = sent V (snd start) x @ answered (sessions ?lt) x (zip (map fst ?rq) replies)"
    if "x \<noteq> bc" for x
    using w'(2) w1 R' that answered_cong [OF h] by (simp add: zip_append_short)
  have "mux_rel V cid bc start ?lt w' ?rq replies"
    unfolding mux_rel_def using q sw same wt up down R' by (auto intro!: exI)
  with run w'(1) show ?thesis by blast
qed

lemma mux_reply_step:
  assumes S: "libevent_ok S V" "no_failure S V" and R: "mux_rel V cid bc start lt w requests replies"
    and w1: "sent V w1 = sent V w"
    and input: "inq V w1 bc = tokens_bytes ts @ p" "list_all plain ts" "length (inq V w1 bc) < 2 ^ 32" "cut_ok S p"
    and n: "length replies + length (taken_msgs ts p) \<le> length requests"
    and alone: "\<And>sid. session_handle (sessions (fst start)) sid \<noteq> Some bc"
  shows "\<exists>lt' w'. redis_onRead S cid (lt, w1) = Inr (lt', w') \<and>
    inq V w' = (inq V w1)(bc := drop (length (concat (taken_msgs ts p))) (inq V w1 bc)) \<and>
    mux_rel V cid bc start lt' w' requests (replies @ taken_msgs ts p)"
proof -
  note R' = R [unfolded mux_rel_def]
  let ?k = "length replies" and ?n = "length (taken_msgs ts p)"
  let ?sids = "map fst (take ?n (drop ?k requests))" and ?rest = "map fst (drop (?k + ?n) requests)"
  obtain c where c: "sole_connection lt cid c bc" "session_queue c = still_waiting requests replies"
    using R' by blast
  have split: "drop ?k requests = take ?n (drop ?k requests) @ drop (?k + ?n) requests"
    by (metis append_take_drop_id drop_drop add.commute)
  have q: "session_queue c = ?sids @ ?rest"
    unfolding c(2) still_waiting_def by (subst split) simp
  have len: "length ?sids = ?n" using n by simp
  have wait: "waiting_sessions lt ?sids"
  proof -
    have "set ?sids \<subseteq> set (map fst requests)" by (auto dest!: in_set_takeD in_set_dropD)
    moreover have "waiting_sessions lt (map fst requests)" using R' by blast
    ultimately show ?thesis by (rule waiting_sessions_subset [rotated])
  qed
  have cl: "clients lt cid = Some c" "bev_sptr c = Bev bc" using c(1) by (simp_all add: sole_connection_def)
  let ?lt = "lt\<lparr>clients := (clients lt)(cid \<mapsto> c\<lparr>session_queue := ?rest\<rparr>)\<rparr>"
  obtain w' where run: "redis_onRead S cid (lt, w1) = Inr (?lt, w')"
    and in': "inq V w' = (inq V w1)(bc := drop (length (concat (taken_msgs ts p))) (inq V w1 bc))"
    and w': "\<And>h. sent V w' h = sent V w1 h @ answered (sessions lt) h (zip ?sids (taken_msgs ts p))"
    using redis_reads_replies [OF S cl input q len wait] by blast
  have h: "session_handle (sessions lt) = session_handle (sessions (fst start))"
    by (rule same_sessions_handle) (use R' in simp)
  have none: "answered (sessions lt) bc ps = []" for ps
  proof -
    have "filter (\<lambda>(sid, m). session_handle (sessions lt) sid = Some bc) ps = []"
      by (rule filter_False) (use alone h in auto)
    then show ?thesis by (simp only: answered_def list.map concat.simps)
  qed
  have up: "sent V w' bc = sent V (snd start) bc @ concat (map snd requests)"
    using w' [of bc] none w1 R' by simp
  have z: "zip (map fst requests) (replies @ taken_msgs ts p) =
      zip (map fst requests) replies @ zip ?sids (taken_msgs ts p)"
  proof -
    have "zip (map fst requests) (replies @ taken_msgs ts p) =
        zip (take ?k (map fst requests)) replies @ zip (drop ?k (map fst requests)) (taken_msgs ts p)"
      by (rule zip_append2)
    also have "zip (take ?k (map fst requests)) replies = zip (map fst requests) replies"
      by (metis zip_append_short append_take_drop_id length_take min.absorb2 R' length_map order_refl)
    also have "zip (drop ?k (map fst requests)) (taken_msgs ts p) = zip ?sids (taken_msgs ts p)"
    proof -
      have "drop ?k (map fst requests) = ?sids @ ?rest"
        unfolding drop_map by (subst split) simp
      then show ?thesis using zip_append_short [of "taken_msgs ts p" ?sids ?rest] len by simp
    qed
    finally show ?thesis .
  qed
  have down: "sent V w' x = sent V (snd start) x @ answered (sessions lt) x (zip (map fst requests) (replies @ taken_msgs ts p))"
    if "x \<noteq> bc" for x
    using w' [of x] w1 R' that by (simp add: z answered_append)
  have "sole_connection ?lt cid (c\<lparr>session_queue := ?rest\<rparr>) bc"
    using c(1) by (simp add: sole_connection_def)
  moreover have "?rest = still_waiting requests (replies @ taken_msgs ts p)" by (simp add: still_waiting_def)
  moreover have "same_sessions (fst start) ?lt" using R' by (simp add: same_sessions_def)
  moreover have "waiting_sessions ?lt (map fst requests)" using R' waiting_sessions_cong [of ?lt lt] by simp
  ultimately have "mux_rel V cid bc start ?lt w' requests (replies @ taken_msgs ts p)"
    unfolding mux_rel_def using up down n R' by (auto intro!: exI)
  with run in' show ?thesis by blast
qed

text \<open>No session shares the bufferevent of the connection, and no two sessions share one.\<close>

definition own_bufferevents :: "loop_thread \<Rightarrow> bev \<Rightarrow> bool" where
  "own_bufferevents lt bc \<longleftrightarrow> (\<forall>sid sid' h. session_handle (sessions lt) sid = Some h \<longrightarrow>
     h \<noteq> bc \<and> (session_handle (sessions lt) sid' = Some h \<longrightarrow> sid' = sid))"

lemma own_bufferevents_alone: "own_bufferevents lt bc \<Longrightarrow> session_handle (sessions lt) sid \<noteq> Some bc"
  by (auto simp: own_bufferevents_def)

lemma open_session_handle: "open_session lt sid s b \<Longrightarrow> session_handle (sessions lt) sid = Some b"
  by (simp add: open_session_def session_handle_def)

lemma mux_run_rel:
  assumes run: "mux_run S V cid bc (lt0, w0) lt w requests replies"
    and S: "libevent_ok S V" "no_failure S V"
    and c: "single_connection lt0 cid c bc" and own: "own_bufferevents lt0 bc"
  shows "mux_rel V cid bc (lt0, w0) lt w requests replies"
  using run
proof (induction rule: mux_run.induct)
  case (mux_start lt w)
  have q: "\<exists>c. sole_connection lt0 cid c bc \<and> session_queue c = still_waiting [] []"
    using c by (auto simp: single_connection_def still_waiting_def)
  show ?case using mux_start q same_sessions_refl [of lt0]
    by (simp add: mux_rel_def waiting_sessions_def answered_def)
next
  case (mux_request lt w requests replies w1 sid s b ts p lt' w')
  have "session_handle (sessions lt) = session_handle (sessions lt0)"
    using same_sessions_handle [of lt0 lt] mux_request.IH by (simp add: mux_rel_def)
  then have b: "b \<noteq> bc"
    using open_session_handle [OF mux_request.hyps(3)] own_bufferevents_alone [OF own, of sid] by auto
  show ?case
    using mux_request_step [OF S mux_request.IH mux_request.hyps(2,3) b mux_request.hyps(4,5,7,6)] mux_request.hyps(8)
    by auto
next
  case (mux_reply lt w requests replies w1 ts p lt' w')
  show ?case
    using mux_reply_step [OF S mux_reply.IH mux_reply.hyps(2,3,4,6,5,7)] own_bufferevents_alone [OF own] mux_reply.hyps(8)
    by auto
qed

lemma answered_replies_for:
  assumes "own_bufferevents lt bc" and "session_handle (sessions lt) sid = Some h"
  shows "answered (sessions lt) h (zip (map fst requests) replies) = replies_for sid requests replies"
proof -
  have "(\<lambda>(sid', m). session_handle (sessions lt) sid' = Some h) = (\<lambda>(sid', m :: bytes). sid' = sid)"
    using assms by (auto simp: own_bufferevents_def fun_eq_iff)
  then show ?thesis by (simp add: answered_def replies_for_def)
qed

lemma mux_advance:
  assumes "libevent_ok S V" and "no_failure S V" and "single_connection lt0 cid c0 bc" and "own_bufferevents lt0 bc"
    and "mux_run S V cid bc (lt0, w0) lt w requests replies" and "sent V w1 = sent V w"
    and "list_all plain ts" and "cut_ok S p"
  shows "(open_session lt sid s b \<and> inq V w1 b = tokens_bytes ts @ p \<and> length (inq V w1 b) < 2 ^ 32 \<longrightarrow>
      (\<exists>lt' w'. session_onRead S sid (lt, w1) = Inr (lt', w') \<and>
         inq V w' = (inq V w1)(b := drop (length (concat (taken_msgs ts p))) (inq V w1 b)) \<and>
         mux_run S V cid bc (lt0, w0) lt' w' (requests @ map (Pair sid) (taken_msgs ts p)) replies)) \<and>
    (inq V w1 bc = tokens_bytes ts @ p \<and> length (inq V w1 bc) < 2 ^ 32 \<and>
        length replies + length (taken_msgs ts p) \<le> length requests \<longrightarrow>
      (\<exists>lt' w'. redis_onRead S cid (lt, w1) = Inr (lt', w') \<and>
         inq V w' = (inq V w1)(bc := drop (length (concat (taken_msgs ts p))) (inq V w1 bc)) \<and>
         mux_run S V cid bc (lt0, w0) lt' w' requests (replies @ taken_msgs ts p)))"
proof (intro conjI impI)
  note R = mux_run_rel [OF assms(5,1-4)]
  have handles: "session_handle (sessions lt) = session_handle (sessions lt0)"
    using same_sessions_handle [of lt0 lt] R by (simp add: mux_rel_def)
  show "\<exists>lt' w'. session_onRead S sid (lt, w1) = Inr (lt', w') \<and>
         inq V w' = (inq V w1)(b := drop (length (concat (taken_msgs ts p))) (inq V w1 b)) \<and>
         mux_run S V cid bc (lt0, w0) lt' w' (requests @ map (Pair sid) (taken_msgs ts p)) replies"
    if t: "open_session lt sid s b \<and> inq V w1 b = tokens_bytes ts @ p \<and> length (inq V w1 b) < 2 ^ 32"
  proof -
    have b: "b \<noteq> bc"
      using open_session_handle [OF t [THEN conjunct1]] own_bufferevents_alone [OF assms(4), of sid] handles by auto
    obtain lt' w' where run: "session_onRead S sid (lt, w1) = Inr (lt', w')"
        "inq V w' = (inq V w1)(b := drop (length (concat (taken_msgs ts p))) (inq V w1 b))"
      using mux_request_step [OF assms(1,2) R assms(6) _ b _ assms(7) _ assms(8)] t by blast
    have "mux_run S V cid bc (lt0, w0) lt' w' (requests @ map (Pair sid) (taken_msgs ts p)) replies"
      by (rule mux_run.mux_request [OF assms(5,6) _ _ assms(7,8) _ run(1), where s = s and b = b]) (use t in blast)+
    with run show ?thesis by blast
  qed
  show "\<exists>lt' w'. redis_onRead S cid (lt, w1) = Inr (lt', w') \<and>
         inq V w' = (inq V w1)(bc := drop (length (concat (taken_msgs ts p))) (inq V w1 bc)) \<and>
         mux_run S V cid bc (lt0, w0) lt' w' requests (replies @ taken_msgs ts p)"
    if t: "inq V w1 bc = tokens_bytes ts @ p \<and> length (inq V w1 bc) < 2 ^ 32 \<and>
      length replies + length (taken_msgs ts p) \<le> length requests"
  proof -
    have "session_handle (sessions (fst (lt0, w0))) i \<noteq> Some bc" for i
      using own_bufferevents_alone [OF assms(4)] by simp
    then obtain lt' w' where run: "redis_onRead S cid (lt, w1) = Inr (lt', w')"
        "inq V w' = (inq V w1)(bc := drop (length (concat (taken_msgs ts p))) (inq V w1 bc))"
      using mux_reply_step [OF assms(1,2) R assms(6) _ assms(7) _ assms(8)] t by blast
    have "mux_run S V cid bc (lt0, w0) lt' w' requests (replies @ taken_msgs ts p)"
      by (rule mux_run.mux_reply [OF assms(5,6) _ assms(7,8) _ _ run(1)]) (use t in blast)+
    with run show ?thesis by blast
  qed
qed

lemma mux_run_effect:
  assumes "libevent_ok S V" and "no_failure S V" and "single_connection lt0 cid c0 bc" and "own_bufferevents lt0 bc"
    and "mux_run S V cid bc (lt0, w0) lt w requests replies"
  shows "\<exists>c. clients lt cid = Some c \<and> session_queue c = still_waiting requests replies \<and>
    sent V w bc = sent V w0 bc @ concat (map snd requests) \<and>
    (\<forall>sid b. session_handle (sessions lt0) sid = Some b \<longrightarrow>
      sent V w b = sent V w0 b @ replies_for sid requests replies)"
proof -
  note R = mux_run_rel [OF assms(5,1-4), unfolded mux_rel_def]
  obtain c where c: "clients lt cid = Some c" "session_queue c = still_waiting requests replies"
    using R by (auto simp: sole_connection_def)
  have "session_handle (sessions lt) = session_handle (sessions lt0)"
    using same_sessions_handle [of lt0 lt] R by simp
  then have ans: "answered (sessions lt) h ps = answered (sessions lt0) h ps" for h ps by (rule answered_cong)
  have "sent V w b = sent V w0 b @ replies_for sid requests replies"
    if h: "session_handle (sessions lt0) sid = Some b" for sid b
  proof -
    have "b \<noteq> bc" using own_bufferevents_alone [OF assms(4), of sid] h by auto
    with R ans answered_replies_for [OF assms(4) h] show ?thesis by simp
  qed
  moreover have "sent V w bc = sent V w0 bc @ concat (map snd requests)" using R by simp
  ultimately show ?thesis using c by blast
qed

section \<open>Witnesses\<close>

lemma demo_own: "own_bufferevents (demo_thread []) 1"
proof -
  have "session_handle (sessions (demo_thread [])) sid = (if sid = 0 then Some 0 else None)" for sid
    by (simp add: session_handle_def demo_thread_def demo_session_def)
  then show ?thesis by (simp add: own_bufferevents_def)
qed

lemma frames_ping: "frames ping = [tokens_bytes ping]" and frames_pong: "frames pong = [tokens_bytes pong]"
  by simp_all

lemma demo_mux_start:
  "mux_run sim_sys sim_view 1 1 (demo_thread [], sim_state [] []) (demo_thread []) (sim_state [] []) [] []"
  by (rule mux_run.mux_start) (rule refl)

lemma demo_ping_input:
  "sent sim_view (sim_state (tokens_bytes ping) []) = sent sim_view (sim_state [] [])"
  "inq sim_view (sim_state (tokens_bytes ping) []) 0 = tokens_bytes ping"
  by (simp_all only: sim_view_def sim_state_def view.simps sim.simps if_True simp_thms)

lemma demo_lengths: "length (tokens_bytes ping) < 2 ^ 32" "length (tokens_bytes pong) < 2 ^ 32"
  by (simp_all add: to_string_int_def to_string_digit)

lemma demo_plain: "list_all plain ping" "list_all plain pong"
  by simp_all

lemma demo_request:
  "open_session (demo_thread []) 0 demo_session 0 \<and>
   inq sim_view (sim_state (tokens_bytes ping) []) 0 = tokens_bytes ping @ [] \<and>
   length (inq sim_view (sim_state (tokens_bytes ping) []) 0) < 2 ^ 32"
  using demo_open_session demo_ping_input(2) demo_lengths(1) by simp

end
