(* ===== verification/Streams.thy ===== *)
theory Streams
  imports Multiplex
begin

text \<open>
  Streams that arrive in pieces. The replies of a database reach the sessions that wait for them
  whatever the pieces are; a command that is cut between two of its elements is taken for two, and
  from then on the replies of the connection go to the wrong sessions.
\<close>

section \<open>Replies in pieces\<close>

text \<open>How many messages of a stream have arrived completely with its first \<open>k\<close> bytes.\<close>

fun whole_tokens :: "token list \<Rightarrow> nat \<Rightarrow> nat" where
  "whole_tokens [] k = 0"
| "whole_tokens (t # ts) k =
     (if length (token_bytes t) \<le> k then Suc (whole_tokens ts (k - length (token_bytes t))) else 0)"

lemma whole_tokens_le: "whole_tokens ts k \<le> length ts"
  by (induction ts k rule: whole_tokens.induct) auto

lemma whole_tokens_all: "length (tokens_bytes ts) \<le> k \<Longrightarrow> whole_tokens ts k = length ts"
  by (induction ts k rule: whole_tokens.induct) auto

lemma whole_tokens_bytes: "length (tokens_bytes (take (whole_tokens ts k) ts)) \<le> k"
  by (induction ts k rule: whole_tokens.induct) auto

lemma whole_tokens_mono: "k \<le> k' \<Longrightarrow> whole_tokens ts k \<le> whole_tokens ts k'"
  by (induction ts k arbitrary: k' rule: whole_tokens.induct) auto

lemma whole_tokens_add:
  assumes "n \<le> whole_tokens ts k"
  shows "whole_tokens ts k = n + whole_tokens (drop n ts) (k - length (tokens_bytes (take n ts)))"
  using assms
proof (induction ts k arbitrary: n rule: whole_tokens.induct)
  case (2 t ts k)
  then show ?case by (cases n) (auto split: if_splits)
qed simp

text \<open>What has arrived is the complete messages and the beginning of the next one.\<close>

lemma whole_tokens_split:
  assumes "list_all plain ts"
  obtains p where "take k (tokens_bytes ts) = tokens_bytes (take (whole_tokens ts k) ts) @ p" "p = [] \<or> unfinished p"
  using assms
proof (induction ts k arbitrary: thesis rule: whole_tokens.induct)
  case (1 k)
  then show ?case by simp
next
  case (2 t ts k)
  show ?case
  proof (cases "length (token_bytes t) \<le> k")
    case True
    show ?thesis
    proof (rule "2.IH" [OF True])
      show "list_all plain ts" using "2.prems"(2) by simp
      show thesis if "take (k - length (token_bytes t)) (tokens_bytes ts) =
          tokens_bytes (take (whole_tokens ts (k - length (token_bytes t))) ts) @ p" "p = [] \<or> unfinished p" for p
        using "2.prems"(1) [of p] that True by simp
    qed
  next
    case False
    have "take k (token_bytes t) = [] \<or> unfinished (take k (token_bytes t))"
    proof (cases "k = 0")
      case False
      with \<open>\<not> length (token_bytes t) \<le> k\<close> "2.prems"(2)
        proper_prefix_unfinished [of t "take k (token_bytes t)" "drop k (token_bytes t)"]
      show ?thesis by (simp add: token_bytes_head)
    qed simp
    with "2.prems"(1) [of "take k (token_bytes t)"] False show ?thesis by simp
  qed
qed

text \<open>Reads of a connection between which more of a stream arrives; nobody sends requests meanwhile.\<close>

inductive reply_stream :: "'w sys \<Rightarrow> 'w view \<Rightarrow> nat \<Rightarrow> bev \<Rightarrow> loop_thread \<times> 'w \<Rightarrow> loop_thread \<Rightarrow> 'w \<Rightarrow> bytes \<Rightarrow> bool"
  for S V cid bc start where
  nothing_yet: "start = (lt, w) \<Longrightarrow> reply_stream S V cid bc start lt w []"
| piece: "reply_stream S V cid bc start lt w arrived \<Longrightarrow> inq V w1 bc = inq V w bc @ d \<Longrightarrow> sent V w1 = sent V w \<Longrightarrow>
     redis_onRead S cid (lt, w1) = Inr (lt', w') \<Longrightarrow> reply_stream S V cid bc start lt' w' (arrived @ d)"

text \<open>The state after \<open>k\<close> bytes of the stream.\<close>

definition stream_rel :: "'w view \<Rightarrow> bev \<Rightarrow> loop_thread \<Rightarrow> 'w \<Rightarrow> nat \<Rightarrow> redis_client \<Rightarrow> token list \<Rightarrow>
    loop_thread \<Rightarrow> 'w \<Rightarrow> nat \<Rightarrow> bool" where
  "stream_rel V bc lt0 w0 cid c ts lt w k \<longleftrightarrow> (let n = whole_tokens ts k in
     lt = lt0\<lparr>clients := (clients lt0)(cid \<mapsto> c\<lparr>session_queue := drop n (session_queue c)\<rparr>)\<rparr> \<and>
     inq V w bc = drop (length (tokens_bytes (take n ts))) (take k (tokens_bytes ts)) \<and>
     (\<forall>h. sent V w h = sent V w0 h @ answered (sessions lt0) h (zip (session_queue c) (map token_bytes (take n ts)))))"

lemma stream_step:
  assumes S: "libevent_ok S V" "no_failure S V" "clean_views S"
    and c: "bev_sptr c = Bev bc" "waiting_sessions lt0 (session_queue c)" "length ts \<le> length (session_queue c)"
    and ts: "list_all plain ts" "list_all (\<lambda>t. \<not> opens t) ts" "length (tokens_bytes ts) < 2 ^ 32"
    and R: "stream_rel V bc lt0 w0 cid c ts lt w k"
    and net: "inq V w1 bc = inq V w bc @ d" "sent V w1 = sent V w" "take k (tokens_bytes ts) @ d = take k' (tokens_bytes ts)"
    and k: "k \<le> k'" "k' \<le> length (tokens_bytes ts)"
  shows "\<exists>lt' w'. redis_onRead S cid (lt, w1) = Inr (lt', w') \<and> stream_rel V bc lt0 w0 cid c ts lt' w' k'"
proof -
  define n where "n = whole_tokens ts k"
  define off where "off = length (tokens_bytes (take n ts))"
  define m where "m = whole_tokens (drop n ts) (k' - off)"
  let ?q = "session_queue c" and ?new = "take m (drop n ts)"
  note R' = R [unfolded stream_rel_def Let_def, folded n_def, folded off_def]
  have nk: "n \<le> whole_tokens ts k'" using whole_tokens_mono [OF k(1)] by (simp add: n_def)
  have m: "whole_tokens ts k' = n + m" using whole_tokens_add [OF nk] by (simp add: m_def off_def)
  have off: "off \<le> k" using whole_tokens_bytes [of ts k] by (simp add: off_def n_def)
  have "inq V w1 bc = drop off (take k' (tokens_bytes ts))"
    using net(1,3) R' off k by (metis (no_types, lifting) diff_is_0_eq drop0 drop_append length_take min.absorb2 le_trans)
  also have "\<dots> = take (k' - off) (tokens_bytes (drop n ts))"
    using tokens_bytes_drop [of n ts] by (simp add: drop_take off_def)
  finally have inq1: "inq V w1 bc = take (k' - off) (tokens_bytes (drop n ts))" .
  have plain: "list_all plain (drop n ts)" "list_all plain ?new" "list_all (\<lambda>t. \<not> opens t) ?new"
    using ts(1,2) by (auto simp: list_all_iff dest: in_set_takeD in_set_dropD)
  obtain p where p: "take (k' - off) (tokens_bytes (drop n ts)) = tokens_bytes ?new @ p" "p = [] \<or> unfinished p"
    using whole_tokens_split [OF plain(1)] unfolding m_def by blast
  have input: "inq V w1 bc = tokens_bytes ?new @ p" using inq1 p(1) by simp
  have short: "length (inq V w1 bc) < 2 ^ 32"
  proof -
    have "length (tokens_bytes (drop n ts)) \<le> length (tokens_bytes ts)" by (metis tokens_bytes_drop length_drop diff_le_self)
    with ts(3) show ?thesis unfolding inq1 by simp
  qed
  have cut: "cut_ok S p" using p(2) S(3) by (auto simp: cut_ok_def)
  have msgs: "taken_msgs ?new p = map token_bytes ?new" by (rule taken_msgs_closed [OF plain(3)])
  let ?c = "c\<lparr>session_queue := drop n ?q\<rparr>" and ?sids = "take m (drop n ?q)"
  have lt: "clients lt cid = Some ?c" "bev_sptr ?c = Bev bc" "sessions lt = sessions lt0"
      "fd_to_session_map lt = fd_to_session_map lt0" using R' c(1) by simp_all
  have mlen: "m \<le> length (drop n ts)" unfolding m_def by (rule whole_tokens_le)
  have q: "session_queue ?c = ?sids @ drop (n + m) ?q"
    by (simp add: add.commute) (metis append_take_drop_id drop_drop)
  have len: "length ?sids = length (taken_msgs ?new p)" using mlen c(3) unfolding msgs by auto
  have wait: "waiting_sessions lt ?sids"
    using c(2) lt(3,4) by (auto simp: waiting_sessions_def list_all_iff dest: in_set_takeD in_set_dropD)
  obtain w' where run: "redis_onRead S cid (lt, w1) =
      Inr (lt\<lparr>clients := (clients lt)(cid \<mapsto> ?c\<lparr>session_queue := drop (n + m) ?q\<rparr>)\<rparr>, w')"
    and inq': "inq V w' = (inq V w1)(bc := drop (length (concat (taken_msgs ?new p))) (inq V w1 bc))"
    and sent': "\<forall>h. sent V w' h = sent V w1 h @ answered (sessions lt) h (zip ?sids (taken_msgs ?new p))"
    using redis_reads_replies [OF S(1,2) lt(1,2) input plain(2) short cut q len wait] by blast
  have take_nm: "take (n + m) ts = take n ts @ ?new" by (simp add: take_add)
  have z: "zip ?q (map token_bytes (take (n + m) ts)) =
      zip ?q (map token_bytes (take n ts)) @ zip ?sids (map token_bytes ?new)"
  proof -
    have nlen: "length (take n ts) = n" using mlen whole_tokens_le [of ts k] by (simp add: n_def)
    have "zip ?q (map token_bytes (take n ts) @ map token_bytes ?new) =
        zip (take n ?q) (map token_bytes (take n ts)) @ zip (drop n ?q) (map token_bytes ?new)"
      using nlen by (simp add: zip_append2)
    moreover have "zip (take n ?q) (map token_bytes (take n ts)) = zip ?q (map token_bytes (take n ts))"
      using zip_append_short [of "map token_bytes (take n ts)" "take n ?q" "drop n ?q"] nlen c(3) by simp
    moreover have "zip (drop n ?q) (map token_bytes ?new) = zip ?sids (map token_bytes ?new)"
      using zip_append_short [of "map token_bytes ?new" ?sids "drop m (drop n ?q)", unfolded append_take_drop_id]
        len unfolding msgs by simp
    ultimately show ?thesis by (simp add: take_nm)
  qed
  have "stream_rel V bc lt0 w0 cid c ts
      (lt\<lparr>clients := (clients lt)(cid \<mapsto> ?c\<lparr>session_queue := drop (n + m) ?q\<rparr>)\<rparr>) w' k'"
    unfolding stream_rel_def Let_def m
  proof (intro conjI allI)
    show "lt\<lparr>clients := (clients lt)(cid \<mapsto> ?c\<lparr>session_queue := drop (n + m) ?q\<rparr>)\<rparr> =
        lt0\<lparr>clients := (clients lt0)(cid \<mapsto> c\<lparr>session_queue := drop (n + m) ?q\<rparr>)\<rparr>"
      using R' by simp
    have "inq V w' bc = drop (length (tokens_bytes ?new)) (drop off (take k' (tokens_bytes ts)))"
      unfolding inq' msgs using inq1 tokens_bytes_drop [of n ts] by (simp add: drop_take off_def)
    then show "inq V w' bc = drop (length (tokens_bytes (take (n + m) ts))) (take k' (tokens_bytes ts))"
      unfolding take_nm by (simp add: off_def add.commute)
    show "sent V w' h = sent V w0 h @ answered (sessions lt0) h (zip ?q (map token_bytes (take (n + m) ts)))" for h
      using sent' net(2) R' lt(3) unfolding z msgs by (simp add: answered_append)
  qed
  with run show ?thesis by blast
qed

lemma reply_stream_rel:
  assumes S: "libevent_ok S V" "no_failure S V" "clean_views S"
    and c: "clients lt0 cid = Some c" "bev_sptr c = Bev bc" "inq V w0 bc = []"
      "waiting_sessions lt0 (session_queue c)" "length ts \<le> length (session_queue c)"
    and ts: "list_all plain ts" "list_all (\<lambda>t. \<not> opens t) ts" "length (tokens_bytes ts) < 2 ^ 32"
    and run: "reply_stream S V cid bc (lt0, w0) lt w arrived" and pre: "arrived @ rest = tokens_bytes ts"
  shows "stream_rel V bc lt0 w0 cid c ts lt w (length arrived)"
  using run pre
proof (induction arbitrary: rest rule: reply_stream.induct)
  case (nothing_yet lt w)
  have "whole_tokens ts 0 = 0" by (cases ts) (simp_all add: token_bytes_head)
  moreover have "lt0\<lparr>clients := (clients lt0)(cid \<mapsto> c)\<rparr> = lt0" using c(1) by (simp add: fun_upd_idem)
  ultimately show ?case using nothing_yet c(3) by (simp add: stream_rel_def answered_def)
next
  case (piece lt w arrived w1 d lt' w')
  have t: "take (length arrived) (tokens_bytes ts) @ d = take (length (arrived @ d)) (tokens_bytes ts)"
    using piece.prems [symmetric] by simp
  have "length (arrived @ d) \<le> length (tokens_bytes ts)" using arg_cong [OF piece.prems, of length] by simp
  with stream_step [OF S c(2,4,5) ts piece.IH piece.hyps(2,3) t] piece.prems piece.hyps(4) show ?case by auto
qed

text \<open>
  C8: replies survive fragmentation, when there are no arrays with elements among them, no payload holds
  a CR, and the two bytes behind a view of the buffer are no LF. The replies arrive on a
  connection in pieces cut anywhere, inside a reply or between CR and LF, while sessions wait for them.
  After each read exactly the replies that have arrived completely have been handed out, each to the
  session at its position in the queue; the rest stays in the buffer. No read ever fails, and when
  the last byte has arrived every reply has been delivered, once and in order. (An array that is cut
  between two elements is delivered in pieces: \<open>split_array_misroutes_reply\<close>.)
\<close>

theorem replies_reassembled:
  assumes "libevent_ok S V" and "no_failure S V" and "clean_views S"
    and "clients lt0 cid = Some c" and "bev_sptr c = Bev bc" and "inq V w0 bc = []"
    and "waiting_sessions lt0 (session_queue c)" and "length ts \<le> length (session_queue c)"
    and "list_all plain ts" and "list_all (\<lambda>t. \<not> opens t) ts" and "length (tokens_bytes ts) < 2 ^ 32"
    and "reply_stream S V cid bc (lt0, w0) lt w arrived" and "arrived @ rest = tokens_bytes ts"
  shows "let n = whole_tokens ts (length arrived) in
    (\<exists>c'. clients lt cid = Some c' \<and> session_queue c' = drop n (session_queue c)) \<and>
    tokens_bytes (take n ts) @ inq V w bc = arrived \<and>
    (\<forall>h. sent V w h = sent V w0 h @ answered (sessions lt0) h (zip (session_queue c) (map token_bytes (take n ts)))) \<and>
    (rest = [] \<longrightarrow> n = length ts) \<and>
    (\<forall>w1 d rest'. inq V w1 bc = inq V w bc @ d \<and> sent V w1 = sent V w \<and> rest = d @ rest' \<longrightarrow>
      (\<exists>lt' w'. redis_onRead S cid (lt, w1) = Inr (lt', w')))"
proof -
  define n where "n = whole_tokens ts (length arrived)"
  have R: "stream_rel V bc lt0 w0 cid c ts lt w (length arrived)" by (rule reply_stream_rel [OF assms])
  note R' = R [unfolded stream_rel_def Let_def, folded n_def]
  have a: "take (length arrived) (tokens_bytes ts) = arrived" using assms(13) by (metis append_eq_conv_conj)
  obtain p where "take (length arrived) (tokens_bytes ts) = tokens_bytes (take n ts) @ p"
    using whole_tokens_split [OF assms(9), of "length arrived"] unfolding n_def by blast
  with a have e: "arrived = tokens_bytes (take n ts) @ p" by simp
  have "drop (length (tokens_bytes (take n ts))) arrived = p" unfolding e by simp
  with R' a e have "tokens_bytes (take n ts) @ inq V w bc = arrived" by simp
  moreover have "n = length ts" if "rest = []" unfolding n_def using assms(13) that by (intro whole_tokens_all) simp
  moreover have "\<exists>lt' w'. redis_onRead S cid (lt, w1) = Inr (lt', w')"
    if "inq V w1 bc = inq V w bc @ d" "sent V w1 = sent V w" "rest = d @ rest'" for w1 d rest'
  proof -
    have t: "take (length arrived) (tokens_bytes ts) @ d = take (length (arrived @ d)) (tokens_bytes ts)"
      using a assms(13) [symmetric] that(3) by simp
    have "length (arrived @ d) \<le> length (tokens_bytes ts)" using arg_cong [OF assms(13), of length] that(3) by simp
    from stream_step [OF assms(1-3,5,7-11) R that(1,2) t _ this] show ?thesis by auto
  qed
  ultimately show ?thesis using R' unfolding Let_def n_def [symmetric] by auto
qed

text \<open>A reply \<open>+PONG\<close> arrives in two pieces, cut between CR and LF.\<close>

lemma demo_pong_bytes: "tokens_bytes pong = (''+PONG'' @ [CR]) @ [LF]"
  by simp

lemma replies_reassembled_witness:
  "\<exists>lt w lt' w'. reply_stream sim_sys sim_view 1 1 (demo_thread [0], sim_state [] []) lt w (''+PONG'' @ [CR]) \<and>
    inq sim_view w 1 = ''+PONG'' @ [CR] \<and>
    redis_onRead sim_sys 1 (lt, w\<lparr>sim_in := (sim_in w)(1 := (''+PONG'' @ [CR]) @ [LF])\<rparr>) = Inr (lt', w')"
proof -
  let ?start = "(demo_thread [0], sim_state [] [])" and ?part = "''+PONG'' @ [CR]"
  have c: "clients (demo_thread [0]) 1 = Some (demo_client [0])" "bev_sptr (demo_client [0]) = Bev 1"
    "inq sim_view (sim_state [] []) 1 = []" "waiting_sessions (demo_thread [0]) (session_queue (demo_client [0]))"
    "length pong \<le> length (session_queue (demo_client [0]))"
    by (simp_all add: sim_view_def sim_state_def waiting_sessions_def)
  have ts: "list_all plain pong" "list_all (\<lambda>t. \<not> opens t) pong" "length (tokens_bytes pong) < 2 ^ 32" by simp_all
  note th = replies_reassembled [OF sim_ok sim_no_failure sim_clean_views c ts, unfolded Let_def]
  have r0: "reply_stream sim_sys sim_view 1 1 ?start (demo_thread [0]) (sim_state [] []) []"
    by (rule reply_stream.nothing_yet) (rule refl)
  define w1 where "w1 = sim_state [] ?part"
  have w1: "inq sim_view w1 1 = inq sim_view (sim_state [] []) 1 @ ?part" "sent sim_view w1 = sent sim_view (sim_state [] [])"
    by (simp_all add: w1_def sim_view_def sim_state_def)
  have e0: "[] @ tokens_bytes pong = tokens_bytes pong" by simp
  obtain lt w where run: "redis_onRead sim_sys 1 (demo_thread [0], w1) = Inr (lt, w)"
    using th [OF r0 e0] w1 demo_pong_bytes by blast
  have r1: "reply_stream sim_sys sim_view 1 1 ?start lt w ?part"
    using reply_stream.piece [OF r0 w1 run] by simp
  have "whole_tokens pong (length ?part) = 0" by simp
  with th [OF r1 demo_pong_bytes [symmetric]] have inq: "inq sim_view w 1 = ?part" by simp
  define w2 where "w2 = w\<lparr>sim_in := (sim_in w)(1 := ?part @ [LF])\<rparr>"
  have "inq sim_view w2 1 = inq sim_view w 1 @ [LF]" "sent sim_view w2 = sent sim_view w"
    unfolding inq by (simp_all add: w2_def sim_view_def)
  with th [OF r1 demo_pong_bytes [symmetric]] obtain lt' w' where "redis_onRead sim_sys 1 (lt, w2) = Inr (lt', w')"
    by blast
  with r1 inq show ?thesis unfolding w2_def by blast
qed

section \<open>Commands in pieces\<close>

lemma same_sessions_open:
  assumes "same_sessions lt0 lt" and "fd_to_session_map lt = fd_to_session_map lt0"
  shows "(\<exists>s. open_session lt sid s b) \<longleftrightarrow> (\<exists>s. open_session lt0 sid s b)"
proof -
  obtain gen where "sessions lt sid = map_option (\<lambda>s. s\<lparr>sIdGenerater := gen\<rparr>) (sessions lt0 sid)"
    using assms(1) unfolding same_sessions_def by blast
  with assms(2) show ?thesis by (cases "sessions lt0 sid") (auto simp: open_session_def)
qed

text \<open>A read in a run of the multiplexer, on a session that was open at the start.\<close>

lemma mux_read:
  assumes base: "libevent_ok S V" "no_failure S V" "single_connection lt0 cid c0 bc" "own_bufferevents lt0 bc"
    and run: "mux_run S V cid bc (lt0, w0) lt w requests replies"
    and o: "open_session lt0 sid s b"
    and net: "sent V w1 = sent V w" "inq V w1 b = tokens_bytes ts" "list_all plain ts" "length (tokens_bytes ts) < 2 ^ 32"
  obtains lt' w' where "session_onRead S sid (lt, w1) = Inr (lt', w')"
    "mux_run S V cid bc (lt0, w0) lt' w' (requests @ map (Pair sid) (frames ts)) replies"
proof -
  have "same_sessions lt0 lt" "fd_to_session_map lt = fd_to_session_map lt0"
    using mux_run_rel [OF run base] by (simp_all add: mux_rel_def)
  with o obtain s' where s': "open_session lt sid s' b" using same_sessions_open by blast
  have "open_session lt sid s' b \<and> inq V w1 b = tokens_bytes ts @ [] \<and> length (inq V w1 b) < 2 ^ 32"
    using s' net by simp
  with mux_advance [OF base run net(1,3) cut_ok_empty, THEN conjunct1, THEN mp, OF this] that show thesis by auto
qed

text \<open>What a run has written to an open session: the replies that belong to its requests.\<close>

lemma mux_run_replies:
  assumes run: "mux_run S V cid bc (lt0, w0) lt w requests replies"
    and base: "libevent_ok S V" "no_failure S V" "single_connection lt0 cid c0 bc" "own_bufferevents lt0 bc"
    and o: "open_session lt0 sid s b"
  shows "sent V w b = sent V w0 b @ replies_for sid requests replies"
proof -
  note R = mux_run_rel [OF run base, unfolded mux_rel_def]
  have h: "session_handle (sessions lt0) sid = Some b" using open_session_handle o by blast
  have ne: "b \<noteq> bc" using own_bufferevents_alone [OF base(4)] h by metis
  have "session_handle (sessions lt) = session_handle (sessions lt0)"
    using same_sessions_handle [of lt0 lt] R by simp
  then have ans: "answered (sessions lt) x ps = answered (sessions lt0) x ps" for x ps by (rule answered_cong)
  have "sent V w b = sent V w0 b @ answered (sessions lt0) b (zip (map fst requests) replies)"
    using R ne ans by simp
  then show ?thesis unfolding answered_replies_for [OF base(4) h] .
qed

text \<open>
  C39: a command cut between two elements misroutes replies. The bytes of a command of session A
  arrive in two reads, cut behind one of its elements: they are forwarded as two messages, and A is
  queued twice. A command of session B follows. When the database answers the two commands, both
  replies go to A; B gets nothing, and stays in the queue for the next reply that comes.
\<close>

theorem split_array_misroutes_reply:
  assumes "libevent_ok S V" and "no_failure S V" and "single_connection lt0 cid c0 bc" and "own_bufferevents lt0 bc"
    and "open_session lt0 A sa ba" and "open_session lt0 B sb bb" and "A \<noteq> B"
    and "list_all plain (THeader n # es)" and "0 < n" and "length (tokens_bytes (THeader n # es)) < 2 ^ 32"
    and "plain e" and "\<not> opens e" and "length (token_bytes e) < 2 ^ 32"
    and "list_all plain qs" and "length (frames qs) = 1" and "length (tokens_bytes qs) < 2 ^ 32"
    and "list_all plain rs" and "length (frames rs) = 2" and "length (tokens_bytes rs) < 2 ^ 32"
    and "inq V w0 ba = tokens_bytes (THeader n # es)" and "session_onRead S A (lt0, w0) = Inr (lt1, w1)"
    and "sent V v1 = sent V w1" and "inq V v1 ba = token_bytes e" and "session_onRead S A (lt1, v1) = Inr (lt2, w2)"
    and "sent V v2 = sent V w2" and "inq V v2 bb = tokens_bytes qs" and "session_onRead S B (lt2, v2) = Inr (lt3, w3)"
    and "sent V v3 = sent V w3" and "inq V v3 bc = tokens_bytes rs"
  shows "\<exists>lt4 w4 c4. redis_onRead S cid (lt3, v3) = Inr (lt4, w4) \<and>
    sent V w4 bc = sent V w0 bc @ tokens_bytes (THeader n # es @ e # qs) \<and>
    sent V w4 ba = sent V w0 ba @ tokens_bytes rs \<and> sent V w4 bb = sent V w0 bb \<and>
    clients lt4 cid = Some c4 \<and> session_queue c4 = [B]"
proof -
  note base = assms(1-4)
  have run0: "mux_run S V cid bc (lt0, w0) lt0 w0 [] []" by (rule mux_run.mux_start) (rule refl)
  have fr: "frames (THeader n # es) = [tokens_bytes (THeader n # es)]" "frames [e] = [token_bytes e]" "concat (frames qs) = tokens_bytes qs"
    using assms(9,12) concat_frames by simp_all
  obtain q where q: "frames qs = [q]" using assms(15) by (cases "frames qs") auto
  obtain r1 r2 where r: "frames rs = [r1, r2]"
    using assms(18) by (cases "frames rs"; cases "tl (frames rs)") auto
  have run1: "mux_run S V cid bc (lt0, w0) lt1 w1 [(A, tokens_bytes (THeader n # es))] []"
    by (rule mux_read [OF base run0 assms(5) refl assms(20,8,10)]) (use assms(21) fr in simp)
  have e: "inq V v1 ba = tokens_bytes [e]" "list_all plain [e]" "length (tokens_bytes [e]) < 2 ^ 32"
    using assms(11,13,23) by simp_all
  have run2: "mux_run S V cid bc (lt0, w0) lt2 w2 [(A, tokens_bytes (THeader n # es)), (A, token_bytes e)] []"
    by (rule mux_read [OF base run1 assms(5,22) e]) (use assms(24) fr in simp)
  let ?rq = "[(A, tokens_bytes (THeader n # es)), (A, token_bytes e), (B, q)]"
  have run3: "mux_run S V cid bc (lt0, w0) lt3 w3 ?rq []"
    by (rule mux_read [OF base run2 assms(6,25,26,14,16)]) (use assms(27) q in simp)
  have last: "inq V v3 bc = tokens_bytes rs @ [] \<and> length (inq V v3 bc) < 2 ^ 32 \<and>
      length ([] :: bytes list) + length (taken_msgs rs []) \<le> length ?rq"
    using assms(18,19,29) by simp
  obtain lt4 w4 where run: "redis_onRead S cid (lt3, v3) = Inr (lt4, w4)"
    and run4: "mux_run S V cid bc (lt0, w0) lt4 w4 ?rq [r1, r2]"
    using mux_advance [OF base run3 assms(28,17) cut_ok_empty, THEN conjunct2, THEN mp, OF last] r by auto
  note R = mux_run_rel [OF run4 base, unfolded mux_rel_def]
  obtain c4 where c4: "clients lt4 cid = Some c4" "session_queue c4 = [B]"
    using R by (auto simp: sole_connection_def still_waiting_def)
  have "sent V w4 ba = sent V w0 ba @ replies_for A ?rq [r1, r2]" "sent V w4 bb = sent V w0 bb @ replies_for B ?rq [r1, r2]"
    using mux_run_replies [OF run4 base] assms(5,6) by blast+
  moreover have "tokens_bytes rs = r1 @ r2" using concat_frames [of rs] r by simp
  moreover have "sent V w4 bc = sent V w0 bc @ concat (map snd ?rq)" using R by simp
  moreover have "q = tokens_bytes qs" using fr(3) q by simp
  ultimately show ?thesis
    using run c4 assms(7) by (intro exI [of _ lt4] exI [of _ w4] exI [of _ c4]) (simp add: replies_for_def)
qed

text \<open>Two clients on one connection: \<open>GET k\<close> is cut in two, then \<open>PING\<close> comes from the other client.\<close>

definition demo_two :: loop_thread where
  "demo_two = (demo_thread [])\<lparr>fd_to_session_map := [(3, 0), (4, 2)],
     sessions := [0 \<mapsto> demo_session, 2 \<mapsto> demo_session\<lparr>s_fd := 4, s_bev_sptr := Bev 2\<rparr>]\<rparr>"

abbreviation get_part :: "token list" where "get_part \<equiv> [THeader 2, TBulk ''GET'']"
abbreviation two_replies :: "token list" where "two_replies \<equiv> [TString ''A'', TString ''B'']"

lemma demo_two_base:
  "single_connection demo_two 1 (demo_client []) 1" "own_bufferevents demo_two 1"
  "open_session demo_two 0 demo_session 0" "open_session demo_two 2 (demo_session\<lparr>s_fd := 4, s_bev_sptr := Bev 2\<rparr>) 2"
proof -
  have "session_handle (sessions demo_two) sid = (if sid = 0 then Some 0 else if sid = 2 then Some 2 else None)" for sid
    by (simp add: session_handle_def demo_two_def demo_session_def)
  then show "own_bufferevents demo_two 1" by (auto simp: own_bufferevents_def split: if_splits)
  have "tls_set demo_two" "connection_sptr_vector demo_two = [Some 1]" "clients demo_two 1 = Some (demo_client [])"
    by (simp_all add: demo_two_def)
  then show "single_connection demo_two 1 (demo_client []) 1" by (simp add: single_connection_def sole_connection_def)
  show "open_session demo_two 0 demo_session 0" "open_session demo_two 2 (demo_session\<lparr>s_fd := 4, s_bev_sptr := Bev 2\<rparr>) 2"
    by (simp_all add: open_session_def demo_two_def demo_session_def)
qed

abbreviation with_input :: "sim \<Rightarrow> nat \<Rightarrow> bytes \<Rightarrow> sim" where
  "with_input w b bs \<equiv> w\<lparr>sim_in := (sim_in w)(b := bs)\<rparr>"

lemma with_input_net: "sent sim_view (with_input w b bs) = sent sim_view w" "inq sim_view (with_input w b bs) b = bs"
  by (simp_all add: sim_view_def)

lemma split_array_misroutes_reply_witness:
  "\<exists>lt3 w3 lt4 w4 c4. redis_onRead sim_sys 1 (lt3, with_input w3 1 (tokens_bytes two_replies)) = Inr (lt4, w4) \<and>
     sent sim_view w4 0 = tokens_bytes two_replies \<and> sent sim_view w4 2 = [] \<and>
     clients lt4 1 = Some c4 \<and> session_queue c4 = [2]"
proof -
  note base = sim_ok sim_no_failure demo_two_base(1,2)
  let ?w0 = "with_input (sim_state [] []) 0 (tokens_bytes get_part)"
  have len: "length (tokens_bytes get_part) < 2 ^ 32" "length (tokens_bytes [TBulk ''k'']) < 2 ^ 32" "length (tokens_bytes ping) < 2 ^ 32"
    "length (tokens_bytes two_replies) < 2 ^ 32"
    by (simp_all add: to_string_int_def to_string_digit)
  have run0: "mux_run sim_sys sim_view 1 1 (demo_two, ?w0) demo_two ?w0 [] []" by (rule mux_run.mux_start) (rule refl)
  obtain lt1 w1 where 1: "session_onRead sim_sys 0 (demo_two, ?w0) = Inr (lt1, w1)"
    and run1: "mux_run sim_sys sim_view 1 1 (demo_two, ?w0) lt1 w1 ([] @ map (Pair 0) (frames get_part)) []"
    by (rule mux_read [OF base run0 demo_two_base(3) refl with_input_net(2) _ len(1)]) simp
  obtain lt2 w2 where 2: "session_onRead sim_sys 0 (lt1, with_input w1 0 (tokens_bytes [TBulk ''k''])) = Inr (lt2, w2)"
    and run2: "mux_run sim_sys sim_view 1 1 (demo_two, ?w0) lt2 w2
      (([] @ map (Pair 0) (frames get_part)) @ map (Pair 0) (frames [TBulk ''k''])) []"
    by (rule mux_read [OF base run1 demo_two_base(3) with_input_net _ len(2)]) simp
  obtain lt3 w3 where 3: "session_onRead sim_sys 2 (lt2, with_input w2 2 (tokens_bytes ping)) = Inr (lt3, w3)"
    by (rule mux_read [OF base run2 demo_two_base(4) with_input_net _ len(3)]) simp
  have "\<exists>lt4 w4 c4. redis_onRead sim_sys 1 (lt3, with_input w3 1 (tokens_bytes two_replies)) = Inr (lt4, w4) \<and>
    sent sim_view w4 1 = sent sim_view ?w0 1 @ tokens_bytes (THeader 2 # [TBulk ''GET''] @ TBulk ''k'' # ping) \<and>
    sent sim_view w4 0 = sent sim_view ?w0 0 @ tokens_bytes two_replies \<and> sent sim_view w4 2 = sent sim_view ?w0 2 \<and>
    clients lt4 1 = Some c4 \<and> session_queue c4 = [2]"
    by (rule split_array_misroutes_reply [OF base demo_two_base(3,4) _ _ _ len(1) _ _ _ _ _ len(3) _ _ len(4)
        with_input_net(2) 1 with_input_net(1) _ 2 with_input_net 3 with_input_net])
      (use len(2) in \<open>simp_all add: with_input_net\<close>)
  moreover have e: "sent sim_view ?w0 0 = []" "sent sim_view ?w0 2 = []" by (simp_all add: sim_view_def sim_state_def)
  ultimately show ?thesis unfolding e append.simps by blast
qed

end
