(* ===== verification/Loop_Props.thy ===== *)
theory Loop_Props
  imports Loop
begin

text \<open>
  The life of a \<open>Loop\<close>: at most one runner and a status that only advances when every start is
  for a new thread, and the three ways in which the start-up check, which is not atomic, and the
  unjoined thread go wrong.
\<close>

section \<open>The status\<close>












text \<open>Executing concrete sequences of actions.\<close>

lemma run_start_new:
  "loop_status (lp s) = StatusInit \<Longrightarrow> thread_sptr (lp s) \<noteq> Joinable \<Longrightarrow>
   loop_run (s\<lparr>lp := (lp s)\<lparr>thread_sptr := Joinable\<rparr>, runners := runners s @ [Entering]\<rparr>) acts r \<Longrightarrow>
   loop_run s (Start True # acts) r"
  by (rule loop_run.more [OF loop_step.start [where ok = True]]) (simp_all add: loop_start_cases)

lemma run_start_here:
  "loop_status (lp s) = StatusInit \<Longrightarrow>
   loop_run (s\<lparr>lp := lp s, runners := runners s @ [Entering]\<rparr>) acts r \<Longrightarrow>
   loop_run s (Start False # acts) r"
  by (rule loop_run.more [OF loop_step.start [of False s True "lp s"]], simp add: loop_start_cases, assumption)

lemmas run_stop = loop_run.more [OF loop_step.stop]
lemmas run_enter = loop_run.more [OF loop_step.enter]
lemmas run_leave = loop_run.more [OF loop_step.leave]


lemma start_stays_entering:
  assumes "loop_run s acts (Inr s')" and "\<And>i. Enter i \<notin> set acts" and "\<And>b. Start b \<notin> set acts"
    and "loop_status (lp s) = StatusInit" and "thread_sptr (lp s) = Joinable" and "runners s = [Entering]"
  shows "loop_status (lp s') = StatusInit \<and> thread_sptr (lp s') = Joinable \<and> runners s' = [Entering]"
  using assms
proof (induction s acts "Inr s' :: loop_sys run" arbitrary: s' rule: loop_run.induct)
  case (more a s s1 acts)
  have "loop_status (lp s1) = StatusInit \<and> thread_sptr (lp s1) = Joinable \<and> runners s1 = [Entering]"
    using more.hyps(1) more.prems by cases (auto simp: less_Suc_eq)
  with more show ?case by simp
qed simp_all

text \<open>
  The check in \<open>start\<close> does not protect it: after one \<open>start(true)\<close>, a second one that comes
  before the new thread has set the status, whatever else was called in between, destroys a
  joinable thread and so terminates the program.
\<close>
theorem second_start_terminates:
  assumes "loop_run (initial_loop_sys base) (Start True # acts) (Inr s)"
    and "\<And>i. Enter i \<notin> set acts" and "\<And>b. Start b \<notin> set acts"
  shows "loop_run s [Start True] (Inl Terminate)"
proof -
  obtain s1 where s1: "loop_step (Start True) (initial_loop_sys base) (Inr s1)" "loop_run s1 acts (Inr s)"
    using assms(1) by (cases rule: loop_run.cases) auto
  have "loop_status (lp s1) = StatusInit \<and> thread_sptr (lp s1) = Joinable \<and> runners s1 = [Entering]"
    using s1(1) by (auto simp: loop_start_cases initial_loop_sys_def new_loop_def)
  with start_stays_entering [OF s1(2) assms(2,3)]
  have "loop_start True (lp s) = Inl Terminate" by (simp add: loop_start_cases)
  then show ?thesis by (rule loop_run.fault [OF loop_step.crash])
qed

lemma second_start_terminates_witness:
  "loop_run ((initial_loop_sys (Some 0))\<lparr>lp := (new_loop (Some 0))\<lparr>thread_sptr := Joinable\<rparr>, runners := [Entering]\<rparr>)
    [Start True] (Inl Terminate)"
proof (rule second_start_terminates [where acts = "[]" and base = "Some 0"])
  show "loop_run (initial_loop_sys (Some 0)) [Start True]
      (Inr ((initial_loop_sys (Some 0))\<lparr>lp := (new_loop (Some 0))\<lparr>thread_sptr := Joinable\<rparr>, runners := [Entering]\<rparr>))"
    by (rule run_start_new) (simp_all add: initial_loop_sys_def new_loop_def)
qed simp_all

lemma joinable_until_join:
  assumes "loop_run s acts (Inr s')" and "Join \<notin> set acts" and "thread_sptr (lp s) \<noteq> Joined"
  shows "thread_sptr (lp s') \<noteq> Joined"
  using assms
proof (induction s acts "Inr s' :: loop_sys run" arbitrary: s' rule: loop_run.induct)
  case (more a s s1 acts)
  have "thread_sptr (lp s1) \<noteq> Joined"
    using more.hyps(1) more.prems by cases (auto simp: loop_start_cases split: if_splits)
  with more show ?case by simp
qed simp_all

text \<open>
  A loop that ran in a thread of its own and has finished, and was not joined while it was
  still running, can no longer be joined: \<open>wait\<close> does nothing, and destroying the loop destroys a
  joinable thread and so terminates the program.
\<close>
theorem finished_loop_cannot_be_destroyed:
  assumes "loop_run (initial_loop_sys base) acts (Inr s)" and "new_threads_only acts" and "Join \<notin> set acts"
    and "loop_status (lp s) = StatusFinished"
  shows "\<not> wait_joins (lp s) \<and> loop_destroy (lp s) = Inl Terminate"
proof -
  have "one_runner s" using one_runner_run [OF assms(1) one_runner_initial assms(2)] ..
  moreover have "thread_sptr (lp s) \<noteq> Joined"
    by (rule joinable_until_join [OF assms(1,3)]) (simp add: initial_loop_sys_def new_loop_def)
  ultimately have "thread_sptr (lp s) = Joinable"
    using assms(4) by (cases "thread_sptr (lp s)") (auto simp: one_runner_def)
  then show ?thesis using assms(4) by (simp add: wait_joins_def loop_destroy_def thread_destroy_def)
qed

definition finished_sys :: loop_sys where
  "finished_sys =
     \<lparr> lp = run_end (run_begin ((new_loop (Some 0))\<lparr>thread_sptr := Joinable\<rparr>)), runners = [],
       exit_requested = True, waiting = False \<rparr>"

lemma run_to_finished:
  "loop_run (initial_loop_sys (Some 0)) [Start True, Enter 0, Stop, Leave 0] (Inr finished_sys)"
  by (rule run_start_new run_enter run_stop run_leave |
      simp add: initial_loop_sys_def new_loop_def finished_sys_def stop_exits_def run_begin_def run_end_def)+

lemma finished_loop_cannot_be_destroyed_witness:
  "\<not> wait_joins (lp finished_sys) \<and> loop_destroy (lp finished_sys) = Inl Terminate"
  by (rule finished_loop_cannot_be_destroyed [OF run_to_finished])
    (simp_all add: new_threads_only_def finished_sys_def)

text \<open>
  Two threads that both call \<open>start(false)\<close> both pass the check and both execute the loop:
  the status can reach StatusFinished and then go back to StatusRunning.
\<close>

theorem double_start_restarts:
  shows "\<exists>s1 s2. loop_run (initial_loop_sys base) [Start False, Start False, Enter 0, Stop, Leave 0] (Inr s1) \<and>
    loop_status (lp s1) = StatusFinished \<and>
    loop_run s1 [Enter 0] (Inr s2) \<and> loop_status (lp s2) = StatusRunning"
proof -
  define l where "l = run_end (run_begin (new_loop base))"
  define s1 where "s1 = \<lparr> lp = l, runners = [Entering], exit_requested = True, waiting = False \<rparr>"
  define s2 where "s2 = s1\<lparr>lp := run_begin l, runners := [Looping]\<rparr>"
  have "loop_run (initial_loop_sys base) [Start False, Start False, Enter 0, Stop, Leave 0] (Inr s1)"
    by (rule run_start_here run_enter run_stop run_leave |
        simp add: initial_loop_sys_def new_loop_def s1_def l_def stop_exits_def run_begin_def run_end_def)+
  moreover have "loop_run s1 [Enter 0] (Inr s2)"
    by (rule run_enter) (simp_all add: s1_def s2_def)
  ultimately show ?thesis by (intro exI [of _ s1] exI [of _ s2]) (simp add: s1_def s2_def l_def)
qed

end
