(* ===== verification/Tasks.thy ===== *)
theory Tasks
  imports Dispatch
begin

text \<open>
  What a loop thread does when it is woken: \<open>evfc_cb\<close> and \<open>process_msg\<close>
  (\<open>src/src/loop_thread.cpp\<close>) with every kind of task, the listener a NEW_LISTENER task starts
  (\<open>src/include/tcp_listener.hpp\<close>), and the set-up of the thread, \<open>loop_thread::init\<close> with the
  eventfd server (\<open>src/include/eventfd_server.hpp\<close>).
\<close>

section \<open>The listener\<close>

text \<open>
  \<open>listen\<close>: the address of a \<open>sockaddr_in\<close> is 4 bytes into a structure of 16 bytes on the stack,
  also for an IPv6 address of 16 bytes. \<open>Inl\<close> is the exception of \<open>address::from_string\<close>. The
  third component is what \<open>_eventListener\<close> owns.
\<close>

definition listener_setup ::
    "'w sys \<Rightarrow> fd \<Rightarrow> bytes \<Rightarrow> 'w \<Rightarrow> bool \<times> nat option \<times> 'w" where
  "listener_setup S listenfd addr w =
     (if listenfd < 0 then (False, None, w)
      else let (r1, w1) = sys_setsockopt S listenfd (SO_REUSEPORT 1) w
        in if r1 < 0 then (False, None, w1)
           else let (r2, w2) = sys_bind S listenfd addr w1
             in if r2 \<noteq> 0 then (False, None, w2)
                else let (l, w3) = evconnlistener_new S listenfd w2
                  in if l = None then (False, None, w3)
                     else (True, l, make_socket_nonblocking S listenfd w3))"

definition tcp_listen ::
    "'w sys \<Rightarrow> bytes \<Rightarrow> 16 word \<Rightarrow> 'w \<Rightarrow> (std_exception + (bool \<times> nat option \<times> 'w)) run" where
  "tcp_listen S ip p w =
     (let serverAddr = replicate sizeof_sockaddr_in NUL
      in case address_from_string S ip of
           None \<Rightarrow> Inr (Inl system_error)
         | Some fam \<Rightarrow>
             if fam = AF_INET \<or> fam = AF_INET6 then
               andThen (store_bytes serverAddr 0 (family_bytes fam)) (\<lambda>a1.
               andThen (store_pton S fam ip a1 4) (\<lambda>a2.
                 let (listenfd, w1) = sys_socket S fam w
                 in andThen (store_bytes a2 2 (htons_bytes p)) (\<lambda>a3.
                      Inr (Inr (listener_setup S listenfd a3 w1)))))
             else Inr (Inr (False, None, w)))"

section \<open>The tasks\<close>

text \<open>
  What uninitialised memory happens to hold: the counter of the session at an address, and the
  connection data of a new client.
\<close>

record junk =
  junk_counter :: "nat \<Rightarrow> 32 word"
  junk_info :: CONN_INFO

definition add_connection :: "nat \<Rightarrow> redis_client \<Rightarrow> loop_thread \<Rightarrow> loop_thread" where
  "add_connection cid c lt =
     lt\<lparr>clients := (clients lt)(cid \<mapsto> c), next_addr := Suc cid,
        connection_sptr_vector := connection_sptr_vector lt @ [Some cid]\<rparr>"

text \<open>
  One round of the \<open>while\<close> loop. A failed \<open>any_cast\<close> skips the task. No handler catches the
  exception of the listener, which ends the program.
\<close>

definition process_task ::
    "'w sys \<Rightarrow> junk \<Rightarrow> TASK_MSG \<Rightarrow> loop_thread \<times> 'w \<Rightarrow> (loop_thread \<times> 'w) run" where
  "process_task S J msg = (\<lambda>(lt, w).
     (case msg_type msg of
        NEW_SESSION \<Rightarrow>
          (case any_cast_fd (msg_body msg) of
             Inl _ \<Rightarrow> Inr (lt, w)
           | Inr socket_fd \<Rightarrow>
               if loop_sptr lt = None then Inl NullDeref
               else add_session S (junk_counter J (next_addr lt)) socket_fd lt w)
      | NEW_LISTENER \<Rightarrow>
          (case any_cast_conn_info (msg_body msg) of
             Inl _ \<Rightarrow> Inr (lt, w)
           | Inr conn \<Rightarrow>
               if loop_sptr lt = None then Inl NullDeref
               else andThen (tcp_listen S (ci_IP conn) (ci_port conn) w) (\<lambda>r.
                 (case r of Inl _ \<Rightarrow> Inl Terminate | Inr (_, _, w1) \<Rightarrow> Inr (lt, w1))))
      | DEL_SESSION \<Rightarrow>
          (case any_cast_fd (msg_body msg) of
             Inl _ \<Rightarrow> Inr (lt, w)
           | Inr socket_fd \<Rightarrow> map_erase S socket_fd lt w)
      | EXIT_LOOP \<Rightarrow> andThen (loop_thread_stop S lt w) (\<lambda>(_, lt1, w1). Inr (lt1, w1))
      | ADD_CONN \<Rightarrow>
          (case any_cast_conn_info (msg_body msg) of
             Inl _ \<Rightarrow> Inr (lt, w)
           | Inr info \<Rightarrow>
               if ci_type info = IP_V4 \<or> ci_type info = IP_V6 then
                 (let c0 = new_redis_client (junk_info J); (_, c1) = client_init c0
                  in andThen (client_connect S c1 info w) (\<lambda>(_, c2, w1).
                       Inr (add_connection (next_addr lt) c2 lt, w1)))
               else if ci_type info = UNIX_SOCKET then
                 (let c0 = new_redis_client (junk_info J)
                  in andThen (client_connect S c0 info w) (\<lambda>(_, c1, w1).
                       let (_, c2) = client_init c1
                       in Inr (add_connection (next_addr lt) c2 lt, w1)))
               else Inr (lt, w))
      | DEL_CONN \<Rightarrow> Inr (lt, w)
      | _ \<Rightarrow> Inr (lt, w)))"

text \<open>The swap of the queues, which the lock of \<open>process_msg\<close> protects.\<close>

definition take_tasks :: "loop_thread \<Rightarrow> TASK_QUEUE \<times> loop_thread" where
  "take_tasks lt = (task_queue lt, lt\<lparr>task_queue := []\<rparr>)"

definition process_msg ::
    "'w sys \<Rightarrow> junk \<Rightarrow> loop_thread \<times> 'w \<Rightarrow> (loop_thread \<times> 'w) run" where
  "process_msg S J = (\<lambda>(lt, w).
     (let (tmp_task_queue, lt1) = take_tasks lt
      in if tmp_task_queue = [] then Inr (lt1, w)
         else deliver_all (process_task S J) tmp_task_queue (lt1, w)))"

definition evfc_cb :: "'w sys \<Rightarrow> junk \<Rightarrow> fd \<Rightarrow> loop_thread \<times> 'w \<Rightarrow> (loop_thread \<times> 'w) run" where
  "evfc_cb S J fd = (\<lambda>(lt, w).
     (let ((ret, one), w1) = eventfd_read S fd w
      in if ret \<noteq> 8 then Inr (lt, w1) else process_msg S J (lt, w1)))"

section \<open>Setting the thread up\<close>

text \<open>\<open>EventFdServer\<close>: the constructor leaves \<open>_event\<close> as it finds it; \<open>init\<close> throws on failure.\<close>

definition new_eventfd_server :: "fd \<Rightarrow> nat option \<Rightarrow> eventfd_server" where
  "new_eventfd_server efd junk_event = \<lparr> srv_fd = efd, srv_callback = True, srv_event = junk_event \<rparr>"

definition eventfd_server_init ::
    "'w sys \<Rightarrow> eventfd_server \<Rightarrow> 'w \<Rightarrow> (std_exception + bool) \<times> eventfd_server \<times> 'w" where
  "eventfd_server_init S srv w =
     (if \<not> srv_callback srv then (Inr False, srv, w)
      else let (ev, w1) = event_new S (srv_fd srv) w; srv1 = srv\<lparr>srv_event := ev\<rparr>
        in case ev of
             None \<Rightarrow> (Inl logic_error, srv1, w1)
           | Some e \<Rightarrow> let (r, w2) = event_add S e w1
               in if r \<noteq> 0 then (Inl logic_error, srv1, w2) else (Inr True, srv1, w2))"

definition eventfd_server_destroy :: "'w sys \<Rightarrow> eventfd_server \<Rightarrow> 'w \<Rightarrow> 'w" where
  "eventfd_server_destroy S srv w = (case srv_event srv of None \<Rightarrow> w | Some e \<Rightarrow> event_free S e w)"

text \<open>
  \<open>loop_thread::init\<close>, up to the point where the loop runs: with \<open>new_thread\<close> false the calling
  thread is then inside \<open>_run\<close>, and \<open>init\<close> returns true when the loop has ended. The exception of
  \<open>Loop::init\<close> is not caught here. \<open>generator\<close> is the shared counter of loop ids.
\<close>

definition loop_thread_init ::
    "'w sys \<Rightarrow> bool \<Rightarrow> 32 word \<Rightarrow> nat option \<Rightarrow> loop_thread \<Rightarrow> 'w \<Rightarrow>
     ((std_exception + bool) \<times> loop_thread \<times> 'w) run" where
  "loop_thread_init S new_thread generator junk_event lt w =
     (let (base, w1) = event_base_new S w;
          (r, l, _) = loop_init generator (new_loop base);
          lt1 = lt\<lparr>loop_sptr := Some l\<rparr>
      in case r of
           Inl ex \<Rightarrow> Inr (Inl ex, lt1, w1)
         | Inr ok \<Rightarrow>
             if \<not> ok then Inr (Inr False, lt1, w1)
             else let (fd, w2) = sys_eventfd S w1; lt2 = lt1\<lparr>evfd := fd\<rparr>
               in if fd \<le> 0 then Inr (Inr False, lt2, w2)
                  else if base = None then Inr (Inr False, lt2, w2)
                  else let lt3 = lt2\<lparr>event_client_sptr := Some fd\<rparr>;
                           (r2, srv, w3) = eventfd_server_init S (new_eventfd_server fd junk_event) w2;
                           lt4 = lt3\<lparr>event_server_sptr := Some srv\<rparr>
                    in case r2 of
                         Inl ex \<Rightarrow> Inr (Inr False, lt4, w3)
                       | Inr _ \<Rightarrow>
                           andThen (loop_start new_thread l) (\<lambda>(_, l1, spawned).
                             Inr (Inr True,
                               lt4\<lparr>loop_sptr := Some (if spawned \<and> \<not> new_thread then run_begin l1 else l1)\<rparr>, w3)))"

end
