(* ===== verification/Resp_Faults.thy ===== *)
theory Resp_Faults
  imports Resp_Partial
begin

text \<open>
  The only fault of the parser's own is a read past the readable memory; every other fault of a
  run comes from its callback.
\<close>

definition parser_fault :: "fault \<Rightarrow> bool" where
  "parser_fault e \<longleftrightarrow> e = OutOfBounds \<or> e = OutOfFuel"

lemma std_find_fault: "std_find mem start stop c = Inl e \<Longrightarrow> e = OutOfBounds"
proof (induction mem start stop c rule: std_find.induct)
  case (1 mem start stop c)
  show ?case
  proof (cases "start = stop")
    case False
    with "1.prems" show ?thesis
      by (subst (asm) std_find.simps) (auto simp: andThen_eq_Inl deref_def intro: "1.IH" split: if_splits)
  qed (use "1.prems" in simp)
qed

lemma find_CRLF_fault: "find_CRLF_index mem len index = Inl e \<Longrightarrow> e = OutOfBounds"
  by (auto simp: find_CRLF_index_def andThen_eq_Inl deref_def dest: std_find_fault split: if_splits)

lemma parse_length_fault: "parse_length mem index found = Inl e \<Longrightarrow> e = OutOfBounds"
  by (auto simp: parse_length_def string_of_ptr_def mem_slice_def andThen_eq_Inl split: if_splits sum.splits)

lemma process_scalar_fault:
  "process_string mem len index = Inl e \<Longrightarrow> e = OutOfBounds"
  "process_error mem len index = Inl e \<Longrightarrow> e = OutOfBounds"
  "process_integer mem len index = Inl e \<Longrightarrow> e = OutOfBounds"
  by (auto simp: process_string_def process_error_def process_integer_def andThen_eq_Inl
      dest: find_CRLF_fault split: if_splits)

lemma process_bulk_fault:
  assumes "process_bulk mem len index = Inl e"
  shows "e = OutOfBounds"
proof (cases "find_CRLF_index mem len index")
  case (Inl e')
  with assms show ?thesis by (auto simp: process_bulk_def dest: find_CRLF_fault)
next
  case found: (Inr found)
  show ?thesis
  proof (cases "parse_length mem index found")
    case (Inl e')
    with assms found show ?thesis by (auto simp: process_bulk_def dest: parse_length_fault split: if_splits)
  next
    case (Inr r)
    with assms found show ?thesis
      by (cases r) (auto simp: process_bulk_def andThen_eq_Inl dest: find_CRLF_fault split: if_splits)
  qed
qed

text \<open>What a callback keeps, and the faults it can have while it does.\<close>

definition callback_ok :: "'s on_resp option \<Rightarrow> ('s \<Rightarrow> bool) \<Rightarrow> (fault \<Rightarrow> bool) \<Rightarrow> bool" where
  "callback_ok cb P Q \<longleftrightarrow>
     (\<forall>off n s. P s \<longrightarrow> (case run_cb cb off n s of Inr s' \<Rightarrow> P s' | Inl e \<Rightarrow> Q e))"

lemma callback_ok_None: "callback_ok None (\<lambda>_. True) (\<lambda>_. False)"
  by (simp add: callback_ok_def run_cb_def)

lemma faults_aux:
  "callback_ok cb P Q \<Longrightarrow> P s \<Longrightarrow> resp_loop fuel mem len cb index processed s = Inl e \<Longrightarrow> parser_fault e \<or> Q e"
  "array_body fuel mem len index s = Inl e \<Longrightarrow> parser_fault e"
  "array_loop fuel mem len todo index sub s = Inl e \<Longrightarrow> parser_fault e"
proof (induction fuel mem len cb index processed s and fuel mem len index s
    and fuel mem len todo index sub s
    arbitrary: P Q e and e and e
    rule: resp_loop_array_body_array_loop.induct)
  case (1 mem len cb index processed s)
  then show ?case by (simp add: resp_loop.simps parser_fault_def)
next
  case (2 fuel mem len cb index processed s)
  show ?case
  proof (cases "processed < len")
    case False
    with "2.prems" show ?thesis by (simp add: resp_loop_done)
  next
    case True
    note run = "2.prems"(3) [unfolded resp_loop.simps(2)]
    show ?thesis
    proof (cases "deref mem processed")
      case (Inl e')
      with run True show ?thesis by (auto simp: parser_fault_def deref_def split: if_splits)
    next
      case (Inr c)
      show ?thesis
      proof (cases "c \<in> type_bytes")
        case False
        with run True Inr show ?thesis by simp
      next
        case c: True
        show ?thesis
        proof (cases "head_at fuel mem len processed s c")
          case (Inl e')
          then have "parser_fault e'"
            using "2.IH"(1) [OF True Inr] c
            by (auto simp: parser_fault_def dest: process_scalar_fault process_bulk_fault split: if_splits)
          moreover have "e' = e" using run True Inr c Inl by simp
          ultimately show ?thesis by simp
        next
          case h: (Inr r)
          obtain n res where r: "r = (n, res)" by (rule prod.exhaust)
          show ?thesis
          proof (cases "res = Completed")
            case False
            with run True Inr c h r show ?thesis by simp
          next
            case compl: True
            have cb: "case run_cb cb processed n s of Inr s' \<Rightarrow> P s' | Inl e \<Rightarrow> Q e"
              using "2.prems"(1,2) unfolding callback_ok_def by blast
            show ?thesis
            proof (cases "run_cb cb processed n s")
              case (Inl e')
              with run True Inr c h r compl cb show ?thesis by simp
            next
              case s1: (Inr s1)
              with cb have "P s1" by simp
              moreover have "resp_loop fuel mem len cb index (size_add processed n) s1 = Inl e"
                using run True Inr c h r compl s1 by simp
              ultimately show ?thesis
                using "2.IH"(2) [OF True Inr c h [unfolded r compl] refl _ s1] "2.prems"(1) by blast
            qed
          qed
        qed
      qed
    qed
  qed
next
  case (3 fuel mem len index s)
  note run = "3.prems" [unfolded array_body.simps]
  show ?case
  proof (cases "find_CRLF_index mem len index")
    case (Inl e')
    with run show ?thesis by (auto simp: parser_fault_def dest: find_CRLF_fault)
  next
    case found: (Inr found)
    show ?thesis
    proof (cases "parse_length mem index found")
      case (Inl e')
      with run found show ?thesis by (auto simp: parser_fault_def dest: parse_length_fault split: if_splits)
    next
      case r: (Inr r)
      show ?thesis
      proof (cases r)
        case (Inl ex)
        with run found r show ?thesis by (simp split: if_splits)
      next
        case v: (Inr v)
        have "found \<noteq> 0" "\<not> (v = 0 \<or> v = -1)" "\<not> v < -1"
          and "array_loop fuel mem len (nat v) index (size_add found 2) s = Inl e"
          using run found r v by (auto split: if_splits)
        with "3.IH" [OF found _ r v] show ?thesis by blast
      qed
    qed
  qed
next
  case (4 fuel mem len todo index sub s)
  show ?case
  proof (cases "todo = 0")
    case True
    with "4.prems" show ?thesis by (simp add: array_loop.simps)
  next
    case False
    show ?thesis
    proof (cases "resp_loop fuel mem len None sub sub s")
      case (Inl e')
      with "4.prems" False have "e' = e" by (simp add: array_loop.simps)
      with "4.IH"(1) [OF False callback_ok_None _ Inl] show ?thesis by simp
    next
      case (Inr r)
      obtain n res s1 where r: "r = ((n, res), s1)" by (metis prod.exhaust)
      show ?thesis
      proof (cases "res = Completed")
        case compl: True
        have "array_loop fuel mem len (todo - 1) index (size_add sub n) s = Inl e"
          using "4.prems" False Inr r compl by (simp add: array_loop.simps)
        with "4.IH"(2) [OF False Inr [unfolded r compl] refl refl] show ?thesis by simp
      qed (use "4.prems" False Inr r in \<open>simp add: array_loop.simps\<close>)
    qed
  qed
qed

lemma process_resp_fault:
  assumes "callback_ok (Some f) P Q" and "P s" and "process_resp mem len (Some f) index s = Inl e"
  shows "parser_fault e \<or> Q e"
  using faults_aux(1) [OF assms(1,2)] assms(3) by (simp add: process_resp_def resp_from_def)

end
