(* ===== verification/Thread_Safety.thy ===== *)
theory Thread_Safety
  imports Tasks Resp_Faults Dispatch_Reads
begin

text \<open>
  A loop thread as a state machine: every callback that libevent can make into it, tasks posted by
  other threads, and a network that does what it likes in between. The invariant says that every
  address the thread holds is that of a live object; so no callback follows a dangling or null
  pointer, as long as bufferevents can be created.
\<close>

section \<open>The invariant\<close>

definition well_formed :: "loop_thread \<Rightarrow> bool" where
  "well_formed lt \<longleftrightarrow>
     tls_set lt \<and> loop_sptr lt \<noteq> None \<and> (evfd lt = 0 \<or> event_client_sptr lt \<noteq> None) \<and>
     (\<forall>sid \<in> snd ` set (fd_to_session_map lt). sessions lt sid \<noteq> None) \<and>
     allocated (clients lt) (connection_sptr_vector lt) \<and>
     (\<forall>cid c. clients lt cid = Some c \<longrightarrow> Some cid \<in> set (connection_sptr_vector lt) \<and>
        set (session_queue c) \<subseteq> dom (sessions lt) \<and> bev_sptr c \<noteq> OwnsNull) \<and>
     (\<forall>sid s. sessions lt sid = Some s \<longrightarrow> s_bev_sptr s \<noteq> OwnsNull) \<and>
     (\<forall>a. sessions lt a \<noteq> None \<or> clients lt a \<noteq> None \<longrightarrow> a < next_addr lt)"

text \<open>A result that keeps it: no null pointer was dereferenced, and the new state satisfies it.\<close>

definition safe_result :: "(loop_thread \<times> 'w) run \<Rightarrow> bool" where
  "safe_result r \<longleftrightarrow> (case r of Inl e \<Rightarrow> e \<noteq> NullDeref | Inr (lt, w) \<Rightarrow> well_formed lt)"

lemma safe_result_simps [simp]:
  "safe_result (Inl e) \<longleftrightarrow> e \<noteq> NullDeref"
  "safe_result (Inr (lt, w)) \<longleftrightarrow> well_formed lt"
  by (simp_all add: safe_result_def)

lemma safe_andThen:
  assumes "\<And>e. r = Inl e \<Longrightarrow> e \<noteq> NullDeref" and "\<And>x. r = Inr x \<Longrightarrow> safe_result (k x)"
  shows "safe_result (andThen r k)"
  using assms by (cases r) auto

lemma safe_deliver_all:
  assumes "\<And>m lt w. m \<in> set ms \<Longrightarrow> well_formed lt \<Longrightarrow> safe_result (d m (lt, w))" and "well_formed lt"
  shows "safe_result (deliver_all d ms (lt, w))"
  using assms
proof (induction ms arbitrary: lt w)
  case (Cons m ms)
  have one: "safe_result (d m (lt, w))" using Cons.prems by simp
  show ?case
    unfolding deliver_all.simps
  proof (rule safe_andThen)
    show "e \<noteq> NullDeref" if "d m (lt, w) = Inl e" for e using one that by simp
    fix x assume x: "d m (lt, w) = Inr x"
    obtain lt1 w1 where "x = (lt1, w1)" by (rule prod.exhaust)
    with one x have "well_formed lt1" by simp
    with Cons \<open>x = (lt1, w1)\<close> show "safe_result (deliver_all d ms x)" by simp
  qed
qed simp

section \<open>Sending\<close>

lemma mem_slice_fault: "mem_slice mem off n = Inl e \<Longrightarrow> e = OutOfBounds"
  by (simp add: mem_slice_def split: if_splits)

lemma socket_send_fault: "socket_send S sk mem off n w = Inl e \<Longrightarrow> e = OutOfBounds"
  by (cases "bev_sptr sk")
    (auto simp: socket_send_def andThen_eq_Inl dest: mem_slice_fault split: if_splits prod.splits)

lemma session_send_fault: "session_send S s mem off n w = Inl e \<Longrightarrow> e = OutOfBounds"
  unfolding session_as_socket by (rule socket_send_fault)

text \<open>What \<open>try_connections\<close> may do to the clients.\<close>

definition only_queued :: "nat \<Rightarrow> (nat \<rightharpoonup> redis_client) \<Rightarrow> (nat \<rightharpoonup> redis_client) \<Rightarrow> bool" where
  "only_queued sid cs cs' \<longleftrightarrow>
     (\<forall>cid. case cs' cid of None \<Rightarrow> cs cid = None
       | Some c' \<Rightarrow> (\<exists>c. cs cid = Some c \<and> bev_sptr c' = bev_sptr c \<and>
           set (session_queue c') \<subseteq> insert sid (set (session_queue c))))"

lemma only_queued_refl: "only_queued sid cs cs"
  by (auto simp: only_queued_def split: option.splits)

lemma only_queued_push: "only_queued sid cs (push_session cid sid cs)"
  by (auto simp: only_queued_def push_session_def split: option.splits)

lemma try_connections_safe:
  assumes "allocated cs vec" and "vec \<noteq> []"
  shows "try_connections S sid buf off n vec retry gen cs w \<noteq> Inl NullDeref \<and>
    (\<forall>ok gen' cs' w'. try_connections S sid buf off n vec retry gen cs w = Inr (ok, gen', cs', w') \<longrightarrow>
       only_queued sid cs cs')"
proof (induction "unat (retry - 1)" arbitrary: retry gen w rule: less_induct)
  case less
  define one where "one = (case conn_at vec gen of
          None \<Rightarrow> Inr (False, cs, w)
        | Some cid \<Rightarrow> (case cs cid of
            None \<Rightarrow> Inl NullDeref
          | Some c \<Rightarrow>
              if \<not> isConnected c then Inr (False, cs, w)
              else andThen (mem_slice buf off n) (\<lambda>_.
                andThen (socket_send S c buf off (to_uint32 n) w) (\<lambda>(ok, w').
                  if \<not> ok then Inr (False, cs, w')
                  else Inr (True, cs(cid \<mapsto> c\<lparr>session_queue := session_queue c @ [sid]\<rparr>), w')))))"
  have run: "try_connections S sid buf off n vec retry gen cs w = andThen one
       (\<lambda>(sent, cs', w').
          if sent then Inr (True, gen + 1, cs', w')
          else if retry - 1 \<noteq> 0 then try_connections S sid buf off n vec (retry - 1) (gen + 1) cs' w'
          else Inr (False, gen + 1, cs', w'))"
    unfolding one_def by (rule try_connections.simps)
  show ?case
  proof (cases one)
    case (Inl e)
    have "e = OutOfBounds"
    proof (cases "conn_at vec gen")
      case None
      with Inl show ?thesis by (simp add: one_def)
    next
      case (Some cid)
      then have "Some cid \<in> set vec" using conn_at_in_set [OF assms(2)] by metis
      then obtain c where "cs cid = Some c" using assms(1) by (auto simp: allocated_def)
      with Some Inl show ?thesis
        by (auto simp: one_def andThen_eq_Inl dest: mem_slice_fault socket_send_fault split: if_splits)
    qed
    with Inl run show ?thesis by simp
  next
    case (Inr r)
    obtain sent cs1 w1 where r: "r = (sent, cs1, w1)" by (metis prod.exhaust)
    show ?thesis
    proof (cases sent)
      case True
      obtain cid c where "conn_at vec gen = Some cid" "cs cid = Some c"
        "cs1 = cs(cid \<mapsto> c\<lparr>session_queue := session_queue c @ [sid]\<rparr>)"
        using Inr r True by (auto simp: one_def split: option.splits if_splits)
      then have "cs1 = push_session cid sid cs" by (simp add: push_session_def)
      with run Inr r True only_queued_push show ?thesis by simp
    next
      case False
      then have "cs1 = cs"
        using Inr r by (auto simp: one_def split: option.splits if_splits)
      with run Inr r False less.hyps [OF measure_unat] only_queued_refl show ?thesis by simp
    qed
  qed
qed

section \<open>Keeping the invariant\<close>

lemma well_formedD:
  assumes "well_formed lt"
  shows "tls_set lt" and "loop_sptr lt \<noteq> None" and "evfd lt \<noteq> 0 \<Longrightarrow> event_client_sptr lt \<noteq> None"
    and "(fd, sid) \<in> set (fd_to_session_map lt) \<Longrightarrow> sessions lt sid \<noteq> None"
    and "allocated (clients lt) (connection_sptr_vector lt)"
    and "clients lt cid = Some c \<Longrightarrow> Some cid \<in> set (connection_sptr_vector lt)"
    and "clients lt cid = Some c \<Longrightarrow> sid \<in> set (session_queue c) \<Longrightarrow> sessions lt sid \<noteq> None"
    and "clients lt cid = Some c \<Longrightarrow> bev_sptr c \<noteq> OwnsNull"
    and "sessions lt sid = Some s \<Longrightarrow> s_bev_sptr s \<noteq> OwnsNull"
    and "sessions lt (next_addr lt) = None" and "clients lt (next_addr lt) = None"
    and "sessions lt a \<noteq> None \<Longrightarrow> a < next_addr lt" and "clients lt a \<noteq> None \<Longrightarrow> a < next_addr lt"
  using assms by (auto simp: well_formed_def) fastforce+

text \<open>A change of the sessions, the clients and the map that leaves everything else alone.\<close>

definition same_thread :: "loop_thread \<Rightarrow> loop_thread \<Rightarrow> bool" where
  "same_thread lt lt' \<longleftrightarrow> tls_set lt' = tls_set lt \<and> loop_sptr lt' = loop_sptr lt \<and> evfd lt' = evfd lt \<and>
     event_client_sptr lt' = event_client_sptr lt \<and>
     connection_sptr_vector lt' = connection_sptr_vector lt \<and> next_addr lt' = next_addr lt"

lemma well_formed_change:
  assumes wf: "well_formed lt" and same: "same_thread lt lt'"
    and m: "\<And>fd sid. (fd, sid) \<in> set (fd_to_session_map lt') \<Longrightarrow> sessions lt' sid \<noteq> None"
    and c: "\<And>cid. clients lt' cid = None \<longleftrightarrow> clients lt cid = None"
    and q: "\<And>cid c' sid. clients lt' cid = Some c' \<Longrightarrow> sid \<in> set (session_queue c') \<Longrightarrow> sessions lt' sid \<noteq> None"
    and b: "\<And>cid c'. clients lt' cid = Some c' \<Longrightarrow> bev_sptr c' \<noteq> OwnsNull"
    and s: "\<And>sid s'. sessions lt' sid = Some s' \<Longrightarrow> s_bev_sptr s' \<noteq> OwnsNull \<and> sessions lt sid \<noteq> None"
  shows "well_formed lt'"
proof -
  note wf = well_formedD [OF wf] and same = same [unfolded same_thread_def]
  have "tls_set lt' \<and> loop_sptr lt' \<noteq> None \<and> (evfd lt' = 0 \<or> event_client_sptr lt' \<noteq> None)"
    using wf(1-3) same by auto
  moreover have "\<forall>sid \<in> snd ` set (fd_to_session_map lt'). sessions lt' sid \<noteq> None" using m by auto
  moreover have "allocated (clients lt') (connection_sptr_vector lt')"
    using wf(5) c same by (simp add: allocated_def)
  moreover have "Some cid \<in> set (connection_sptr_vector lt') \<and>
      set (session_queue c') \<subseteq> dom (sessions lt') \<and> bev_sptr c' \<noteq> OwnsNull"
    if e: "clients lt' cid = Some c'" for cid c'
  proof (intro conjI)
    obtain c0 where "clients lt cid = Some c0" using c [of cid] e by (cases "clients lt cid") auto
    then show "Some cid \<in> set (connection_sptr_vector lt')" using wf(6) same by simp
    show "set (session_queue c') \<subseteq> dom (sessions lt')" using q [OF e] by auto
    show "bev_sptr c' \<noteq> OwnsNull" by (rule b [OF e])
  qed
  moreover have "\<forall>sid s. sessions lt' sid = Some s \<longrightarrow> s_bev_sptr s \<noteq> OwnsNull" using s by blast
  moreover have "a < next_addr lt'" if "sessions lt' a \<noteq> None \<or> clients lt' a \<noteq> None" for a
    using that wf(12,13) c [of a] s [of a] same by (cases "sessions lt' a") auto
  ultimately show ?thesis unfolding well_formed_def by blast
qed

lemma only_queuedD:
  assumes "only_queued sid cs cs'"
  shows "cs' cid = None \<longleftrightarrow> cs cid = None"
    and "cs' cid = Some c' \<Longrightarrow> \<exists>c. cs cid = Some c \<and> bev_sptr c' = bev_sptr c \<and>
           set (session_queue c') \<subseteq> insert sid (set (session_queue c))"
proof -
  note a = assms [unfolded only_queued_def, rule_format, of cid]
  show "cs' cid = Some c' \<Longrightarrow> \<exists>c. cs cid = Some c \<and> bev_sptr c' = bev_sptr c \<and>
      set (session_queue c') \<subseteq> insert sid (set (session_queue c))" using a by simp
  show "cs' cid = None \<longleftrightarrow> cs cid = None" using a by (cases "cs' cid") auto
qed

lemma well_formed_only_queued:
  assumes wf: "well_formed lt" and s: "sessions lt sid = Some s" and q: "only_queued sid (clients lt) cs"
  shows "well_formed (with_gen lt sid s gen cs)"
proof (rule well_formed_change [OF wf])
  show "same_thread lt (with_gen lt sid s gen cs)" by (simp add: same_thread_def with_gen_def)
  show "sessions (with_gen lt sid s gen cs) i \<noteq> None"
    if "(f, i) \<in> set (fd_to_session_map (with_gen lt sid s gen cs))" for f i
    using well_formedD(4) [OF wf] that by auto
  show "clients (with_gen lt sid s gen cs) i = None \<longleftrightarrow> clients lt i = None" for i
    using only_queuedD(1) [OF q] by simp
  show "sessions (with_gen lt sid s gen cs) i \<noteq> None"
    if "clients (with_gen lt sid s gen cs) k = Some c'" "i \<in> set (session_queue c')" for k c' i
    using only_queuedD(2) [OF q, of k c'] well_formedD(7) [OF wf, of k] that by auto
  show "bev_sptr c' \<noteq> OwnsNull" if "clients (with_gen lt sid s gen cs) k = Some c'" for k c'
    using only_queuedD(2) [OF q, of k c'] well_formedD(8) [OF wf, of k] that by auto
  show "s_bev_sptr s' \<noteq> OwnsNull \<and> sessions lt i \<noteq> None"
    if "sessions (with_gen lt sid s gen cs) i = Some s'" for i s'
    using well_formedD(9) [OF wf] s that by (auto split: if_splits)
qed

lemma session_unref_safe:
  assumes wf: "well_formed lt"
  shows "safe_result (session_unref S sid lt w)"
proof (cases "session_referenced lt sid \<or> sessions lt sid = None")
  case True
  with wf show ?thesis by (auto simp: session_unref_def)
next
  case False
  then obtain s where s: "sessions lt sid = Some s" by auto
  have "s_bev_sptr s \<noteq> OwnsNull" using well_formedD(9) [OF wf s] .
  then obtain w' where d: "session_destroy S s w = Inr w'"
    by (cases "s_bev_sptr s") (auto simp: session_destroy_release)
  let ?lt = "lt\<lparr>sessions := (sessions lt)(sid := None)\<rparr>"
  have unref: "sid \<notin> snd ` set (fd_to_session_map lt)" "sid \<notin> queued_sessions lt"
    using False by (auto simp: session_referenced_def)
  have nq: "sid \<notin> set (session_queue c)" if "clients lt k = Some c" for k c
  proof
    assume "sid \<in> set (session_queue c)"
    then have "sid \<in> queued_sessions lt"
      using well_formedD(6) [OF wf that] that unfolding queued_sessions_def by (auto intro!: bexI [of _ "Some k"])
    with unref show False by simp
  qed
  have "well_formed ?lt"
  proof (rule well_formed_change [OF wf])
    show "same_thread lt ?lt" by (simp add: same_thread_def)
    show "sessions ?lt i \<noteq> None" if "(f, i) \<in> set (fd_to_session_map ?lt)" for f i
      using well_formedD(4) [OF wf, of f i] that unref(1) by force
    show "clients ?lt i = None \<longleftrightarrow> clients lt i = None" for i by simp
    show "sessions ?lt i \<noteq> None" if "clients ?lt k = Some c" "i \<in> set (session_queue c)" for k c i
      using well_formedD(7) [OF wf, of k c i] nq [of k c] that by auto
    show "bev_sptr c \<noteq> OwnsNull" if "clients ?lt k = Some c" for k c
      using well_formedD(8) [OF wf, of k c] that by simp
    show "s_bev_sptr s' \<noteq> OwnsNull \<and> sessions lt i \<noteq> None" if "sessions ?lt i = Some s'" for i s'
      using well_formedD(9) [OF wf, of i s'] that by (simp split: if_splits)
  qed
  with False s d show ?thesis by (simp add: session_unref_def)
qed

section \<open>The read callbacks\<close>

text \<open>What holds while a message of object \<open>sid\<close> or \<open>cid\<close> is handled: the object exists.\<close>

lemma session_cb_safe:
  assumes wf: "well_formed lt" and s: "sessions lt sid \<noteq> None"
  shows "safe_result (session_cb S sid buf off n (lt, w))"
proof (cases "connection_sptr_vector lt = []")
  case True
  with wf show ?thesis by (simp add: session_cb_def)
next
  case False
  obtain s where s: "sessions lt sid = Some s" using s by auto
  note tc = try_connections_safe [OF well_formedD(5) [OF wf] False]
  have tls: "tls_set lt" using well_formedD(1) [OF wf] .
  let ?r = "try_connections S sid buf off n (connection_sptr_vector lt)
    (of_nat (length (connection_sptr_vector lt)) + 1) (sIdGenerater s) (clients lt) w"
  have run: "session_cb S sid buf off n (lt, w) =
      andThen ?r (\<lambda>(_, gen, cs, w'). Inr (with_gen lt sid s gen cs, w'))"
    using False tls s by (simp add: session_cb_def with_gen_def)
  show ?thesis
    unfolding run
  proof (rule safe_andThen)
    show "e \<noteq> NullDeref" if "?r = Inl e" for e using tc that by metis
    show "safe_result ((\<lambda>(_, gen, cs, w'). Inr (with_gen lt sid s gen cs, w')) x)" if x: "?r = Inr x" for x
    proof -
      obtain ok gen cs w' where e: "x = (ok, gen, cs, w')" by (metis prod.exhaust)
      have "only_queued sid (clients lt) cs" using tc x e by metis
      from well_formed_only_queued [OF wf s this] e show ?thesis by simp
    qed
  qed
qed

lemma redis_cb_safe:
  assumes wf: "well_formed lt" and c: "clients lt cid \<noteq> None"
  shows "safe_result (redis_cb S cid buf off n (lt, w))"
proof -
  obtain c where c: "clients lt cid = Some c" using c by auto
  show ?thesis
  proof (cases "session_queue c")
    case Nil
    with c show ?thesis by (simp add: redis_cb_def)
  next
    case (Cons sid rest)
    have "sessions lt sid \<noteq> None" using well_formedD(7) [OF wf c] Cons by simp
    then obtain s where s: "sessions lt sid = Some s" by auto
    let ?lt = "lt\<lparr>clients := (clients lt)(cid \<mapsto> c\<lparr>session_queue := rest\<rparr>)\<rparr>"
    have wf': "well_formed ?lt"
    proof (rule well_formed_change [OF wf])
      show "same_thread lt ?lt" by (simp add: same_thread_def)
      show "sessions ?lt i \<noteq> None" if "(f, i) \<in> set (fd_to_session_map ?lt)" for f i
        using well_formedD(4) [OF wf, of f i] that by simp
      show "clients ?lt i = None \<longleftrightarrow> clients lt i = None" for i using c by simp
      show "sessions ?lt i \<noteq> None" if "clients ?lt k = Some c'" "i \<in> set (session_queue c')" for k c' i
        using well_formedD(7) [OF wf, of k _ i] that c Cons by (auto split: if_splits)
      show "bev_sptr c' \<noteq> OwnsNull" if "clients ?lt k = Some c'" for k c'
        using well_formedD(8) [OF wf, of k] that c by (auto split: if_splits)
      show "s_bev_sptr s' \<noteq> OwnsNull \<and> sessions lt i \<noteq> None" if "sessions ?lt i = Some s'" for i s'
        using well_formedD(9) [OF wf, of i s'] that by simp
    qed
    have run: "redis_cb S cid buf off n (lt, w) = andThen (mem_slice buf off n) (\<lambda>_.
        andThen (session_send S s buf off (to_uint32 n) w) (\<lambda>(_, w1). session_unref S sid ?lt w1))"
      using c Cons s by (simp add: redis_cb_def)
    show ?thesis
      unfolding run
    proof (intro safe_andThen)
      show "e \<noteq> NullDeref" if "mem_slice buf off n = Inl e" for e using mem_slice_fault [OF that] by simp
      show "e \<noteq> NullDeref" if "session_send S s buf off (to_uint32 n) w = Inl e" for e
        using session_send_fault [OF that] by simp
      show "safe_result (case x of (_, w1) \<Rightarrow> session_unref S sid ?lt w1)" for x
        using session_unref_safe [OF wf'] by (cases x) simp
    qed
  qed
qed

text \<open>The parser adds no fault but a read past the memory, so it is as safe as its callback.\<close>

definition safe_cb :: "(loop_thread \<Rightarrow> bool) \<Rightarrow> (loop_thread \<times> 'w) on_resp \<Rightarrow> bool" where
  "safe_cb Q f \<longleftrightarrow> callback_ok (Some f) (\<lambda>\<sigma>. well_formed (fst \<sigma>) \<and> Q (fst \<sigma>)) (\<lambda>e. e \<noteq> NullDeref)"

lemma safe_cbI:
  fixes f :: "(loop_thread \<times> 'w) on_resp"
  assumes "\<And>off n lt w. well_formed lt \<Longrightarrow> Q lt \<Longrightarrow> safe_result (f off n (lt, w))"
    and "\<And>off n lt w lt' w'. Q lt \<Longrightarrow> f off n (lt, w) = Inr (lt', w') \<Longrightarrow> Q lt'"
  shows "safe_cb Q f"
  unfolding safe_cb_def callback_ok_def
proof (intro allI impI)
  fix off n and \<sigma> :: "loop_thread \<times> 'w" assume P: "well_formed (fst \<sigma>) \<and> Q (fst \<sigma>)"
  show "case run_cb (Some f) off n \<sigma> of Inr \<sigma>' \<Rightarrow> well_formed (fst \<sigma>') \<and> Q (fst \<sigma>') | Inl e \<Rightarrow> e \<noteq> NullDeref"
    using assms(1) [of "fst \<sigma>" off n "snd \<sigma>"] assms(2) [of "fst \<sigma>" off n "snd \<sigma>"] P
    by (cases "f off n \<sigma>") (auto simp: run_cb_def)
qed

lemma session_cb_safe_cb: "safe_cb (\<lambda>lt. sessions lt sid \<noteq> None) (session_cb S sid buf)"
proof (rule safe_cbI)
  show "safe_result (session_cb S sid buf off n (lt, w))"
    if "well_formed lt" "sessions lt sid \<noteq> None" for off n lt w
    by (rule session_cb_safe [OF that])
  show "sessions lt' sid \<noteq> None"
    if "sessions lt sid \<noteq> None" "session_cb S sid buf off n (lt, w) = Inr (lt', w')" for off n lt w lt' w'
    using session_cb_keeps [of "(lt, w)" sid S buf off n "(lt', w')"] that by simp
qed

lemma redis_cb_safe_cb: "safe_cb (\<lambda>lt. clients lt cid \<noteq> None) (redis_cb S cid buf)"
proof (rule safe_cbI)
  show "safe_result (redis_cb S cid buf off n (lt, w))"
    if "well_formed lt" "clients lt cid \<noteq> None" for off n lt w
    by (rule redis_cb_safe [OF that])
  show "clients lt' cid \<noteq> None"
    if "clients lt cid \<noteq> None" "redis_cb S cid buf off n (lt, w) = Inr (lt', w')" for off n lt w lt' w'
    using redis_cb_keeps [of "(lt, w)" cid S buf off n "(lt', w')"] that by simp
qed

lemma process_resp_safe:
  assumes cb: "safe_cb Q f" and start: "well_formed lt" "Q lt"
  shows "process_resp mem len (Some f) index (lt, w) = Inl e \<Longrightarrow> e \<noteq> NullDeref"
    and "process_resp mem len (Some f) index (lt, w) = Inr (r, (lt', w')) \<Longrightarrow> well_formed lt' \<and> Q lt'"
proof -
  show "process_resp mem len (Some f) index (lt, w) = Inl e \<Longrightarrow> e \<noteq> NullDeref"
    using process_resp_fault [OF cb [unfolded safe_cb_def], of "(lt, w)"] start
    by (auto simp: parser_fault_def)
  have step: "well_formed (fst \<sigma>') \<and> Q (fst \<sigma>')"
    if "well_formed (fst \<sigma>) \<and> Q (fst \<sigma>)" "f off n \<sigma> = Inr \<sigma>'" for off n \<sigma> \<sigma>'
    using cb [unfolded safe_cb_def callback_ok_def, rule_format, OF that(1), of off n] that(2)
    by (simp add: run_cb_def)
  show "well_formed lt' \<and> Q lt'"
    if run: "process_resp mem len (Some f) index (lt, w) = Inr (r, (lt', w'))"
  proof -
    have "well_formed (fst (lt', w')) \<and> Q (fst (lt', w'))"
      by (rule process_resp_keeps [where P = "\<lambda>\<sigma>. well_formed (fst \<sigma>) \<and> Q (fst \<sigma>)", OF step _ run])
        (use start in simp_all)
    then show ?thesis by simp
  qed
qed

lemma session_onRead_safe:
  assumes wf: "well_formed lt" and s: "sessions lt sid \<noteq> None"
  shows "safe_result (session_onRead S sid (lt, w))"
proof -
  obtain s where s': "sessions lt sid = Some s" using s by auto
  let ?n = "session_getInputBufferLength S s w"
  obtain r w1 where v: "session_viewInputBuffer S s ?n w = (r, w1)" by (rule prod.exhaust)
  show ?thesis
  proof (cases "?n = 0 \<or> r = None")
    case True
    with wf s' v show ?thesis by (auto simp: session_onRead_def Let_def)
  next
    case False
    then obtain buf where r: "r = Some buf" by auto
    let ?run = "process_resp buf ?n (Some (session_cb S sid buf)) 0 (lt, w1)"
    let ?k = "\<lambda>((m, _), (lt2, w2)). if m > 0 then
        (case sessions lt2 sid of None \<Rightarrow> Inl NullDeref
         | Some s2 \<Rightarrow> Inr (lt2, snd (session_drainInputBuffer S s2 (to_uint32 m) w2)))
      else Inr (lt2, w2)"
    note pr = process_resp_safe [OF session_cb_safe_cb wf s]
    have run: "session_onRead S sid (lt, w) = andThen ?run ?k"
      using False s' v r by (simp add: session_onRead_def Let_def)
    show ?thesis
      unfolding run
    proof (rule safe_andThen)
      show "e \<noteq> NullDeref" if "?run = Inl e" for e by (rule pr(1) [OF that])
      show "safe_result (?k x)" if x: "?run = Inr x" for x
      proof -
        obtain m res lt2 w2 where e: "x = ((m, res), (lt2, w2))" by (metis prod.exhaust)
        have wf2: "well_formed lt2" and "sessions lt2 sid \<noteq> None" using pr(2) [OF x [unfolded e]] by simp_all
        then obtain s2 where "sessions lt2 sid = Some s2" by auto
        with wf2 e show ?thesis by simp
      qed
    qed
  qed
qed

lemma redis_onRead_safe:
  assumes wf: "well_formed lt" and c: "clients lt cid \<noteq> None"
  shows "safe_result (redis_onRead S cid (lt, w))"
proof -
  obtain c where c': "clients lt cid = Some c" using c by auto
  let ?n = "getInputBufferLength S c w"
  obtain r w1 where v: "viewInputBuffer S c ?n w = (r, w1)" by (rule prod.exhaust)
  show ?thesis
  proof (cases "?n = 0 \<or> r = None")
    case True
    with wf c' v show ?thesis by (auto simp: redis_onRead_def Let_def)
  next
    case False
    then obtain buf where r: "r = Some buf" by auto
    let ?run = "process_resp buf ?n (Some (redis_cb S cid buf)) 0 (lt, w1)"
    let ?k = "\<lambda>((m, _), (lt2, w2)). if m > 0 then
        (case clients lt2 cid of None \<Rightarrow> Inl NullDeref
         | Some c2 \<Rightarrow> Inr (lt2, snd (drainInputBuffer S c2 (to_uint32 m) w2)))
      else Inr (lt2, w2)"
    note pr = process_resp_safe [OF redis_cb_safe_cb wf c]
    have run: "redis_onRead S cid (lt, w) = andThen ?run ?k"
      using False c' v r by (simp add: redis_onRead_def Let_def)
    show ?thesis
      unfolding run
    proof (rule safe_andThen)
      show "e \<noteq> NullDeref" if "?run = Inl e" for e by (rule pr(1) [OF that])
      show "safe_result (?k x)" if x: "?run = Inr x" for x
      proof -
        obtain m res lt2 w2 where e: "x = ((m, res), (lt2, w2))" by (metis prod.exhaust)
        have wf2: "well_formed lt2" and "clients lt2 cid \<noteq> None" using pr(2) [OF x [unfolded e]] by simp_all
        then obtain c2 where "clients lt2 cid = Some c2" by auto
        with wf2 e show ?thesis by simp
      qed
    qed
  qed
qed

section \<open>The other callbacks\<close>

lemma well_formed_queue [simp]: "well_formed (lt\<lparr>task_queue := q\<rparr>) = well_formed lt"
  by (simp add: well_formed_def)

lemma send2loop_thread_safe:
  assumes "well_formed lt"
  shows "\<exists>ok lt' w'. send2loop_thread S msg lt w = Inr (ok, lt', w') \<and> well_formed lt'"
proof (cases "evfd lt = 0")
  case True
  with assms show ?thesis by (auto simp: send2loop_thread_def)
next
  case False
  then obtain fd where "event_client_sptr lt = Some fd" using well_formedD(3) [OF assms] by auto
  with False assms show ?thesis by (auto simp: send2loop_thread_def)
qed

lemma session_handleEvent_safe:
  assumes wf: "well_formed lt" and s: "sessions lt sid \<noteq> None"
  shows "safe_result (session_handleEvent S sid events (lt, w))"
proof -
  obtain s where s': "sessions lt sid = Some s" using s by auto
  let ?lt = "lt\<lparr>sessions := (sessions lt)(sid \<mapsto> s\<lparr>s_isClosing := True\<rparr>)\<rparr>"
  have "well_formed ?lt"
  proof (rule well_formed_change [OF wf])
    show "same_thread lt ?lt" by (simp add: same_thread_def)
    show "sessions ?lt i \<noteq> None" if "(f, i) \<in> set (fd_to_session_map ?lt)" for f i
      using well_formedD(4) [OF wf, of f i] that by simp
    show "clients ?lt i = None \<longleftrightarrow> clients lt i = None" for i by simp
    show "sessions ?lt i \<noteq> None" if "clients ?lt k = Some c" "i \<in> set (session_queue c)" for k c i
      using well_formedD(7) [OF wf, of k c i] that by simp
    show "bev_sptr c \<noteq> OwnsNull" if "clients ?lt k = Some c" for k c
      using well_formedD(8) [OF wf, of k c] that by simp
    show "s_bev_sptr s2 \<noteq> OwnsNull \<and> sessions lt i \<noteq> None" if "sessions ?lt i = Some s2" for i s2
      using well_formedD(9) [OF wf] s' that by (auto split: if_splits)
  qed
  from send2loop_thread_safe [OF this, where S = S and w = w]
  obtain ok lt' w' where "send2loop_thread S \<lparr> msg_type = DEL_SESSION, msg_body = AnyFd (s_fd s) \<rparr> ?lt w
      = Inr (ok, lt', w')" "well_formed lt'"
    by metis
  with s' well_formedD(1) [OF wf] show ?thesis by (simp add: session_handleEvent_def Let_def)
qed

text \<open>A client whose pointer owns no null pointer can be exchanged for its own next state.\<close>

lemma well_formed_client:
  assumes wf: "well_formed lt" and c: "clients lt cid = Some c"
    and c': "bev_sptr c' \<noteq> OwnsNull" "session_queue c' = session_queue c"
  shows "well_formed (lt\<lparr>clients := (clients lt)(cid \<mapsto> c')\<rparr>)"
proof (rule well_formed_change [OF wf])
  let ?lt = "lt\<lparr>clients := (clients lt)(cid \<mapsto> c')\<rparr>"
  show "same_thread lt ?lt" by (simp add: same_thread_def)
  show "sessions ?lt i \<noteq> None" if "(f, i) \<in> set (fd_to_session_map ?lt)" for f i
    using well_formedD(4) [OF wf, of f i] that by simp
  show "clients ?lt i = None \<longleftrightarrow> clients lt i = None" for i using c by simp
  show "sessions ?lt i \<noteq> None" if "clients ?lt k = Some d" "i \<in> set (session_queue d)" for k d i
    using well_formedD(7) [OF wf, of k _ i] that c c'(2) by (auto split: if_splits)
  show "bev_sptr d \<noteq> OwnsNull" if "clients ?lt k = Some d" for k d
    using well_formedD(8) [OF wf, of k d] that c'(1) by (auto split: if_splits)
  show "s_bev_sptr s2 \<noteq> OwnsNull \<and> sessions lt i \<noteq> None" if "sessions ?lt i = Some s2" for i s2
    using well_formedD(9) [OF wf, of i s2] that by simp
qed

text \<open>Events and writes on a client: its bufferevent is there when libevent calls back.\<close>

lemma closeImpl_client:
  assumes "bev_sptr sk = Bev b"
  shows "\<exists>w'. closeImpl S sk w = Inr (sk\<lparr>isClosing := False\<rparr>, w')"
  unfolding closeImpl_open [OF assms] by blast

lemma client_callbacks_safe:
  assumes wf: "well_formed lt" and c: "clients lt cid = Some c" "bev_sptr c = Bev b"
  shows "safe_result (andThen (client_handleEvent S c events w)
      (\<lambda>(c', w'). Inr (lt\<lparr>clients := (clients lt)(cid \<mapsto> c')\<rparr>, w')))"
    and "safe_result (andThen (client_writeCallback S c w)
      (\<lambda>(c', w'). Inr (lt\<lparr>clients := (clients lt)(cid \<mapsto> c')\<rparr>, w')))"
proof -
  note change = well_formed_client [OF wf c(1)]
  show "safe_result (andThen (client_handleEvent S c events w)
      (\<lambda>(c', w'). Inr (lt\<lparr>clients := (clients lt)(cid \<mapsto> c')\<rparr>, w')))"
  proof (cases "and events (or 0x10 (or 0x20 0x40)) = (0 :: 16 word)")
    case False
    with change [of "c\<lparr>isConnected := False, bev_sptr := NoBev\<rparr>"] show ?thesis
      by (simp add: handleEvent_lost [OF c(2)])
  next
    case True
    have "\<exists>x. client_handleEvent S c events w = Inr (c\<lparr>isConnected := x\<rparr>, w)"
    proof (cases "and events 0x80 \<noteq> 0 \<and> sys_errno S w \<noteq> ECONNREFUSED \<and> sys_errno S w \<noteq> ETIMEDOUT")
      case conn: True
      with True show ?thesis by (intro exI [of _ True]) (simp add: client_handleEvent_def Let_def)
    next
      case conn: False
      have "c\<lparr>isConnected := isConnected c\<rparr> = c" by simp
      with True conn show ?thesis
        by (intro exI [of _ "isConnected c"]) (auto simp: client_handleEvent_def Let_def)
    qed
    then obtain x where "client_handleEvent S c events w = Inr (c\<lparr>isConnected := x\<rparr>, w)" by blast
    with change [of "c\<lparr>isConnected := x\<rparr>"] c(2) show ?thesis by simp
  qed
  have "\<exists>x w'. client_writeCallback S c w = Inr (c\<lparr>isClosing := x\<rparr>, w')"
  proof (cases "isClosing c \<and> output_length S b w = 0")
    case True
    obtain w' where "closeImpl S (c\<lparr>isClosing := False\<rparr>) w = Inr (c\<lparr>isClosing := False\<rparr>\<lparr>isClosing := False\<rparr>, w')"
      using closeImpl_client [of "c\<lparr>isClosing := False\<rparr>" b S w] c(2) by auto
    with True c(2) show ?thesis
      by (intro exI [of _ False] exI [of _ w']) (simp add: client_writeCallback_def checkClosing_def)
  next
    case False
    have "c\<lparr>isClosing := isClosing c\<rparr> = c" by simp
    with False c(2) show ?thesis
      by (intro exI [of _ "isClosing c"] exI [of _ w]) (auto simp: client_writeCallback_def checkClosing_def)
  qed
  then obtain x w' where "client_writeCallback S c w = Inr (c\<lparr>isClosing := x\<rparr>, w')" by blast
  with change [of "c\<lparr>isClosing := x\<rparr>"] c(2)
  show "safe_result (andThen (client_writeCallback S c w)
      (\<lambda>(c', w'). Inr (lt\<lparr>clients := (clients lt)(cid \<mapsto> c')\<rparr>, w')))" by simp
qed

section \<open>Tasks\<close>

definition creates_bufferevents :: "'w sys \<Rightarrow> bool" where
  "creates_bufferevents S \<longleftrightarrow> (\<forall>fd w. fst (bufferevent_socket_new S fd w) \<noteq> None)"

lemma creates_bufferevent:
  assumes "creates_bufferevents S"
  obtains b w' where "bufferevent_socket_new S fd w = (Some b, w')"
  using assms unfolding creates_bufferevents_def by (metis option.exhaust prod.exhaust fst_conv)

lemma session_init_safe:
  assumes "creates_bufferevents S"
  shows "\<exists>ok s w'. session_init S (new_tcp_session fd junk) w = Inr (ok, s, w') \<and> s_bev_sptr s \<noteq> OwnsNull"
proof -
  obtain b w2 where new: "bufferevent_socket_new S fd (make_socket_nonblocking S fd w) = (Some b, w2)"
    by (rule creates_bufferevent [OF assms])
  obtain ret w5 where en: "bufferevent_enable S b (EV_READ + EV_WRITE) (bufferevent_setcb S b w2) = (ret, w5)"
    by (rule prod.exhaust)
  show ?thesis
    using new en by (cases "ret = -1") (auto simp: session_init_def new_tcp_session_def)
qed

text \<open>Entries of the map come and go; what they drop may be destroyed.\<close>

lemma well_formed_map:
  assumes "well_formed lt" and "snd ` set m \<subseteq> dom (sessions lt)"
  shows "well_formed (lt\<lparr>fd_to_session_map := m\<rparr>)"
  using assms by (auto simp: well_formed_def allocated_def)

lemma well_formed_map_dom: "well_formed lt \<Longrightarrow> snd ` set (fd_to_session_map lt) \<subseteq> dom (sessions lt)"
  by (auto simp: well_formed_def)

lemma set_AList_update: "set (AList.update k v al) \<subseteq> insert (k, v) (set al)"
  by (induction al) auto

lemma map_insert_safe:
  assumes wf: "well_formed lt" and s: "sessions lt sid \<noteq> None"
  shows "safe_result (map_insert S fd sid lt w)"
proof -
  have "snd ` set (AList.update fd sid (fd_to_session_map lt)) \<subseteq> insert sid (snd ` set (fd_to_session_map lt))"
    using set_AList_update [of fd sid "fd_to_session_map lt"] by force
  then have "well_formed (lt\<lparr>fd_to_session_map := AList.update fd sid (fd_to_session_map lt)\<rparr>)"
    using s well_formed_map_dom [OF wf] by (intro well_formed_map [OF wf]) (metis domI insert_subset not_None_eq order_trans)
  with session_unref_safe [OF this] show ?thesis
    by (cases "map_of (fd_to_session_map lt) fd") (simp_all add: map_insert_def)
qed

lemma map_erase_safe:
  assumes wf: "well_formed lt"
  shows "safe_result (map_erase S fd lt w)"
proof -
  have "set (AList.delete fd (fd_to_session_map lt)) \<subseteq> set (fd_to_session_map lt)"
    by (auto simp: AList.delete_eq)
  then have "well_formed (lt\<lparr>fd_to_session_map := AList.delete fd (fd_to_session_map lt)\<rparr>)"
    using well_formed_map_dom [OF wf] by (intro well_formed_map [OF wf]) (meson image_mono order_trans)
  with session_unref_safe [OF this] show ?thesis
    by (cases "map_of (fd_to_session_map lt) fd") (simp_all add: map_erase_def)
qed

lemma add_session_safe:
  assumes wf: "well_formed lt" and S: "creates_bufferevents S"
  shows "safe_result (add_session S junk fd lt w)"
proof -
  obtain ok s w' where i: "session_init S (new_tcp_session fd junk) w = Inr (ok, s, w')" and b: "s_bev_sptr s \<noteq> OwnsNull"
    using session_init_safe [OF S] by metis
  let ?lt = "lt\<lparr>sessions := (sessions lt)(next_addr lt \<mapsto> s), next_addr := Suc (next_addr lt)\<rparr>"
  have "well_formed ?lt"
    using wf b unfolding well_formed_def
    by (auto simp: allocated_def less_Suc_eq dest: well_formedD(7) [OF wf])
  then have "safe_result (map_insert S fd (next_addr lt) ?lt w')" by (rule map_insert_safe) simp
  with i show ?thesis by (simp add: add_session_def Let_def)
qed

text \<open>A new client: connecting leaves no null pointer behind, and no fault is a null pointer.\<close>

lemma connect_fd_safe:
  assumes S: "libevent_ok S V" "creates_bufferevents S" and c: "bev_sptr c = NoBev"
  shows "\<exists>ok p w'. connect_fd S c addr fd w = Inr (ok, c\<lparr>bev_sptr := p\<rparr>, w') \<and> p \<noteq> OwnsNull"
  using S(1) c
proof (cases rule: connect_fd_cases [of S V c addr fd w])
  case (failed w')
  with no_bev_update [OF c] show ?thesis by (metis bev_sptr.distinct(1))
next
  case (no_bev w')
  with S(2) show ?thesis unfolding creates_bufferevents_def by metis
next
  case (connected b w')
  then show ?thesis by blast
qed

definition safe_connect :: "redis_client \<Rightarrow> (bool \<times> redis_client \<times> 'w) run \<Rightarrow> bool" where
  "safe_connect c r \<longleftrightarrow> (case r of Inl e \<Rightarrow> e \<noteq> NullDeref
     | Inr (_, c', _) \<Rightarrow> bev_sptr c' \<noteq> OwnsNull \<and> session_queue c' = session_queue c)"

lemma safe_connect_simps [simp]:
  "safe_connect c (Inl e) \<longleftrightarrow> e \<noteq> NullDeref"
  "safe_connect c (Inr (ok, c', w)) \<longleftrightarrow> bev_sptr c' \<noteq> OwnsNull \<and> session_queue c' = session_queue c"
  by (simp_all add: safe_connect_def)

lemma safe_connect_addr:
  assumes S: "libevent_ok S V" "creates_bufferevents S" and c: "bev_sptr c = NoBev"
    and a: "\<And>e. a = Inl e \<Longrightarrow> e \<noteq> NullDeref"
  shows "safe_connect c (andThen a (\<lambda>addr. connect_fd S c addr fd w))"
proof (cases a)
  case (Inr addr)
  obtain ok p w' where "connect_fd S c addr fd w = Inr (ok, c\<lparr>bev_sptr := p\<rparr>, w')" "p \<noteq> OwnsNull"
    using connect_fd_safe [OF S c] by metis
  with Inr show ?thesis by simp
qed (use a in simp)

lemma sockaddr_faults:
  "sockaddr_in S ip p = Inl e \<Longrightarrow> e \<noteq> NullDeref"
  "sockaddr_in6 S ip p = Inl e \<Longrightarrow> e \<noteq> NullDeref"
  "sockaddr_un path = Inl e \<Longrightarrow> e \<noteq> NullDeref"
  by (auto simp: sockaddr_in_def sockaddr_in6_def sockaddr_un_def store_bytes_def store_pton_def
      andThen_eq_Inl split: if_splits option.splits)

lemma client_connect_safe:
  assumes S: "libevent_ok S V" "creates_bufferevents S" and c: "bev_sptr c = NoBev"
  shows "safe_connect c (client_connect S c info w)"
proof -
  let ?c = "set_conn_info c info"
  have c': "bev_sptr ?c = NoBev" "session_queue ?c = session_queue c"
    using c by (simp_all add: set_conn_info_def)
  have same: "safe_connect ?c r \<longleftrightarrow> safe_connect c r" for r :: "(bool \<times> redis_client \<times> 'a) run"
    using c'(2) by (cases r) (auto simp: safe_connect_def)
  note at = safe_connect_addr [OF S c'(1), unfolded same]
  obtain f4 w4 where s4: "sys_socket S AF_INET w = (f4, w4)" by (rule prod.exhaust)
  obtain f6 w6 where s6: "sys_socket S AF_INET6 w = (f6, w6)" by (rule prod.exhaust)
  obtain fu wu where su: "sys_socket S AF_UNIX w = (fu, wu)" by (rule prod.exhaust)
  show ?thesis
  proof (cases "get_conn_type info")
    case IP_V4
    have "safe_connect c (andThen (sockaddr_in S (get_ip info) p) (\<lambda>addr. connect_fd S ?c addr f4 w4))" for p
      by (rule at) (rule sockaddr_faults)
    with IP_V4 s4 c' show ?thesis
      by (cases "stoi (get_port info)") (simp_all add: client_connect_def Let_def)
  next
    case IP_V6
    have "safe_connect c (andThen (sockaddr_in6 S (get_ip info) p) (\<lambda>addr. connect_fd S ?c addr f6 w6))" for p
      by (rule at) (rule sockaddr_faults)
    with IP_V6 s6 c' show ?thesis
      by (cases "stoi (get_port info)") (simp_all add: client_connect_def Let_def)
  next
    case UNIX_SOCKET
    have "safe_connect c (andThen (sockaddr_un (get_path info)) (\<lambda>addr. connect_fd S ?c addr fu wu))"
      by (rule at) (rule sockaddr_faults)
    with UNIX_SOCKET su c' show ?thesis by (simp add: client_connect_def Let_def)
  next
    case UN_KNOWN
    with c' show ?thesis by (simp add: client_connect_def Let_def)
  qed
qed

end
