(* ===== verification/Thread_Steps.thy ===== *)
theory Thread_Steps
  imports Thread_Safety
begin

text \<open>
  A running loop thread as a transition system: libevent calls back into it in any order, other
  threads post tasks, the system changes in between. In every reachable state the invariant of
  \<open>Thread_Safety\<close> holds, and no callback that libevent can make follows a null pointer.
\<close>

section \<open>Tasks keep the invariant\<close>

lemma loop_thread_stop_safe:
  assumes "well_formed lt"
  shows "\<exists>ok lt' w'. loop_thread_stop S lt w = Inr (ok, lt', w') \<and> well_formed lt'"
proof (cases "evfd lt = 0")
  case True
  with assms show ?thesis by (auto simp: loop_thread_stop_def)
next
  case False
  obtain l where l: "loop_sptr lt = Some l" using well_formedD(2) [OF assms] by auto
  have "well_formed (lt\<lparr>evfd := 0\<rparr>)" using assms by (auto simp: well_formed_def)
  with False l show ?thesis by (auto simp: loop_thread_stop_def Let_def)
qed

lemma tcp_listen_fault: "tcp_listen S ip p w = Inl e \<Longrightarrow> e \<noteq> NullDeref"
  by (auto simp: tcp_listen_def store_bytes_def store_pton_def andThen_eq_Inl Let_def
      split: if_splits option.splits prod.splits)

lemma add_connection_safe:
  assumes wf: "well_formed lt" and c: "bev_sptr c \<noteq> OwnsNull" "session_queue c = []"
  shows "well_formed (add_connection (next_addr lt) c lt)"
  using wf c unfolding well_formed_def add_connection_def
  by (auto simp: allocated_def less_Suc_eq dest: well_formedD(7) [OF wf])

lemma process_task_safe:
  assumes wf: "well_formed lt" and S: "libevent_ok S V" "creates_bufferevents S"
  shows "safe_result (process_task S J msg (lt, w))"
proof (cases "msg_type msg")
  case NEW_SESSION
  with wf add_session_safe [OF wf S(2)] show ?thesis
    by (cases "any_cast_fd (msg_body msg)") (simp_all add: process_task_def well_formedD(2))
next
  case NEW_LISTENER
  show ?thesis
  proof (cases "any_cast_conn_info (msg_body msg)")
    case (Inr conn)
    have run: "process_task S J msg (lt, w) = andThen (tcp_listen S (ci_IP conn) (ci_port conn) w)
        (\<lambda>r. case r of Inl _ \<Rightarrow> Inl Terminate | Inr (_, _, w1) \<Rightarrow> Inr (lt, w1))"
      using NEW_LISTENER Inr wf by (simp add: process_task_def well_formedD(2))
    show ?thesis
      unfolding run
      by (rule safe_andThen) (use wf in \<open>auto dest: tcp_listen_fault split: sum.splits\<close>)
  qed (use wf NEW_LISTENER in \<open>simp add: process_task_def\<close>)
next
  case DEL_SESSION
  with wf map_erase_safe [OF wf] show ?thesis
    by (cases "any_cast_fd (msg_body msg)") (simp_all add: process_task_def)
next
  case EXIT_LOOP
  obtain ok lt' w' where "loop_thread_stop S lt w = Inr (ok, lt', w')" "well_formed lt'"
    using loop_thread_stop_safe [OF wf] by metis
  with EXIT_LOOP show ?thesis by (simp add: process_task_def)
next
  case ADD_CONN
  show ?thesis
  proof (cases "any_cast_conn_info (msg_body msg)")
    case (Inr info)
    let ?c0 = "new_redis_client (junk_info J)"
    have c0: "bev_sptr ?c0 = NoBev" "session_queue ?c0 = []" by (simp_all add: new_redis_client_def)
    have c1: "bev_sptr (?c0\<lparr>cl_dscp := 0\<rparr>) = NoBev" "session_queue (?c0\<lparr>cl_dscp := 0\<rparr>) = []"
      using c0 by simp_all
    have add: "safe_result (Inr (add_connection (next_addr lt) c lt, w'))"
      if "bev_sptr c \<noteq> OwnsNull" "session_queue c = []" for c and w' :: 'a
      using add_connection_safe [OF wf that] by simp
    note con0 = client_connect_safe [OF S c0(1), of info w] and con1 = client_connect_safe [OF S c1(1), of info w]
    consider "ci_type info = IP_V4 \<or> ci_type info = IP_V6" | "ci_type info = UNIX_SOCKET" | "ci_type info = UN_KNOWN"
      by (cases "ci_type info") auto
    then show ?thesis
    proof cases
      case 1
      then have "process_task S J msg (lt, w) = andThen (client_connect S (?c0\<lparr>cl_dscp := 0\<rparr>) info w)
          (\<lambda>(_, c2, w1). Inr (add_connection (next_addr lt) c2 lt, w1))"
        using ADD_CONN Inr by (auto simp: process_task_def client_init_def Let_def)
      with con1 c1 add show ?thesis
        by (cases "client_connect S (?c0\<lparr>cl_dscp := 0\<rparr>) info w") auto
    next
      case 2
      then have "process_task S J msg (lt, w) = andThen (client_connect S ?c0 info w)
          (\<lambda>(_, c2, w1). Inr (add_connection (next_addr lt) (c2\<lparr>cl_dscp := 0\<rparr>) lt, w1))"
        using ADD_CONN Inr by (auto simp: process_task_def client_init_def Let_def)
      with con0 c0 add show ?thesis
        by (cases "client_connect S ?c0 info w") auto
    next
      case 3
      with ADD_CONN Inr wf show ?thesis by (simp add: process_task_def)
    qed
  qed (use wf ADD_CONN in \<open>simp add: process_task_def\<close>)
qed (use wf in \<open>simp_all add: process_task_def\<close>)

lemma evfc_cb_safe:
  assumes wf: "well_formed lt" and S: "libevent_ok S V" "creates_bufferevents S"
  shows "safe_result (evfc_cb S J fd (lt, w))"
proof -
  obtain ret one w1 where r: "eventfd_read S fd w = ((ret, one), w1)" by (metis prod.exhaust)
  have "safe_result (deliver_all (process_task S J) (task_queue lt) (lt\<lparr>task_queue := []\<rparr>, w1))"
    by (rule safe_deliver_all) (use wf process_task_safe [OF _ S] in simp_all)
  with r wf show ?thesis by (simp add: evfc_cb_def process_msg_def take_tasks_def)
qed

section \<open>The transition system\<close>

datatype callback =
    SessionRead nat
  | SessionWrite nat
  | SessionEvent nat "16 word"
  | ClientRead nat
  | ClientEvent nat "16 word"
  | ClientWrite nat
  | Accepted fd
  | Woken fd

text \<open>The static functions that libevent calls pass the call on to the object behind \<open>data\<close>.\<close>

definition on_client :: "nat \<Rightarrow> (redis_client \<Rightarrow> 'w \<Rightarrow> (redis_client \<times> 'w) run) \<Rightarrow>
    loop_thread \<times> 'w \<Rightarrow> (loop_thread \<times> 'w) run" where
  "on_client cid f = (\<lambda>(lt, w). case clients lt cid of
       None \<Rightarrow> Inl NullDeref
     | Some c \<Rightarrow> andThen (f c w) (\<lambda>(c', w'). Inr (lt\<lparr>clients := (clients lt)(cid \<mapsto> c')\<rparr>, w')))"

fun handle :: "'w sys \<Rightarrow> junk \<Rightarrow> callback \<Rightarrow> loop_thread \<times> 'w \<Rightarrow> (loop_thread \<times> 'w) run" where
  "handle S J (SessionRead sid) \<sigma> = session_readCallback S sid \<sigma>"
| "handle S J (SessionWrite sid) \<sigma> = session_writeCallback sid \<sigma>"
| "handle S J (SessionEvent sid events) \<sigma> = session_eventCallback S sid events \<sigma>"
| "handle S J (ClientRead cid) \<sigma> = client_readCallback S cid \<sigma>"
| "handle S J (ClientEvent cid events) \<sigma> = on_client cid (\<lambda>c. client_handleEvent S c events) \<sigma>"
| "handle S J (ClientWrite cid) \<sigma> = on_client cid (client_writeCallback S) \<sigma>"
| "handle S J (Accepted fd) (lt, w) = listenEventCallback S (junk_counter J (next_addr lt)) fd lt w"
| "handle S J (Woken fd) \<sigma> = evfc_cb S J fd \<sigma>"

text \<open>libevent calls back for a bufferevent only while it exists, so while its owner holds it.\<close>

fun enabled :: "callback \<Rightarrow> loop_thread \<Rightarrow> bool" where
  "enabled (SessionRead sid) lt = (case sessions lt sid of None \<Rightarrow> False | Some s \<Rightarrow> bev_get (s_bev_sptr s) \<noteq> None)"
| "enabled (SessionWrite sid) lt = (case sessions lt sid of None \<Rightarrow> False | Some s \<Rightarrow> bev_get (s_bev_sptr s) \<noteq> None)"
| "enabled (SessionEvent sid events) lt = (case sessions lt sid of None \<Rightarrow> False | Some s \<Rightarrow> bev_get (s_bev_sptr s) \<noteq> None)"
| "enabled (ClientRead cid) lt = (case clients lt cid of None \<Rightarrow> False | Some c \<Rightarrow> bev_get (bev_sptr c) \<noteq> None)"
| "enabled (ClientEvent cid events) lt = (case clients lt cid of None \<Rightarrow> False | Some c \<Rightarrow> bev_get (bev_sptr c) \<noteq> None)"
| "enabled (ClientWrite cid) lt = (case clients lt cid of None \<Rightarrow> False | Some c \<Rightarrow> bev_get (bev_sptr c) \<noteq> None)"
| "enabled (Accepted fd) lt = True"
| "enabled (Woken fd) lt = True"

text \<open>
  A run of the thread: it starts when \<open>init\<close> has succeeded in a thread that had set its
  thread-local pointer first (\<open>loop_thread_pool::init\<close>); then callbacks, tasks that other threads
  post, and changes of the system, in any order.
\<close>

inductive thread_reachable :: "'w sys \<Rightarrow> junk \<Rightarrow> loop_thread \<times> 'w \<Rightarrow> bool" for S J where
  started: "loop_thread_init S False generator junk_event (new_loop_thread True) w0 = Inr (Inr True, lt, w) \<Longrightarrow>
     thread_reachable S J (lt, w)"
| callback: "thread_reachable S J (lt, w) \<Longrightarrow> enabled ev lt \<Longrightarrow> handle S J ev (lt, w) = Inr \<sigma> \<Longrightarrow>
     thread_reachable S J \<sigma>"
| posted: "thread_reachable S J (lt, w) \<Longrightarrow> send2loop_thread S msg lt w = Inr (ok, lt', w') \<Longrightarrow>
     thread_reachable S J (lt', w')"
| environment: "thread_reachable S J (lt, w) \<Longrightarrow> thread_reachable S J (lt, w')"

lemma handle_safe:
  assumes wf: "well_formed lt" and S: "libevent_ok S V" "creates_bufferevents S" and en: "enabled ev lt"
  shows "safe_result (handle S J ev (lt, w))"
proof (cases ev)
  case (SessionRead sid)
  with en session_onRead_safe [OF wf, of sid S w] show ?thesis by (cases "sessions lt sid") auto
next
  case (SessionWrite sid)
  with wf show ?thesis by simp
next
  case (SessionEvent sid events)
  with en session_handleEvent_safe [OF wf, of sid S events w] show ?thesis by (cases "sessions lt sid") auto
next
  case (ClientRead cid)
  with en redis_onRead_safe [OF wf, of cid S w] show ?thesis by (cases "clients lt cid") auto
next
  case (ClientEvent cid events)
  with en client_callbacks_safe(1) [OF wf] show ?thesis
    by (cases "clients lt cid") (auto simp: on_client_def)
next
  case (ClientWrite cid)
  with en client_callbacks_safe(2) [OF wf] show ?thesis
    by (cases "clients lt cid") (auto simp: on_client_def)
next
  case (Accepted fd)
  with add_session_safe [OF wf S(2)] wf show ?thesis
    by (simp add: listenEventCallback_def well_formedD(1,2))
next
  case (Woken fd)
  with evfc_cb_safe [OF wf S] show ?thesis by simp
qed

lemma loop_thread_init_well_formed:
  assumes "loop_thread_init S new_thread generator junk_event (new_loop_thread True) w0 = Inr (Inr True, lt, w)"
  shows "well_formed lt"
  using assms
  by (auto simp: loop_thread_init_def well_formed_def new_loop_thread_def allocated_def Let_def andThen_eq_Inr
      split: sum.splits prod.splits if_splits)

lemma reachable_well_formed:
  assumes "thread_reachable S J \<sigma>" and S: "libevent_ok S V" "creates_bufferevents S"
  shows "well_formed (fst \<sigma>)"
  using assms(1)
proof (induction rule: thread_reachable.induct)
  case (started generator junk_event w0 lt w)
  then show ?case using loop_thread_init_well_formed by simp
next
  case (callback lt w ev \<sigma>)
  have "safe_result (handle S J ev (lt, w))"
    by (rule handle_safe [OF _ S callback(2)]) (use callback.IH in simp)
  with callback(3) show ?case by (cases \<sigma>) simp
next
  case (posted lt w msg ok lt' w')
  with send2loop_thread_safe [of lt S msg w] show ?case by auto
qed simp

section \<open>Properties\<close>

text \<open>
  C10: in every state a started loop thread can reach, by callbacks in any order, tasks posted by
  other threads and changes of the system, as long as bufferevents can be created: every session
  in the map and every session in a reply queue is a live object, every connection in the vector
  is a live client, a set eventfd has its client, and no shared pointer owns a null pointer.
\<close>

theorem thread_invariant:
  assumes "libevent_ok S V" and "creates_bufferevents S" and "thread_reachable S J (lt, w)"
  shows "tls_set lt \<and> loop_sptr lt \<noteq> None \<and> (evfd lt = 0 \<or> event_client_sptr lt \<noteq> None) \<and>
    snd ` set (fd_to_session_map lt) \<subseteq> dom (sessions lt) \<and>
    {cid. Some cid \<in> set (connection_sptr_vector lt)} = dom (clients lt) \<and>
    queued_sessions lt \<subseteq> dom (sessions lt) \<and>
    OwnsNull \<notin> s_bev_sptr ` ran (sessions lt) \<union> bev_sptr ` ran (clients lt)"
proof -
  have wf: "well_formed lt" using reachable_well_formed [OF assms(3,1,2)] by simp
  note D = well_formedD [OF wf]
  have "queued_sessions lt \<subseteq> dom (sessions lt)"
    using D(7) by (fastforce simp: queued_sessions_def split: option.splits)
  moreover have "{cid. Some cid \<in> set (connection_sptr_vector lt)} = dom (clients lt)"
    using D(5,6) by (auto simp: allocated_def)
  moreover have "OwnsNull \<notin> s_bev_sptr ` ran (sessions lt) \<union> bev_sptr ` ran (clients lt)"
    using D(8,9) by (auto simp: ran_def) metis+
  ultimately show ?thesis using D(1-3) well_formed_map_dom [OF wf] by blast
qed

text \<open>
  In no reachable state does a callback that libevent can make look up a null pointer or an object
  that is gone, as long as bufferevents can be created. (Other faults remain: the front of an empty
  reply queue, the reads of the parser, the listener's address.)
\<close>

theorem callbacks_never_null:
  assumes "libevent_ok S V" and "creates_bufferevents S" and "thread_reachable S J (lt, w)" and "enabled ev lt"
  shows "handle S J ev (lt, w) \<noteq> Inl NullDeref"
proof
  assume null: "handle S J ev (lt, w) = Inl NullDeref"
  have wf: "well_formed lt" using reachable_well_formed [OF assms(3,1,2)] by simp
  from handle_safe [OF wf assms(1,2,4), of J w] null show False by simp
qed

lemma sim_creates: "creates_bufferevents sim_sys"
  by (simp add: creates_bufferevents_def sim_sys_def)

definition demo_junk :: junk where
  "demo_junk = \<lparr> junk_counter = (\<lambda>_. 7), junk_info = example_info \<rparr>"

text \<open>A started thread, and the same thread after a client has connected and sent a request.\<close>

definition demo_started :: loop_thread where
  "demo_started = (new_loop_thread True)
     \<lparr>evfd := 5, loop_sptr := Some (run_begin (fst (snd (loop_init 0 (new_loop (Some 0)))))),
      event_server_sptr := Some \<lparr> srv_fd = 5, srv_callback = True, srv_event = Some 0 \<rparr>,
      event_client_sptr := Some 5\<rparr>"

definition demo_accepted :: loop_thread where
  "demo_accepted = demo_started
     \<lparr>sessions := [0 \<mapsto> (new_tcp_session 9 7)\<lparr>s_bev_sptr := Bev 2\<rparr>], next_addr := 1,
      fd_to_session_map := [(9, 0)]\<rparr>"

lemma demo_started_reachable: "thread_reachable sim_sys demo_junk (demo_started, w)"
proof -
  have "loop_thread_init sim_sys False 0 None (new_loop_thread True) w = Inr (Inr True, demo_started, w)"
    by (simp add: loop_thread_init_def demo_started_def sim_sys_def loop_init_def new_loop_def
        eventfd_server_init_def new_eventfd_server_def loop_start_def onBeforeStart_def Let_def)
  then show ?thesis by (rule thread_reachable.started)
qed

lemma demo_accepted_reachable: "thread_reachable sim_sys demo_junk (demo_accepted, w)"
proof -
  define w1 where "w1 = snd (bufferevent_socket_new sim_sys 9 (sim_state [] []))"
  have "handle sim_sys demo_junk (Accepted 9) (demo_started, sim_state [] []) = Inr (demo_accepted, w1)"
    by (simp add: listenEventCallback_def add_session_def session_init_def map_insert_def sim_sys_def w1_def
        demo_started_def demo_accepted_def demo_junk_def new_loop_thread_def new_tcp_session_def sim_state_def Let_def)
  from thread_reachable.callback [OF demo_started_reachable _ this]
  have "thread_reachable sim_sys demo_junk (demo_accepted, w1)" by simp
  then show ?thesis by (rule thread_reachable.environment)
qed

lemma thread_invariant_witness:
  "snd ` set (fd_to_session_map demo_accepted) \<subseteq> dom (sessions demo_accepted) \<and>
   queued_sessions demo_accepted \<subseteq> dom (sessions demo_accepted)"
  using thread_invariant [OF sim_ok sim_creates demo_accepted_reachable [where w = "sim_state [] []"]] by blast

lemma callbacks_never_null_witness:
  "handle sim_sys demo_junk (SessionRead 0) (demo_accepted, sim_state [] []) \<noteq> Inl NullDeref"
  by (rule callbacks_never_null [OF sim_ok sim_creates demo_accepted_reachable])
    (simp add: demo_accepted_def new_tcp_session_def)

end
