(* ===== verification/Mailbox.thy ===== *)
theory Mailbox
  imports Thread_Steps
begin

text \<open>
  The mailbox between a loop thread and the others: \<open>send2loop_thread\<close> queues a task under the
  lock and writes the eventfd; the loop reads the eventfd (\<open>evfc_cb\<close>), and only then takes the
  whole queue under the lock (\<open>process_msg\<close>). Posts may come at any point, also between the read
  and the swap. No wake-up is lost: a queued task always has a readable eventfd or a swap ahead.
\<close>

section \<open>Interleaved use of a mailbox\<close>

text \<open>
  A run of posts, wake-ups and swaps, with other work in between. The flag says that the loop has
  been woken and has not taken the queue yet; the two lists are what was posted and what was taken.
\<close>

inductive mail_run :: "('m \<Rightarrow> 's \<Rightarrow> 's run) \<Rightarrow> ('s \<Rightarrow> bool \<times> 's) \<Rightarrow> ('s \<Rightarrow> 'm list \<times> 's) \<Rightarrow>
    ('s \<Rightarrow> 's \<Rightarrow> bool) \<Rightarrow> 's \<Rightarrow> 's \<Rightarrow> bool \<Rightarrow> 'm list \<Rightarrow> 'm list \<Rightarrow> bool"
  for post wake take_all work s0 where
  begin_run: "mail_run post wake take_all work s0 s0 False [] []"
| post_task: "mail_run post wake take_all work s0 s woken posted taken \<Longrightarrow> post m s = Inr s' \<Longrightarrow>
     mail_run post wake take_all work s0 s' woken (posted @ [m]) taken"
| wake_up: "mail_run post wake take_all work s0 s False posted taken \<Longrightarrow> wake s = (ok, s') \<Longrightarrow>
     mail_run post wake take_all work s0 s' ok posted taken"
| swap_queues: "mail_run post wake take_all work s0 s True posted taken \<Longrightarrow> take_all s = (ms, s') \<Longrightarrow>
     mail_run post wake take_all work s0 s' False posted (taken @ ms)"
| other_work: "mail_run post wake take_all work s0 s woken posted taken \<Longrightarrow> work s s' \<Longrightarrow>
     mail_run post wake take_all work s0 s' woken posted taken"

locale mailbox =
  fixes good :: "'s \<Rightarrow> bool"
    and contents :: "'s \<Rightarrow> 'm list"
    and ready :: "'s \<Rightarrow> bool"
    and post :: "'m \<Rightarrow> 's \<Rightarrow> 's run"
    and wake :: "'s \<Rightarrow> bool \<times> 's"
    and take_all :: "'s \<Rightarrow> 'm list \<times> 's"
    and work :: "'s \<Rightarrow> 's \<Rightarrow> bool"
  assumes post_law: "good s \<Longrightarrow> post m s = Inr s' \<Longrightarrow> good s' \<and> contents s' = contents s @ [m] \<and> ready s'"
    and wake_law: "good s \<Longrightarrow> wake s = (ok, s') \<Longrightarrow>
      good s' \<and> contents s' = contents s \<and> ok = ready s \<and> (ok \<or> ready s' = ready s)"
    and take_law: "good s \<Longrightarrow> take_all s = (ms, s') \<Longrightarrow> good s' \<and> ms = contents s \<and> contents s' = []"
    and work_law: "good s \<Longrightarrow> work s s' \<Longrightarrow> good s' \<and> contents s' = contents s \<and> ready s' = ready s"
begin

text \<open>Nothing is lost, duplicated or reordered, and what is queued will be noticed.\<close>

lemma run_invariant:
  assumes "mail_run post wake take_all work s0 s woken posted taken" and "good s0" and "contents s0 = []"
  shows "good s \<and> posted = taken @ contents s \<and> (contents s = [] \<or> woken \<or> ready s)"
  using assms(1)
proof (induction rule: mail_run.induct)
  case begin_run
  with assms(2,3) show ?case by simp
next
  case (post_task s woken posted taken m s')
  with post_law [of s m s'] show ?case by simp
next
  case (wake_up s posted taken ok s')
  with wake_law [of s ok s'] show ?case by auto
next
  case (swap_queues s posted taken ms s')
  with take_law [of s ms s'] show ?case by simp
next
  case (other_work s woken posted taken s')
  with work_law [of s s'] show ?case by simp
qed

text \<open>A loop that is not woken and has something to do is woken by the next read.\<close>

lemma next_wake:
  assumes "mail_run post wake take_all work s0 s False posted taken" and "good s0" and "contents s0 = []"
    and "posted \<noteq> taken" and "wake s = (ok, s')"
  shows "ok \<and> posted = taken @ contents s'"
  using run_invariant [OF assms(1-3)] wake_law [of s ok s'] assms(4,5) by auto

end

section \<open>The mailbox of a loop thread\<close>

definition post_to_loop :: "'w sys \<Rightarrow> TASK_MSG \<Rightarrow> loop_thread \<times> 'w \<Rightarrow> (loop_thread \<times> 'w) run" where
  "post_to_loop S msg = (\<lambda>(lt, w). andThen (send2loop_thread S msg lt w) (\<lambda>(_, lt', w'). Inr (lt', w')))"

text \<open>The read at the start of \<open>evfc_cb\<close>: does \<open>process_msg\<close> follow?\<close>

definition wake_read :: "'w sys \<Rightarrow> loop_thread \<times> 'w \<Rightarrow> bool \<times> loop_thread \<times> 'w" where
  "wake_read S = (\<lambda>(lt, w). let ((ret, one), w1) = eventfd_read S (evfd lt) w in (ret = 8, lt, w1))"

definition take_from_loop :: "loop_thread \<times> 'w \<Rightarrow> TASK_QUEUE \<times> loop_thread \<times> 'w" where
  "take_from_loop = (\<lambda>(lt, w). let (ms, lt1) = take_tasks lt in (ms, lt1, w))"

text \<open>The rest of what the thread and the system do leaves the queue and the eventfd alone.\<close>

definition mail_work :: "('w \<Rightarrow> fd \<Rightarrow> 64 word) \<Rightarrow> loop_thread \<times> 'w \<Rightarrow> loop_thread \<times> 'w \<Rightarrow> bool" where
  "mail_work cnt = (\<lambda>(lt, w) (lt', w'). task_queue lt' = task_queue lt \<and> evfd lt' = evfd lt \<and>
     event_client_sptr lt' = event_client_sptr lt \<and> cnt w' (evfd lt) = cnt w (evfd lt))"

definition mail_good :: "'w sys \<Rightarrow> ('w \<Rightarrow> fd \<Rightarrow> 64 word) \<Rightarrow> loop_thread \<times> 'w \<Rightarrow> bool" where
  "mail_good S cnt = (\<lambda>(lt, w). eventfd_ok S cnt \<and> evfd lt \<noteq> 0 \<and> event_client_sptr lt = Some (evfd lt))"

definition mail_ready :: "('w \<Rightarrow> fd \<Rightarrow> 64 word) \<Rightarrow> loop_thread \<times> 'w \<Rightarrow> bool" where
  "mail_ready cnt = (\<lambda>(lt, w). cnt w (evfd lt) \<noteq> 0)"

text \<open>
  A write that fails has found the counter at its maximum, so the eventfd is readable either way.
\<close>

lemma eventfd_write_readable:
  assumes S: "eventfd_ok S cnt" and w: "eventfd_write S f 1 w = (r, w')"
  shows "cnt w' f \<noteq> 0"
proof (cases "unat (cnt w f) + 1 \<le> 2 ^ 64 - 2")
  case True
  have "cnt w' = (cnt w)(f := cnt w f + 1)"
    using S w True unfolding eventfd_ok_def by (metis unat_1)
  moreover have "unat (cnt w f + 1) = unat (cnt w f) + 1"
    using True by (subst unat_add_lem [THEN iffD1]) auto
  ultimately show ?thesis by (metis Suc_eq_plus1 fun_upd_same nat.distinct(1) unat_0)
next
  case False
  then have "cnt w' = cnt w" using S w unfolding eventfd_ok_def by (metis unat_1)
  with False show ?thesis by auto
qed

lemma eventfd_read_result:
  assumes "eventfd_ok S cnt" and "eventfd_read S f w = ((r, x), w')"
  shows "(r = 8) = (cnt w f \<noteq> 0)" and "r = 8 \<or> cnt w' = cnt w"
  using assms(1) [unfolded eventfd_ok_def, THEN conjunct2, rule_format, OF assms(2)]
  by (cases "cnt w f = 0"; simp)+

interpretation loop_mail: mailbox "mail_good S cnt" "\<lambda>(lt, w). task_queue lt" "mail_ready cnt"
    "post_to_loop S" "wake_read S" take_from_loop "mail_work cnt"
proof unfold_locales
  fix s s' :: "loop_thread \<times> 'a" and m
  obtain lt w lt' w' where s: "s = (lt, w)" "s' = (lt', w')" by (metis prod.exhaust)
  assume good: "mail_good S cnt s"
  show "mail_good S cnt s' \<and> (case s' of (lt, w) \<Rightarrow> task_queue lt) = (case s of (lt, w) \<Rightarrow> task_queue lt) @ [m] \<and> mail_ready cnt s'"
    if "post_to_loop S m s = Inr s'"
  proof -
    obtain r w1 where wr: "eventfd_write S (evfd lt) 1 w = (r, w1)" by (rule prod.exhaust)
    have "snd (eventfd_client_send S (evfd lt) w) = w1" using wr by (simp add: eventfd_client_send_def)
    with good that s have e: "lt' = lt\<lparr>task_queue := task_queue lt @ [m]\<rparr>" "w' = w1"
      by (simp_all add: mail_good_def post_to_loop_def send2loop_thread_def)
    have "cnt w1 (evfd lt) \<noteq> 0"
      using eventfd_write_readable [OF _ wr] good s by (simp add: mail_good_def)
    with e good s show ?thesis by (simp add: mail_good_def mail_ready_def)
  qed
  show "mail_good S cnt s' \<and> (case s' of (lt, w) \<Rightarrow> task_queue lt) = (case s of (lt, w) \<Rightarrow> task_queue lt) \<and>
      ok = mail_ready cnt s \<and> (ok \<or> mail_ready cnt s' = mail_ready cnt s)"
    if "wake_read S s = (ok, s')" for ok
  proof -
    obtain r x w1 where rd: "eventfd_read S (evfd lt) w = ((r, x), w1)" by (metis prod.exhaust)
    with that s have e: "ok = (r = 8)" "lt' = lt" "w' = w1" by (simp_all add: wake_read_def)
    have S: "eventfd_ok S cnt" using good s by (simp add: mail_good_def)
    from eventfd_read_result [OF S rd] e good s show ?thesis by (auto simp: mail_good_def mail_ready_def)
  qed
  show "mail_good S cnt s' \<and> ms = (case s of (lt, w) \<Rightarrow> task_queue lt) \<and> (case s' of (lt, w) \<Rightarrow> task_queue lt) = []"
    if "take_from_loop s = (ms, s')" for ms
    using that good s by (auto simp: take_from_loop_def take_tasks_def mail_good_def)
  show "mail_good S cnt s' \<and> (case s' of (lt, w) \<Rightarrow> task_queue lt) = (case s of (lt, w) \<Rightarrow> task_queue lt) \<and>
      mail_ready cnt s' = mail_ready cnt s"
    if "mail_work cnt s s'"
    using that good s by (simp add: mail_work_def mail_good_def mail_ready_def)
qed

section \<open>Properties\<close>

abbreviation loop_run_of where
  "loop_run_of S cnt \<equiv> mail_run (post_to_loop S) (wake_read S) take_from_loop (mail_work cnt)"

text \<open>
  C14: posts from other threads, eventfd reads and queue swaps may interleave in any order (a post
  also between the read and the swap): the tasks taken so far followed by the tasks in the queue
  are exactly the tasks posted, in order, and as long as a task is queued the loop is about to take
  the queue or the eventfd is readable, so no wake-up is lost. This holds also when a write to the
  eventfd fails because its counter is full.
\<close>

theorem no_lost_wakeup:
  assumes "eventfd_ok S cnt" and "evfd lt0 \<noteq> 0" and "event_client_sptr lt0 = Some (evfd lt0)"
    and "task_queue lt0 = []" and "loop_run_of S cnt (lt0, w0) (lt, w) woken posted taken"
  shows "posted = taken @ task_queue lt \<and> (task_queue lt = [] \<or> woken \<or> cnt w (evfd lt) \<noteq> 0)"
proof -
  have "mail_good S cnt (lt0, w0)" using assms(1-3) by (simp add: mail_good_def)
  from loop_mail.run_invariant [OF assms(5) this] assms(4) show ?thesis
    by (simp add: mail_ready_def)
qed

text \<open>
  C15: whenever the loop is idle and some posted task has not been taken, the next call of the
  eventfd callback runs every such task, each once and in the order of posting.
\<close>

theorem posted_tasks_run:
  assumes "eventfd_ok S cnt" and "evfd lt0 \<noteq> 0" and "event_client_sptr lt0 = Some (evfd lt0)"
    and "task_queue lt0 = []" and "loop_run_of S cnt (lt0, w0) (lt, w) False posted taken"
    and "posted \<noteq> taken"
  shows "\<exists>rest w1. posted = taken @ rest \<and> rest \<noteq> [] \<and>
    evfc_cb S J (evfd lt) (lt, w) = deliver_all (process_task S J) rest (lt\<lparr>task_queue := []\<rparr>, w1)"
proof -
  have good: "mail_good S cnt (lt0, w0)" using assms(1-3) by (simp add: mail_good_def)
  obtain r x w1 where rd: "eventfd_read S (evfd lt) w = ((r, x), w1)" by (metis prod.exhaust)
  then have "wake_read S (lt, w) = (r = 8, lt, w1)" by (simp add: wake_read_def)
  from loop_mail.next_wake [OF assms(5) good _ assms(6) this] assms(4)
  have "r = 8" "posted = taken @ task_queue lt" by simp_all
  with rd assms(6) show ?thesis
    by (intro exI [of _ "task_queue lt"] exI [of _ w1])
      (simp add: evfc_cb_def process_msg_def take_tasks_def)
qed

definition demo_exit :: TASK_MSG where
  "demo_exit = \<lparr> msg_type = EXIT_LOOP, msg_body = AnyEmpty \<rparr>"

definition demo_world :: sim where
  "demo_world = (sim_state [] [])\<lparr>sim_count := (\<lambda>f. if f = 5 then 1 else 0)\<rparr>"

lemma demo_posted:
  "loop_run_of sim_sys sim_count (demo_started, sim_state [] [])
     (demo_started\<lparr>task_queue := [demo_exit]\<rparr>, demo_world) False [demo_exit] []"
proof -
  have "post_to_loop sim_sys demo_exit (demo_started, sim_state [] []) =
      Inr (demo_started\<lparr>task_queue := [demo_exit]\<rparr>, demo_world)"
    by (simp add: post_to_loop_def send2loop_thread_def eventfd_client_send_def demo_started_def
        new_loop_thread_def sim_sys_def sim_state_def demo_world_def fun_eq_iff)
  then show ?thesis
    using mail_run.post_task [where post = "post_to_loop sim_sys" and posted = "[]" and m = demo_exit,
        OF mail_run.begin_run] by simp
qed

lemma demo_started_sel: "evfd demo_started \<noteq> 0" "event_client_sptr demo_started = Some (evfd demo_started)"
    "task_queue demo_started = []"
  by (simp_all add: demo_started_def new_loop_thread_def)

lemma no_lost_wakeup_witness:
  "[demo_exit] = [] @ task_queue (demo_started\<lparr>task_queue := [demo_exit]\<rparr>) \<and>
   sim_count demo_world (evfd (demo_started\<lparr>task_queue := [demo_exit]\<rparr>)) \<noteq> 0"
  using no_lost_wakeup [OF sim_eventfd demo_started_sel demo_posted] by simp

lemma posted_tasks_run_witness:
  "\<exists>rest w1. [demo_exit] = [] @ rest \<and> rest \<noteq> [] \<and>
     evfc_cb sim_sys demo_junk (evfd (demo_started\<lparr>task_queue := [demo_exit]\<rparr>))
         (demo_started\<lparr>task_queue := [demo_exit]\<rparr>, demo_world) =
       deliver_all (process_task sim_sys demo_junk) rest
         ((demo_started\<lparr>task_queue := [demo_exit]\<rparr>)\<lparr>task_queue := []\<rparr>, w1)"
  by (rule posted_tasks_run [OF sim_eventfd demo_started_sel demo_posted]) simp

end
