(* ===== verification/Task_Props.thy ===== *)
theory Task_Props
  imports Mailbox
begin

text \<open>
  What the tasks of a loop thread do: a task with a body of the wrong type is skipped, an event on
  a session ends in its deletion, and a listener task can end the program.
\<close>

section \<open>Bodies of the wrong type\<close>

definition task_castable :: "TASK_MSG \<Rightarrow> bool" where
  "task_castable msg =
     (case msg_type msg of
        NEW_SESSION \<Rightarrow> (case msg_body msg of AnyFd _ \<Rightarrow> True | _ \<Rightarrow> False)
      | DEL_SESSION \<Rightarrow> (case msg_body msg of AnyFd _ \<Rightarrow> True | _ \<Rightarrow> False)
      | NEW_LISTENER \<Rightarrow> (case msg_body msg of AnyConnInfo _ \<Rightarrow> True | _ \<Rightarrow> False)
      | ADD_CONN \<Rightarrow> (case msg_body msg of AnyConnInfo _ \<Rightarrow> True | _ \<Rightarrow> False)
      | _ \<Rightarrow> True)"

lemma process_task_not_castable: "\<not> task_castable msg \<Longrightarrow> process_task S J msg \<sigma> = Inr \<sigma>"
  by (cases "msg_type msg"; cases "msg_body msg"; cases \<sigma>)
    (simp_all add: task_castable_def process_task_def any_cast_fd_def any_cast_conn_info_def)

lemma deliver_all_skip:
  assumes "\<And>m s. \<not> P m \<Longrightarrow> d m s = Inr s"
  shows "deliver_all d (filter P ms) s = deliver_all d ms s"
proof (induction ms arbitrary: s)
  case (Cons m ms)
  show ?case
  proof (cases "P m")
    case True
    with Cons.IH show ?thesis by (cases "d m s") simp_all
  next
    case False
    with Cons.IH assms show ?thesis by simp
  qed
qed simp

text \<open>
  C36: a task whose body has the wrong type changes nothing and stops nothing: a queue with such
  tasks is processed exactly as the queue without them.
\<close>

theorem bad_tasks_skipped:
  "process_msg S J (lt\<lparr>task_queue := q\<rparr>, w) = process_msg S J (lt\<lparr>task_queue := filter task_castable q\<rparr>, w)"
proof -
  have run: "process_msg S J (lt\<lparr>task_queue := p\<rparr>, w) = deliver_all (process_task S J) p (lt\<lparr>task_queue := []\<rparr>, w)" for p
    by (simp add: process_msg_def take_tasks_def)
  show ?thesis unfolding run by (rule deliver_all_skip [OF process_task_not_castable, symmetric])
qed

section \<open>The end of a session\<close>

definition del_session :: "fd \<Rightarrow> TASK_MSG" where
  "del_session fd = \<lparr> msg_type = DEL_SESSION, msg_body = AnyFd fd \<rparr>"

lemma process_del_session:
  "process_task S J (del_session fd) (lt, w) = map_erase S fd lt w"
  by (simp add: process_task_def del_session_def any_cast_fd_def)

lemma queued_sessions_cong:
  "connection_sptr_vector lt' = connection_sptr_vector lt \<Longrightarrow> clients lt' = clients lt \<Longrightarrow>
   queued_sessions lt' = queued_sessions lt"
  by (simp only: queued_sessions_def)

lemma deliver_all_single: "deliver_all d [m] s = d m s"
  by (cases "d m s") simp_all

text \<open>What erasing the last entry of a session in the map does: the reply queues decide.\<close>

lemma map_erase_session:
  assumes "map_of (fd_to_session_map lt) fd = Some sid" and "sessions lt sid = Some s" and "s_bev_sptr s = Bev b"
    and "sid \<notin> snd ` set (AList.delete fd (fd_to_session_map lt))"
  shows "map_erase S fd lt w =
    (if sid \<in> queued_sessions lt
     then Inr (lt\<lparr>fd_to_session_map := AList.delete fd (fd_to_session_map lt)\<rparr>, w)
     else Inr (lt\<lparr>fd_to_session_map := AList.delete fd (fd_to_session_map lt),
                 sessions := (sessions lt)(sid := None)\<rparr>, bufferevent_free S b w))"
proof -
  let ?lt = "lt\<lparr>fd_to_session_map := AList.delete fd (fd_to_session_map lt)\<rparr>"
  have q: "queued_sessions ?lt = queued_sessions lt" by (rule queued_sessions_cong) simp_all
  show ?thesis
    using assms by (simp add: map_erase_def session_unref_def session_referenced_def q session_destroy_release)
qed

lemma session_handleEvent_posts:
  assumes "tls_set lt" and "sessions lt sid = Some s" and "evfd lt \<noteq> 0" and "event_client_sptr lt = Some efd"
  shows "\<exists>w1. session_handleEvent S sid events (lt, w) =
    Inr (lt\<lparr>sessions := (sessions lt)(sid \<mapsto> s\<lparr>s_isClosing := True\<rparr>),
           task_queue := task_queue lt @ [del_session (s_fd s)]\<rparr>, w1) \<and>
    w1 = snd (eventfd_write S efd 1 w)"
  using assms by (simp add: session_handleEvent_def send2loop_thread_def eventfd_client_send_def del_session_def
      Let_def split: prod.splits)

text \<open>
  C20: any event on a session, a harmless one included, ends it: nothing is sent to it from then on,
  and once the loop has processed its tasks the session is gone from the map. The session and its
  bufferevent live on exactly as long as some reply queue still holds the session; if none does,
  they are gone as well.
\<close>

theorem session_event_closes:
  assumes "tls_set lt" and "sessions lt sid = Some s" and "s_bev_sptr s = Bev b"
    and "evfd lt \<noteq> 0" and "event_client_sptr lt = Some efd" and "task_queue lt = []"
    and "map_of (fd_to_session_map lt) (s_fd s) = Some sid"
    and "sid \<notin> snd ` set (AList.delete (s_fd s) (fd_to_session_map lt))"
  shows "\<exists>lt1 w1 lt2 w2 s1.
    session_handleEvent S sid events (lt, w) = Inr (lt1, w1) \<and> sessions lt1 sid = Some s1 \<and>
    (\<forall>mem off n v. session_send S s1 mem off n v = Inr (False, v)) \<and>
    process_msg S J (lt1, w1) = Inr (lt2, w2) \<and>
    map_of (fd_to_session_map lt2) = (map_of (fd_to_session_map lt))(s_fd s := None) \<and>
    (if sid \<in> queued_sessions lt then sessions lt2 sid = Some s1 \<and> w2 = w1
     else sessions lt2 sid = None \<and> w2 = bufferevent_free S b w1)"
proof -
  let ?s = "s\<lparr>s_isClosing := True\<rparr>"
  let ?lt = "lt\<lparr>sessions := (sessions lt)(sid \<mapsto> ?s)\<rparr>"
  let ?lt1 = "?lt\<lparr>task_queue := [del_session (s_fd s)]\<rparr>"
  let ?m = "AList.delete (s_fd s) (fd_to_session_map lt)"
  obtain w1 where h: "session_handleEvent S sid events (lt, w) = Inr (?lt1, w1)"
    using session_handleEvent_posts [OF assms(1,2,4,5), of S events w] assms(6) by auto
  have q: "queued_sessions ?lt = queued_sessions lt" by (rule queued_sessions_cong) simp_all
  have e: "?lt\<lparr>task_queue := []\<rparr> = ?lt" by (rule loop_thread.equality) (use assms(6) in simp_all)
  have "process_msg S J (?lt1, w1) = deliver_all (process_task S J) [del_session (s_fd s)] (?lt\<lparr>task_queue := []\<rparr>, w1)"
    by (simp add: process_msg_def take_tasks_def)
  also have "\<dots> = map_erase S (s_fd s) ?lt w1"
    unfolding e deliver_all_single process_del_session by (rule refl)
  also have "\<dots> = (if sid \<in> queued_sessions ?lt
     then Inr (?lt\<lparr>fd_to_session_map := AList.delete (s_fd s) (fd_to_session_map ?lt)\<rparr>, w1)
     else Inr (?lt\<lparr>fd_to_session_map := AList.delete (s_fd s) (fd_to_session_map ?lt),
                 sessions := (sessions ?lt)(sid := None)\<rparr>, bufferevent_free S b w1))"
    by (rule map_erase_session [where s = ?s]) (use assms in simp_all)
  finally have p: "process_msg S J (?lt1, w1) = (if sid \<in> queued_sessions lt
     then Inr (?lt\<lparr>fd_to_session_map := ?m\<rparr>, w1)
     else Inr (?lt\<lparr>fd_to_session_map := ?m, sessions := (sessions ?lt)(sid := None)\<rparr>, bufferevent_free S b w1))"
    unfolding q by simp
  have sends: "\<forall>mem off n v. session_send S ?s mem off n v = Inr (False, v)"
    by (simp add: session_send_refused)
  have m: "map_of ?m = (map_of (fd_to_session_map lt))(s_fd s := None)" by (simp add: AList.delete_conv')
  show ?thesis
  proof (cases "sid \<in> queued_sessions lt")
    case True
    with h p sends m show ?thesis
      by (intro exI [of _ ?lt1] exI [of _ w1] exI [of _ "?lt\<lparr>fd_to_session_map := ?m\<rparr>"] exI [of _ ?s]) simp
  next
    case False
    with h p sends m show ?thesis
      by (intro exI [of _ ?lt1] exI [of _ w1] exI [of _ "bufferevent_free S b w1"] exI [of _ ?s]
          exI [of _ "?lt\<lparr>fd_to_session_map := ?m, sessions := (sessions ?lt)(sid := None)\<rparr>"]) simp
  qed
qed

lemma demo_accepted_sel:
  "tls_set demo_accepted" "sessions demo_accepted 0 = Some ((new_tcp_session 9 7)\<lparr>s_bev_sptr := Bev 2\<rparr>)"
  "evfd demo_accepted \<noteq> 0" "event_client_sptr demo_accepted = Some 5" "task_queue demo_accepted = []"
  "fd_to_session_map demo_accepted = [(9, 0)]" "queued_sessions demo_accepted = {}"
  "connection_sptr_vector demo_accepted = []"
  by (simp_all add: demo_accepted_def demo_started_def new_loop_thread_def queued_sessions_def)

lemma session_event_closes_witness:
  "\<exists>lt1 w1 lt2 w2. session_handleEvent sim_sys 0 0x11 (demo_accepted, sim_state [] []) = Inr (lt1, w1) \<and>
     process_msg sim_sys demo_junk (lt1, w1) = Inr (lt2, w2) \<and>
     sessions lt2 0 = None \<and> w2 = bufferevent_free sim_sys 2 w1"
  using session_event_closes [OF demo_accepted_sel(1,2) _ demo_accepted_sel(3,4,5),
      where S = sim_sys and b = 2 and events = "0x11" and w = "sim_state [] []" and J = demo_junk]
  by (simp add: demo_accepted_sel new_tcp_session_def) metis

section \<open>Listeners\<close>

text \<open>
  A listener task can end the program: an address text that does not parse throws an exception
  that nobody catches, and an IPv6 address is written past the end of the IPv4 address structure on
  the stack.
\<close>

theorem listener_task_faults:
  assumes "msg_type msg = NEW_LISTENER" and "msg_body msg = AnyConnInfo c" and "loop_sptr lt \<noteq> None"
    and "address_from_string S (ci_IP c) = None \<or>
      address_from_string S (ci_IP c) = Some AF_INET6 \<and> inet_pton S AF_INET6 (c_str (ci_IP c)) = Some bs \<and> length bs = 16"
  shows "process_task S J msg (lt, w) =
    Inl (if address_from_string S (ci_IP c) = None then Terminate else StackSmash)"
proof -
  have run: "process_task S J msg (lt, w) = andThen (tcp_listen S (ci_IP c) (ci_port c) w)
      (\<lambda>r. case r of Inl _ \<Rightarrow> Inl Terminate | Inr (_, _, w1) \<Rightarrow> Inr (lt, w1))"
    using assms(1-3) by (auto simp: process_task_def any_cast_conn_info_def)
  from assms(4) show ?thesis
    unfolding run
    by (elim disjE) (auto simp: tcp_listen_def store_pton_def store_bytes_def sizeof_sockaddr_in_def)
qed

definition demo_listen :: "bytes \<Rightarrow> TASK_MSG" where
  "demo_listen ip = \<lparr> msg_type = NEW_LISTENER, msg_body = AnyConnInfo (example_info\<lparr>ci_IP := ip\<rparr>) \<rparr>"

lemma listener_task_faults_witness:
  "process_task sim_sys demo_junk (demo_listen ''::1'') (demo_started, sim_state [] []) = Inl StackSmash \<and>
   process_task sim_sys demo_junk (demo_listen []) (demo_started, sim_state [] []) = Inl Terminate"
  using listener_task_faults [of "demo_listen ''::1''" "example_info\<lparr>ci_IP := ''::1''\<rparr>" demo_started sim_sys
      "replicate 16 (CHR 0x01)" demo_junk "sim_state [] []"]
    listener_task_faults [of "demo_listen []" "example_info\<lparr>ci_IP := []\<rparr>" demo_started sim_sys
      "[]" demo_junk "sim_state [] []"]
  by (simp add: demo_listen_def demo_started_def sim_sys_def)

end
