(* ===== verification/Loop_Pool.thy ===== *)
theory Loop_Pool
  imports Mailbox "HOL-Library.While_Combinator"
begin

text \<open>
  The pool of loop threads, \<open>loop_thread_pool\<close> (\<open>src/include/loop_thread_pool.hpp\<close>): creation,
  waiting for the loops, choosing a loop in turn, tasks to all loops, and stopping.
\<close>

section \<open>The pool\<close>

text \<open>The loop threads, and the \<open>std::thread\<close> objects that run them.\<close>

record loop_thread_pool =
  loop_threads :: "loop_thread list"
  threads :: "thread_sptr list"
  loop_num :: "32 word"
  select_index :: "32 word"

definition new_pool :: "32 word \<Rightarrow> loop_thread_pool" where
  "new_pool n = \<lparr> loop_threads = [], threads = [], loop_num = n, select_index = 0 \<rparr>"

text \<open>The size of the instance, from what \<open>hardware_concurrency\<close> returns (0 when unknown).\<close>

definition instance_size :: "32 word \<Rightarrow> 32 word" where
  "instance_size concurrency = (if concurrency > 1 then concurrency - 1 else 1)"

definition add_loop :: "loop_thread \<Rightarrow> loop_thread_pool \<Rightarrow> loop_thread_pool" where
  "add_loop lt p = p\<lparr>loop_threads := loop_threads p @ [lt]\<rparr>"

section \<open>Initialisation\<close>

text \<open>
  The first loop of \<open>init\<close>, with \<open>n\<close> rounds to go: every new thread sets its thread-local pointer
  to the new loop thread before it does anything else.
\<close>

primrec create_loops :: "nat \<Rightarrow> loop_thread_pool \<Rightarrow> loop_thread_pool" where
  "create_loops 0 p = p"
| "create_loops (Suc n) p =
     (let p1 = add_loop (new_loop_thread True) p
      in create_loops n (p1\<lparr>threads := threads p1 @ [Joinable]\<rparr>))"

text \<open>What each thread runs; an exception that leaves it ends the program.\<close>

definition pool_thread_main ::
    "'w sys \<Rightarrow> 32 word \<Rightarrow> nat option \<Rightarrow> loop_thread \<Rightarrow> 'w \<Rightarrow> (loop_thread \<times> 'w) run" where
  "pool_thread_main S generator junk_event lt w =
     andThen (loop_thread_init S False generator junk_event lt w) (\<lambda>(r, lt', w').
       case r of Inl _ \<Rightarrow> Inl Terminate | Inr _ \<Rightarrow> Inr (lt', w'))"

definition status_seen :: "loop_thread \<Rightarrow> loop_status option" where
  "status_seen lt = map_option loop_status (loop_sptr lt)"

text \<open>
  The second loop polls the loop threads one after the other, without a bound. \<open>obs t i\<close> is loop
  thread \<open>i\<close> as it is at the \<open>t\<close>-th look; a round looks for the loop first, and then at its
  status. No result means that \<open>init\<close> never returns.
\<close>

definition poll_round :: "(nat \<Rightarrow> nat \<Rightarrow> loop_thread) \<Rightarrow> nat \<times> nat \<Rightarrow> nat \<times> nat" where
  "poll_round obs = (\<lambda>(i, t).
     if loop_sptr (obs t i) = None then (i, t + 1)
     else if status_seen (obs (t + 1) i) \<noteq> Some StatusRunning then (i, t + 2)
     else (i + 1, t + 2))"

definition pool_wait :: "(nat \<Rightarrow> nat \<Rightarrow> loop_thread) \<Rightarrow> nat \<Rightarrow> (nat \<times> nat) option" where
  "pool_wait obs n = while_option (\<lambda>(i, t). i < n) (poll_round obs) (0, 0)"

definition pool_init :: "(nat \<Rightarrow> nat \<Rightarrow> loop_thread) \<Rightarrow> loop_thread_pool \<Rightarrow> (bool \<times> loop_thread_pool) option" where
  "pool_init obs p =
     (let p1 = create_loops (unat (loop_num p)) p
      in map_option (\<lambda>_. (True, p1)) (pool_wait obs (length (loop_threads p1))))"

lemma create_loops_eq:
  "create_loops n p = p\<lparr>loop_threads := loop_threads p @ replicate n (new_loop_thread True),
     threads := threads p @ replicate n Joinable\<rparr>"
  by (induction n arbitrary: p) (simp_all add: add_loop_def replicate_append_same Let_def)

lemma pool_wait_returns:
  assumes "\<And>i t. i < n \<Longrightarrow> T \<le> t \<Longrightarrow> status_seen (obs t i) = Some StatusRunning"
  shows "\<exists>r. pool_wait obs n = Some r"
  unfolding pool_wait_def
proof (rule measure_while_option_Some [where P = "\<lambda>_. True" and f = "\<lambda>(i, t). (n - i) + (T - t)"])
  fix s :: "nat \<times> nat"
  obtain i t where s: "s = (i, t)" by (rule prod.exhaust)
  assume "case s of (i, t) \<Rightarrow> i < n"
  then have i: "i < n" by (simp add: s)
  show "True \<and> (case poll_round obs s of (i, t) \<Rightarrow> (n - i) + (T - t)) < (case s of (i, t) \<Rightarrow> (n - i) + (T - t))"
  proof (cases "T \<le> t")
    case True
    then have "loop_sptr (obs t i) \<noteq> None" "status_seen (obs (t + 1) i) = Some StatusRunning"
      using assms [OF i, of t] assms [OF i, of "t + 1"] by (auto simp: status_seen_def)
    with i True show ?thesis by (auto simp: s poll_round_def)
  next
    case False
    with i show ?thesis by (auto simp: s poll_round_def)
  qed
qed simp

lemma pool_wait_hangs:
  assumes "i < n" and "\<And>t. status_seen (obs t i) \<noteq> Some StatusRunning"
  shows "pool_wait obs n = None"
proof (rule ccontr)
  assume "pool_wait obs n \<noteq> None"
  then obtain r where r: "while_option (\<lambda>(i, t). i < n) (poll_round obs) (0, 0) = Some r"
    by (auto simp: pool_wait_def)
  have "fst r \<le> i"
  proof (rule while_option_rule [where P = "\<lambda>s. fst s \<le> i", OF _ r])
    fix s :: "nat \<times> nat" assume le: "fst s \<le> i"
    show "fst (poll_round obs s) \<le> i"
      using le assms(2) [of "snd s + 1"] by (cases s) (auto simp: poll_round_def le_less)
  qed simp
  moreover have "\<not> fst r < n" using while_option_stop [OF r] by (cases r) simp
  ultimately show False using assms(1) by simp
qed

section \<open>Choosing a loop\<close>

definition get_loop_thread :: "loop_thread_pool \<Rightarrow> (nat \<times> loop_thread_pool) run" where
  "get_loop_thread p =
     (let p1 = p\<lparr>select_index := select_index p + 1\<rparr>
      in if loop_num p1 = 0 then Inl DivByZero
         else let tmp_index = unat (select_index p1 mod loop_num p1)
           in if tmp_index < length (loop_threads p1) then Inr (tmp_index, p1) else Inl OutOfBounds)"

section \<open>Tasks for all loops\<close>

fun send_each :: "'w sys \<Rightarrow> (nat \<Rightarrow> TASK_MSG) \<Rightarrow> nat \<Rightarrow> loop_thread list \<Rightarrow> 'w \<Rightarrow> (loop_thread list \<times> 'w) run" where
  "send_each S msg i [] w = Inr ([], w)"
| "send_each S msg i (lt # lts) w =
     andThen (send2loop_thread S (msg i) lt w) (\<lambda>(_, lt', w').
       andThen (send_each S msg (i + 1) lts w') (\<lambda>(lts', w''). Inr (lt' # lts', w'')))"

definition send_to_all :: "'w sys \<Rightarrow> TASK_MSG \<Rightarrow> loop_thread_pool \<Rightarrow> 'w \<Rightarrow> (bool \<times> loop_thread_pool \<times> 'w) run" where
  "send_to_all S msg p w =
     andThen (send_each S (\<lambda>_. msg) 0 (loop_threads p) w)
       (\<lambda>(lts, w'). Inr (True, p\<lparr>loop_threads := lts\<rparr>, w'))"

section \<open>Stopping\<close>

text \<open>
  \<open>stop\<close> sends every loop thread a task to exit, then joins the threads in turn. \<open>ended\<close> says which
  threads end at some time; joining one that does not never returns, and joining one that is not
  joinable throws.
\<close>

fun join_all :: "(nat \<Rightarrow> bool) \<Rightarrow> nat \<Rightarrow> thread_sptr list \<Rightarrow> ((std_exception + unit) \<times> thread_sptr list) option" where
  "join_all ended i [] = Some (Inr (), [])"
| "join_all ended i (t # ts) =
     (if t \<noteq> Joinable then Some (Inl system_error, t # ts)
      else if \<not> ended i then None
      else map_option (\<lambda>(r, ts'). (r, Joined # ts')) (join_all ended (i + 1) ts))"

definition exit_msg :: "nat \<Rightarrow> TASK_MSG" where
  "exit_msg i = \<lparr> msg_type = EXIT_LOOP, msg_body = AnyLoopThread i \<rparr>"

definition pool_stop ::
    "'w sys \<Rightarrow> (nat \<Rightarrow> bool) \<Rightarrow> loop_thread_pool \<Rightarrow> 'w \<Rightarrow>
     ((std_exception + bool) \<times> loop_thread_pool \<times> 'w) option run" where
  "pool_stop S ended p w =
     andThen (send_each S exit_msg 0 (loop_threads p) w) (\<lambda>(lts, w').
       Inr (map_option (\<lambda>(r, ts). (map_sum id (\<lambda>_. True) r, p\<lparr>loop_threads := lts, threads := ts\<rparr>, w'))
              (join_all ended 0 (threads p))))"

section \<open>Properties\<close>

text \<open>
  If every loop is seen running from some time on, \<open>init\<close> returns true, and the pool then has
  the configured number of loop threads, each with a joinable thread.
\<close>

theorem pool_init_returns:
  assumes "\<And>i t. i < unat (loop_num p) \<Longrightarrow> T \<le> t \<Longrightarrow> status_seen (obs t i) = Some StatusRunning"
    and "loop_threads p = []" and "threads p = []"
  shows "\<exists>p'. pool_init obs p = Some (True, p') \<and> length (loop_threads p') = unat (loop_num p) \<and>
    threads p' = replicate (unat (loop_num p)) Joinable"
  using pool_wait_returns [of "unat (loop_num p)" T obs, OF assms(1)] assms(2,3)
  by (auto simp: pool_init_def create_loops_eq Let_def)

lemma failed_init_status:
  assumes "loop_thread_init S False generator junk_event (new_loop_thread tls) w = Inr (Inr False, lt, w')"
  shows "status_seen lt = Some StatusInit"
  using assms
  by (auto simp: loop_thread_init_def loop_init_def new_loop_def status_seen_def Let_def andThen_eq_Inr
      split: prod.splits if_splits sum.splits)

text \<open>
  C27: if the set-up of one loop thread fails (its \<open>init\<close> returns false, say because no eventfd could
  be created), the failure is only logged and \<open>init\<close> of the pool polls that thread's status for
  ever: it never returns.
\<close>

theorem pool_init_hangs:
  assumes "loop_thread_init S False generator junk_event (new_loop_thread True) w = Inr (Inr False, lt, w')"
    and "i < unat (loop_num p)" and "loop_threads p = []"
    and "\<And>t. obs t i = new_loop_thread True \<or> obs t i = lt"
  shows "pool_init obs p = None"
proof -
  have "status_seen (obs t i) \<noteq> Some StatusRunning" for t
    using assms(4) [of t] failed_init_status [OF assms(1)] by (auto simp: status_seen_def new_loop_thread_def)
  then have "pool_wait obs (unat (loop_num p)) = None" by (rule pool_wait_hangs [OF assms(2)])
  with assms(3) show ?thesis by (simp add: pool_init_def create_loops_eq Let_def)
qed

text \<open>Several calls of \<open>get_loop_thread\<close> in a row.\<close>

fun get_loop_threads :: "nat \<Rightarrow> loop_thread_pool \<Rightarrow> (nat list \<times> loop_thread_pool) run" where
  "get_loop_threads 0 p = Inr ([], p)"
| "get_loop_threads (Suc k) p = andThen (get_loop_thread p) (\<lambda>(i, p1).
     andThen (get_loop_threads k p1) (\<lambda>(is, p2). Inr (i # is, p2)))"

lemma get_loop_thread_index:
  assumes "unat (loop_num p) = length (loop_threads p)" and "loop_threads p \<noteq> []"
    and "unat (select_index p) + 1 < 2 ^ 32"
  shows "get_loop_thread p =
    Inr ((unat (select_index p) + 1) mod length (loop_threads p), p\<lparr>select_index := select_index p + 1\<rparr>)"
proof -
  have "loop_num p \<noteq> 0" using assms(1,2) by auto
  moreover have "unat (select_index p + 1) = unat (select_index p) + 1"
    using assms(3) by (rule unat_plus_one)
  ultimately show ?thesis using assms(1,2) by (simp add: get_loop_thread_def unat_mod Let_def)
qed

lemma get_loop_threads_indices:
  assumes "unat (loop_num p) = length (loop_threads p)" and "loop_threads p \<noteq> []"
    and "unat (select_index p) + k < 2 ^ 32"
  shows "\<exists>p'. get_loop_threads k p =
    Inr (map (\<lambda>j. (unat (select_index p) + 1 + j) mod length (loop_threads p)) [0..<k], p')"
  using assms
proof (induction k arbitrary: p)
  case (Suc k)
  let ?p = "p\<lparr>select_index := select_index p + 1\<rparr>"
  have u: "unat (select_index p + 1) = unat (select_index p) + 1"
    by (rule unat_plus_one) (use Suc.prems(3) in simp)
  have "\<exists>p'. get_loop_threads k ?p =
      Inr (map (\<lambda>j. (unat (select_index ?p) + 1 + j) mod length (loop_threads ?p)) [0..<k], p')"
    by (rule Suc.IH) (use Suc.prems u in simp_all)
  then obtain p' where "get_loop_threads k ?p =
      Inr (map (\<lambda>j. (unat (select_index p) + 1 + Suc j) mod length (loop_threads p)) [0..<k], p')"
    by (auto simp: u)
  moreover have "get_loop_thread p = Inr ((unat (select_index p) + 1) mod length (loop_threads p), ?p)"
    by (rule get_loop_thread_index) (use Suc.prems in simp_all)
  moreover have "[0..<Suc k] = 0 # map Suc [0..<k]" by (simp add: upt_conv_Cons map_Suc_upt del: upt_Suc)
  ultimately show ?case by (simp add: comp_def del: upt_Suc)
qed simp

text \<open>
  C26: as many calls of \<open>get_loop_thread\<close> in a row as there are loops return every loop exactly once,
  in cyclic order, as long as the 32-bit index does not wrap around on the way.
\<close>

theorem pool_round_robin:
  assumes "unat (loop_num p) = length (loop_threads p)" and "loop_threads p \<noteq> []"
    and "unat (select_index p) + length (loop_threads p) < 2 ^ 32"
  shows "\<exists>ks p'. get_loop_threads (length (loop_threads p)) p = Inr (ks, p') \<and>
    ks = map (\<lambda>j. (unat (select_index p) + 1 + j) mod length (loop_threads p)) [0..<length (loop_threads p)] \<and>
    distinct ks \<and> set ks = {..<length (loop_threads p)}"
proof -
  let ?n = "length (loop_threads p)" and ?g = "unat (select_index p) + 1"
  let ?ks = "map (\<lambda>j. (?g + j) mod ?n) [0..<?n]"
  obtain p' where r: "get_loop_threads ?n p = Inr (?ks, p')"
    using get_loop_threads_indices [OF assms] by blast
  have "i \<in> set ?ks" if i: "i < ?n" for i
  proof -
    obtain k where "k < ?n" "(?g + k) mod ?n = i" using position_in_turn [OF i, where g = ?g] by blast
    then show ?thesis by force
  qed
  moreover have "set ?ks \<subseteq> {..<?n}" using assms(2) by auto
  ultimately have s: "set ?ks = {..<?n}" by blast
  have d: "distinct ?ks" by (rule card_distinct) (simp only: s length_map length_upt card_lessThan diff_zero)
  with r s show ?thesis by blast
qed

section \<open>Tasks for all loops\<close>

lemma eventfd_write_keeps_readable:
  assumes S: "eventfd_ok S cnt" and w: "eventfd_write S f 1 w = (r, w')" and g: "cnt w g \<noteq> 0"
  shows "cnt w' g \<noteq> 0"
proof (cases "g = f")
  case True
  with eventfd_write_readable [OF S w] show ?thesis by simp
next
  case False
  have "cnt w' = cnt w \<or> cnt w' = (cnt w)(f := cnt w f + 1)"
    using S w unfolding eventfd_ok_def by metis
  with False g show ?thesis by auto
qed

text \<open>A loop thread that tasks can be sent to: without its eventfd, or with the client for it.\<close>

definition sendable :: "loop_thread \<Rightarrow> bool" where
  "sendable lt \<longleftrightarrow> evfd lt = 0 \<or> event_client_sptr lt = Some (evfd lt)"

definition enqueue :: "TASK_MSG \<Rightarrow> loop_thread \<Rightarrow> loop_thread" where
  "enqueue msg lt = lt\<lparr>task_queue := task_queue lt @ [msg]\<rparr>"

definition all_awake :: "('w \<Rightarrow> fd \<Rightarrow> 64 word) \<Rightarrow> 'w \<Rightarrow> loop_thread list \<Rightarrow> bool" where
  "all_awake cnt w lts \<longleftrightarrow> list_all (\<lambda>lt. evfd lt = 0 \<or> cnt w (evfd lt) \<noteq> 0) lts"

lemma send_one:
  assumes S: "eventfd_ok S cnt" and s: "sendable lt"
  obtains ok w' where "send2loop_thread S msg lt w = Inr (ok, enqueue msg lt, w')"
    "evfd lt = 0 \<or> cnt w' (evfd lt) \<noteq> 0" "\<And>g. cnt w g \<noteq> 0 \<Longrightarrow> cnt w' g \<noteq> 0"
proof (cases "evfd lt = 0")
  case True
  then have "send2loop_thread S msg lt w = Inr (False, enqueue msg lt, w)"
    by (simp add: send2loop_thread_def enqueue_def)
  with that True show thesis by blast
next
  case False
  obtain r w' where wr: "eventfd_write S (evfd lt) 1 w = (r, w')" by (rule prod.exhaust)
  have "send2loop_thread S msg lt w = Inr (True, enqueue msg lt, w')"
    using False s wr by (simp add: send2loop_thread_def enqueue_def sendable_def eventfd_client_send_def)
  with that eventfd_write_readable [OF S wr] eventfd_write_keeps_readable [OF S wr] show thesis by blast
qed

lemma send_each_all:
  assumes S: "eventfd_ok S cnt" and "list_all sendable lts"
  shows "\<exists>w'. send_each S msg i lts w = Inr (map2 (\<lambda>k. enqueue (msg k)) [i..<i + length lts] lts, w') \<and>
    all_awake cnt w' lts \<and> (\<forall>g. cnt w g \<noteq> 0 \<longrightarrow> cnt w' g \<noteq> 0)"
  using assms(2)
proof (induction lts arbitrary: i w)
  case Nil
  then show ?case by (simp add: all_awake_def)
next
  case (Cons lt lts)
  then have s: "sendable lt" by simp
  obtain ok w1 where one: "send2loop_thread S (msg i) lt w = Inr (ok, enqueue (msg i) lt, w1)"
    "evfd lt = 0 \<or> cnt w1 (evfd lt) \<noteq> 0" "\<And>g. cnt w g \<noteq> 0 \<Longrightarrow> cnt w1 g \<noteq> 0"
    by (rule send_one [OF S s, where msg = "msg i" and w = w]) (rule that)
  obtain w' where IH: "send_each S msg (i + 1) lts w1 =
      Inr (map2 (\<lambda>k. enqueue (msg k)) [i + 1..<i + 1 + length lts] lts, w')"
    "all_awake cnt w' lts" "\<forall>g. cnt w1 g \<noteq> 0 \<longrightarrow> cnt w' g \<noteq> 0"
    using Cons.IH [of "i + 1" w1] Cons.prems by auto
  have l: "[i..<i + length (lt # lts)] = i # [i + 1..<i + 1 + length lts]"
    by (simp add: upt_conv_Cons del: upt_Suc)
  have "send_each S msg i (lt # lts) w = Inr (map2 (\<lambda>k. enqueue (msg k)) [i..<i + length (lt # lts)] (lt # lts), w')"
    unfolding l using one(1) IH(1) by simp
  moreover have "all_awake cnt w' (lt # lts)" using one(2) IH(2,3) by (auto simp: all_awake_def)
  moreover have "\<forall>g. cnt w g \<noteq> 0 \<longrightarrow> cnt w' g \<noteq> 0" using one(3) IH(3) by blast
  ultimately show ?case by blast
qed

text \<open>
  C29: a task sent to all loops is appended to the queue of every loop exactly once, and every loop
  that has its eventfd finds it readable afterwards.
\<close>

theorem send_to_all_reaches_all:
  assumes "eventfd_ok S cnt" and "list_all sendable (loop_threads p)"
  shows "\<exists>w'. send_to_all S msg p w = Inr (True, p\<lparr>loop_threads := map (enqueue msg) (loop_threads p)\<rparr>, w') \<and>
    all_awake cnt w' (loop_threads p)"
proof -
  have "map2 (\<lambda>k. enqueue msg) [0..<0 + length lts] lts = map (enqueue msg) lts" for lts
    by (rule nth_equalityI) simp_all
  with send_each_all [OF assms, of "\<lambda>_. msg" 0 w] show ?thesis by (auto simp: send_to_all_def)
qed

lemma join_all_ended:
  "list_all ended [i..<i + n] \<Longrightarrow> join_all ended i (replicate n Joinable) = Some (Inr (), replicate n Joined)"
  by (induction n arbitrary: i) (simp_all add: upt_conv_Cons del: upt_Suc)

lemma join_all_blocks:
  "k < n \<Longrightarrow> \<not> ended (i + k) \<Longrightarrow> join_all ended i (replicate n Joinable) = None"
proof (induction n arbitrary: i k)
  case (Suc n)
  show ?case
  proof (cases "ended i")
    case True
    with Suc.prems have "0 < k" by (cases k) auto
    with Suc.prems have "k - 1 < n" "\<not> ended (i + 1 + (k - 1))" by auto
    from Suc.IH [OF this] True show ?thesis by simp
  qed simp
qed simp

text \<open>
  C30: \<open>stop\<close> queues a task to exit on every loop, and returns exactly when every thread of the pool
  ends at some time; then all threads have been joined, and stopping a second time throws.
\<close>

theorem pool_stop_joins:
  assumes "eventfd_ok S cnt" and "list_all sendable (loop_threads p)" and "threads p = replicate n Joinable"
    and "0 < n"
  shows "\<exists>lts w'. lts = map2 (\<lambda>i. enqueue (exit_msg i)) [0..<length (loop_threads p)] (loop_threads p) \<and>
    pool_stop S ended p w = Inr (if list_all ended [0..<n]
      then Some (Inr True, p\<lparr>loop_threads := lts, threads := replicate n Joined\<rparr>, w') else None) \<and>
    (\<forall>w2. \<exists>q w3. pool_stop S ended (p\<lparr>threads := replicate n Joined\<rparr>) w2 = Inr (Some (Inl system_error, q, w3)))"
proof -
  let ?lts = "map2 (\<lambda>i. enqueue (exit_msg i)) [0..<length (loop_threads p)] (loop_threads p)"
  obtain w' where w': "send_each S exit_msg 0 (loop_threads p) w = Inr (?lts, w')"
    using send_each_all [OF assms(1,2), of exit_msg 0 w] by auto
  have "join_all ended 0 (threads p) = (if list_all ended [0..<n] then Some (Inr (), replicate n Joined) else None)"
  proof (cases "list_all ended [0..<n]")
    case True
    with join_all_ended [of ended 0 n] assms(3) show ?thesis by simp
  next
    case False
    then obtain k where "k < n" "\<not> ended k" by (auto simp: list_all_iff)
    with join_all_blocks [of k n ended 0] False assms(3) show ?thesis by simp
  qed
  with w' have "pool_stop S ended p w = Inr (if list_all ended [0..<n]
      then Some (Inr True, p\<lparr>loop_threads := ?lts, threads := replicate n Joined\<rparr>, w') else None)"
    by (simp add: pool_stop_def)
  moreover have "\<exists>q w3. pool_stop S ended (p\<lparr>threads := replicate n Joined\<rparr>) w2 = Inr (Some (Inl system_error, q, w3))" for w2
  proof -
    obtain w3 where "send_each S exit_msg 0 (loop_threads p) w2 = Inr (?lts, w3)"
      using send_each_all [OF assms(1,2), of exit_msg 0 w2] by auto
    with assms(4) show ?thesis by (cases n) (simp_all add: pool_stop_def)
  qed
  ultimately show ?thesis by blast
qed

section \<open>Witnesses\<close>

definition demo_pool :: "loop_thread list \<Rightarrow> loop_thread_pool" where
  "demo_pool lts = \<lparr> loop_threads = lts, threads = map (\<lambda>_. Joinable) lts, loop_num = of_nat (length lts), select_index = 0 \<rparr>"

lemma demo_started_running: "status_seen demo_started = Some StatusRunning"
  by (simp add: status_seen_def demo_started_def run_begin_def)

lemma pool_init_returns_witness:
  "\<exists>p'. pool_init (\<lambda>t i. if t < 5 then new_loop_thread True else demo_started) (new_pool 2) = Some (True, p') \<and>
     length (loop_threads p') = unat (loop_num (new_pool 2)) \<and>
     threads p' = replicate (unat (loop_num (new_pool 2))) Joinable"
  by (rule pool_init_returns [where T = 5]) (simp_all add: demo_started_running new_pool_def)

definition sim_no_eventfd :: "sim sys" where
  "sim_no_eventfd = sim_sys\<lparr>sys_eventfd := (\<lambda>w. (-1, w))\<rparr>"

definition demo_failed :: loop_thread where
  "demo_failed = (new_loop_thread True)\<lparr>loop_sptr := Some (fst (snd (loop_init 0 (new_loop (Some 0))))), evfd := -1\<rparr>"

lemma demo_failed_init:
  "loop_thread_init sim_no_eventfd False 0 None (new_loop_thread True) w = Inr (Inr False, demo_failed, w)"
  by (simp add: loop_thread_init_def demo_failed_def sim_no_eventfd_def sim_sys_def loop_init_def new_loop_def Let_def)

lemma pool_init_hangs_witness:
  "pool_init (\<lambda>t i. if t < 5 then new_loop_thread True else demo_failed) (new_pool 2) = None"
  by (rule pool_init_hangs [OF demo_failed_init [of "sim_state [] []"], where i = 0])
    (simp_all add: new_pool_def)

lemma pool_round_robin_witness:
  "\<exists>p'. get_loop_threads 3 (demo_pool [demo_started, demo_started, demo_started]) = Inr ([1, 2, 0], p')"
proof -
  let ?p = "demo_pool [demo_started, demo_started, demo_started]"
  have sel: "length (loop_threads ?p) = 3" "select_index ?p = 0" by (simp_all add: demo_pool_def)
  have num: "unat (loop_num ?p) = 3" by (simp add: demo_pool_def)
  have ne: "loop_threads ?p \<noteq> []" by (simp add: demo_pool_def)
  obtain ks p' where "get_loop_threads 3 ?p = Inr (ks, p')"
    and ks: "ks = map (\<lambda>j. (unat (0 :: 32 word) + 1 + j) mod 3) [0..<3]"
    using pool_round_robin [of ?p, unfolded sel num, OF refl ne] by auto
  moreover have "[0..<3] = [0, 1, 2 :: nat]" by (simp add: upt_rec)
  ultimately show ?thesis by simp
qed

lemma demo_started_sendable: "sendable demo_started"
  using demo_started_sel by (simp add: sendable_def)

lemma send_to_all_reaches_all_witness:
  "\<exists>w'. send_to_all sim_sys demo_exit (demo_pool [demo_started]) (sim_state [] []) =
       Inr (True, demo_pool [demo_started]\<lparr>loop_threads := map (enqueue demo_exit) (loop_threads (demo_pool [demo_started]))\<rparr>, w') \<and>
     all_awake sim_count w' (loop_threads (demo_pool [demo_started]))"
  by (rule send_to_all_reaches_all [OF sim_eventfd]) (simp add: demo_pool_def demo_started_sendable)

lemma pool_stop_joins_witness:
  "\<exists>w'. pool_stop sim_sys (\<lambda>_. True) (demo_pool [demo_started]) (sim_state [] []) =
     Inr (Some (Inr True, demo_pool [demo_started]\<lparr>loop_threads := [enqueue (exit_msg 0) demo_started],
       threads := [Joined]\<rparr>, w'))"
  using pool_stop_joins [OF sim_eventfd, of "demo_pool [demo_started]" 1 "\<lambda>_. True" "sim_state [] []"]
  by (auto simp: demo_pool_def demo_started_sendable)

end
