(* ===== verification/Thread_Relation.thy ===== *)
theory Thread_Relation
  imports Thread_Steps
begin

text \<open>
  Every callback of a loop thread is made of a few elementary changes of its objects: a flag or a
  counter is set, a session is queued, answered, created or erased, a connection is created or
  lost, a task is posted. The locale \<open>thread_relation\<close> collects what a relation between states has
  to satisfy for these changes, and shows that it then holds for whole callbacks. \<open>Ownership\<close>
  instantiates it with the relations the properties of the thread need.
\<close>

section \<open>Bufferevents and their owners\<close>

text \<open>The objects of a thread are its sessions (\<open>Inl\<close>) and its connections (\<open>Inr\<close>).\<close>

definition bev_of :: "loop_thread \<Rightarrow> nat + nat \<Rightarrow> bev option" where
  "bev_of lt x = (case x of
       Inl sid \<Rightarrow> (case sessions lt sid of None \<Rightarrow> None | Some s \<Rightarrow> bev_get (s_bev_sptr s))
     | Inr cid \<Rightarrow> (case clients lt cid of None \<Rightarrow> None | Some c \<Rightarrow> bev_get (bev_sptr c)))"

definition held :: "loop_thread \<Rightarrow> bev set" where
  "held lt = ran (bev_of lt)"

lemma bev_of_simps [simp]:
  "bev_of lt (Inl sid) = (case sessions lt sid of None \<Rightarrow> None | Some s \<Rightarrow> bev_get (s_bev_sptr s))"
  "bev_of lt (Inr cid) = (case clients lt cid of None \<Rightarrow> None | Some c \<Rightarrow> bev_get (bev_sptr c))"
  by (simp_all add: bev_of_def)

lemma held_session: "sessions lt sid = Some s \<Longrightarrow> s_bev_sptr s = Bev b \<Longrightarrow> b \<in> held lt"
  by (force simp: held_def ran_def intro: exI [of _ "Inl sid"])

lemma held_client: "clients lt cid = Some c \<Longrightarrow> bev_sptr c = Bev b \<Longrightarrow> b \<in> held lt"
  by (force simp: held_def ran_def intro: exI [of _ "Inr cid"])

text \<open>The data of bufferevents outside \<open>H\<close> is left alone, and none is created or freed.\<close>

definition own_io :: "'w view \<Rightarrow> bev set \<Rightarrow> 'w \<Rightarrow> 'w \<Rightarrow> bool" where
  "own_io V H w w' \<longleftrightarrow> live V w' = live V w \<and>
     (\<forall>h \<in> live V w - H. inq V w' h = inq V w h \<and> sent V w' h = sent V w h)"

lemma own_io_trans: "own_io V H w w1 \<Longrightarrow> own_io V H w1 w2 \<Longrightarrow> own_io V H w w2"
  by (simp add: own_io_def)

lemma keeps_own_io: "keeps V w w' \<Longrightarrow> own_io V H w w'"
  by (simp add: own_io_def keeps_def)

lemma own_io_refl: "own_io V H w w"
  by (simp add: own_io_def)

text \<open>
  An object that was set up either holds the one new bufferevent, or there is none. The data of
  those that existed before is left alone.
\<close>

definition bev_outcome :: "'w view \<Rightarrow> bev_sptr \<Rightarrow> 'w \<Rightarrow> 'w \<Rightarrow> bool" where
  "bev_outcome V p w w' \<longleftrightarrow>
     (\<forall>h \<in> live V w. inq V w' h = inq V w h \<and> sent V w' h = sent V w h) \<and>
     (case bev_get p of None \<Rightarrow> live V w' = live V w
      | Some b \<Rightarrow> b \<notin> live V w \<and> live V w' = insert b (live V w))"

section \<open>What the operations do to bufferevents\<close>

lemma socket_send_io:
  assumes "libevent_ok S V" and "socket_send S sk mem off n w = Inr (ok, w')"
    and "\<And>b. bev_sptr sk = Bev b \<Longrightarrow> b \<in> H"
  shows "own_io V H w w'" and "ok \<Longrightarrow> \<exists>b. bev_sptr sk = Bev b"
proof -
  have wr: "own_io V H w (snd (bufferevent_write S b d w))" if "b \<in> H" for b d
    using bufferevent_write_ok [OF assms(1), of b d w] that
    by (cases "bufferevent_write S b d w") (auto simp: own_io_def)
  show "own_io V H w w'" and "ok \<Longrightarrow> \<exists>b. bev_sptr sk = Bev b"
    using assms(2,3) wr own_io_refl
    by (auto simp: socket_send_def andThen_eq_Inr case_prod_beta split: option.splits if_splits)
qed

lemma session_send_io:
  assumes "libevent_ok S V" and "session_send S s mem off n w = Inr (ok, w')"
    and "\<And>b. s_bev_sptr s = Bev b \<Longrightarrow> b \<in> H"
  shows "own_io V H w w'"
  using assms(2) unfolding session_as_socket
  by (rule socket_send_io(1) [OF assms(1)]) (use assms(3) in \<open>simp add: as_socket_def\<close>)

lemma view_drain_io:
  assumes "libevent_ok S V"
  shows "viewInputBuffer S sk n w = (r, w') \<Longrightarrow> own_io V H w w'"
    and "(\<And>b. bev_sptr sk = Bev b \<Longrightarrow> b \<in> H) \<Longrightarrow> own_io V H w (snd (drainInputBuffer S sk n w))"
proof -
  show "viewInputBuffer S sk n w = (r, w') \<Longrightarrow> own_io V H w w'"
    by (auto simp: viewInputBuffer_def own_io_refl split: option.splits
        dest: input_pullup_ok(1) [OF assms, THEN keeps_own_io])
  have "own_io V H w (snd (input_drain S b n w))" if "b \<in> H" for b
    using input_drain_ok [OF assms, of b n w] that by (cases "input_drain S b n w") (auto simp: own_io_def)
  then show "(\<And>b. bev_sptr sk = Bev b \<Longrightarrow> b \<in> H) \<Longrightarrow> own_io V H w (snd (drainInputBuffer S sk n w))"
    using own_io_refl by (auto simp: drainInputBuffer_def case_prod_beta split: option.splits)
qed

lemma session_view_drain_io:
  assumes "libevent_ok S V"
  shows "session_viewInputBuffer S s n w = (r, w') \<Longrightarrow> own_io V H w w'"
    and "(\<And>b. s_bev_sptr s = Bev b \<Longrightarrow> b \<in> H) \<Longrightarrow> own_io V H w (snd (session_drainInputBuffer S s n w))"
  using view_drain_io [OF assms, where sk = "as_socket s" and H = H]
  unfolding session_as_socket by (simp_all add: as_socket_def)

lemma closeImpl_io:
  assumes "libevent_ok S V" and "bev_sptr sk = Bev b" and "closeImpl S sk w = Inr (sk', w')" and "b \<in> H"
  shows "own_io V H w w'" and "sk' = sk\<lparr>isClosing := False\<rparr>"
proof -
  have d: "own_io V H w (snd (input_drain S b UINT32_MAX w))"
    using input_drain_ok [OF assms(1), of b UINT32_MAX w] assms(4)
    by (cases "input_drain S b UINT32_MAX w") (auto simp: own_io_def)
  have k: "own_io V H w1 (sys_shutdown S f h (snd (bufferevent_disable S b fl w1)))" for f h fl w1
    by (rule keeps_own_io [OF keeps_trans [OF keeps_others(3) [OF assms(1)] keeps_others(7) [OF assms(1)]]])
  show "own_io V H w w'" "sk' = sk\<lparr>isClosing := False\<rparr>"
    using assms(2,3) own_io_trans [OF d k]
    by (auto simp: closeImpl_def clearInputBuffer_def get_socket_def Let_def)
qed

text \<open>The loop over the connections: at most one session is queued, on an open connection.\<close>

lemma try_connections_effect:
  assumes "libevent_ok S V"
    and "try_connections S sid buf off n vec retry gen cs w = Inr (ok, gen', cs', w')"
    and "\<And>cid c b. cs cid = Some c \<Longrightarrow> bev_sptr c = Bev b \<Longrightarrow> b \<in> H"
  shows "own_io V H w w' \<and> (cs' = cs \<or> (\<exists>cid c b. cs cid = Some c \<and> isConnected c \<and> bev_sptr c = Bev b \<and>
    cs' = cs(cid \<mapsto> c\<lparr>session_queue := session_queue c @ [sid]\<rparr>)))"
  using assms(2)
proof (induction "unat (retry - 1)" arbitrary: retry gen w rule: less_induct)
  case less
  define one where "one = (case vec ! (unat gen mod length vec) of
          None \<Rightarrow> Inr (False, cs, w)
        | Some cid \<Rightarrow> (case cs cid of
            None \<Rightarrow> Inl NullDeref
          | Some c \<Rightarrow>
              if \<not> isConnected c then Inr (False, cs, w)
              else andThen (mem_slice buf off n) (\<lambda>_.
                andThen (socket_send S c buf off (to_uint32 n) w) (\<lambda>(ok, w').
                  if \<not> ok then Inr (False, cs, w')
                  else Inr (True, cs(cid \<mapsto> c\<lparr>session_queue := session_queue c @ [sid]\<rparr>), w')))))"
  have run: "try_connections S sid buf off n vec retry gen cs w = andThen one
       (\<lambda>(sent, cs', w').
          if sent then Inr (True, gen + 1, cs', w')
          else if retry - 1 \<noteq> 0 then try_connections S sid buf off n vec (retry - 1) (gen + 1) cs' w'
          else Inr (False, gen + 1, cs', w'))"
    unfolding one_def by (rule try_connections.simps)
  obtain sent cs1 w1 where one: "one = Inr (sent, cs1, w1)"
    using run less.prems by (cases one) auto
  have step: "own_io V H w w1 \<and> (if sent then \<exists>cid c b. cs cid = Some c \<and> isConnected c \<and> bev_sptr c = Bev b \<and>
      cs1 = cs(cid \<mapsto> c\<lparr>session_queue := session_queue c @ [sid]\<rparr>) else cs1 = cs)"
  proof (cases "conn_at vec gen")
    case None
    with one own_io_refl show ?thesis by (auto simp: one_def)
  next
    case (Some cid)
    with one obtain c where c: "cs cid = Some c" by (cases "cs cid") (simp_all add: one_def)
    show ?thesis
    proof (cases "isConnected c")
      case False
      with Some c one own_io_refl show ?thesis by (auto simp: one_def)
    next
      case True
      with Some c one obtain ok1 where send: "socket_send S c buf off (to_uint32 n) w = Inr (ok1, w1)"
        "sent = ok1" "cs1 = (if ok1 then cs(cid \<mapsto> c\<lparr>session_queue := session_queue c @ [sid]\<rparr>) else cs)"
        by (auto simp: one_def andThen_eq_Inr split: if_splits)
      from socket_send_io [OF assms(1) send(1) assms(3) [OF c]] send(2,3) c True show ?thesis by auto
    qed
  qed
  show ?case
  proof (cases sent)
    case True
    with run one step less.prems show ?thesis by auto
  next
    case False
    show ?thesis
    proof (cases "retry - 1 = 0")
      case True
      with False run one step less.prems show ?thesis by auto
    next
      case again: False
      then have "try_connections S sid buf off n vec (retry - 1) (gen + 1) cs w1 = Inr (ok, gen', cs', w')"
        using False run one step less.prems by simp
      from less.hyps [OF measure_unat [OF again] this] step show ?thesis
        using own_io_trans by (auto split: if_splits)
    qed
  qed
qed

text \<open>The set-up of a session and of a connection.\<close>

lemma session_init_outcome:
  assumes "libevent_ok S V" and "session_init S (new_tcp_session fd junk) w = Inr (ok, s, w')"
  shows "bev_outcome V (s_bev_sptr s) w w' \<and> s_fd s = fd"
  using assms(1) refl
  by (rule session_init_cases [where S = S and fd = fd and junk = junk and w = w])
    (use assms(2) in \<open>auto simp: bev_outcome_def new_tcp_session_def keeps_def\<close>, (metis)+)

lemma connect_fd_bev:
  assumes "libevent_ok S V" and "bev_sptr c = NoBev" and "connect_fd S c addr fd w = Inr (ok, c', w')"
  shows "bev_outcome V (bev_sptr c') w w' \<and> (\<exists>p. c' = c\<lparr>bev_sptr := p\<rparr>)"
  using assms(1,2)
proof (cases rule: connect_fd_cases [of S V c addr fd w])
  case (failed w1)
  with assms(2,3) no_bev_update [OF assms(2)] show ?thesis
    by (auto simp: bev_outcome_def keeps_def only_handle_def intro: exI [of _ NoBev]) metis+
next
  case (no_bev w1)
  with assms(3) show ?thesis by (auto simp: bev_outcome_def keeps_def)
next
  case (connected b w1)
  with assms(3) show ?thesis by (auto simp: bev_outcome_def only_handle_def)
qed

lemma client_connect_outcome_bev:
  fixes c :: redis_client
  assumes S: "libevent_ok S V" and c: "bev_sptr c = NoBev"
    and run: "client_connect S c info w = Inr (ok, c', w')"
  shows "bev_outcome V (bev_sptr c') w w' \<and> session_queue c' = session_queue c"
proof -
  let ?c = "set_conn_info c info"
  have c': "bev_sptr ?c = NoBev" "session_queue ?c = session_queue c"
    using c by (simp_all add: set_conn_info_def)
  have same: "keeps V w (snd (sys_socket S f w))" for f by (rule keeps_others(8) [OF S])
  have fd: "bev_outcome V (bev_sptr c') w w' \<and> session_queue c' = session_queue c"
    if "connect_fd S ?c addr f (snd (sys_socket S af w)) = Inr (ok, c', w')" for addr f af
    using connect_fd_bev [OF S c'(1) that] same [of af] c'(2)
    by (auto simp: bev_outcome_def keeps_def split: option.splits)
  have plain: "bev_outcome V (bev_sptr c') w w' \<and> session_queue c' = session_queue c"
    if "c' = ?c" "keeps V w w'" using that c' by (simp add: bev_outcome_def keeps_def)
  obtain f4 w4 where s4: "sys_socket S AF_INET w = (f4, w4)" by (rule prod.exhaust)
  obtain f6 w6 where s6: "sys_socket S AF_INET6 w = (f6, w6)" by (rule prod.exhaust)
  obtain fu wu where su: "sys_socket S AF_UNIX w = (fu, wu)" by (rule prod.exhaust)
  show ?thesis
  proof (cases "get_conn_type info")
    case IP_V4
    with run s4 plain same [of AF_INET] fd [of _ f4 AF_INET] show ?thesis
      by (auto simp: client_connect_def andThen_eq_Inr Let_def split: if_splits sum.splits)
  next
    case IP_V6
    with run s6 plain same [of AF_INET6] fd [of _ f6 AF_INET6] show ?thesis
      by (auto simp: client_connect_def andThen_eq_Inr Let_def split: if_splits sum.splits)
  next
    case UNIX_SOCKET
    with run su plain same [of AF_UNIX] fd [of _ fu AF_UNIX] show ?thesis
      by (auto simp: client_connect_def andThen_eq_Inr Let_def split: if_splits sum.splits)
  next
    case UN_KNOWN
    with run plain show ?thesis by (auto simp: client_connect_def Let_def)
  qed
qed

section \<open>Relations that callbacks respect\<close>

abbreviation set_session :: "nat \<Rightarrow> tcp_session \<Rightarrow> loop_thread \<Rightarrow> loop_thread" where
  "set_session sid s lt \<equiv> lt\<lparr>sessions := (sessions lt)(sid \<mapsto> s)\<rparr>"

abbreviation set_client :: "nat \<Rightarrow> redis_client \<Rightarrow> loop_thread \<Rightarrow> loop_thread" where
  "set_client cid c lt \<equiv> lt\<lparr>clients := (clients lt)(cid \<mapsto> c)\<rparr>"

abbreviation fresh_session :: "tcp_session \<Rightarrow> loop_thread \<Rightarrow> loop_thread" where
  "fresh_session s lt \<equiv>
     lt\<lparr>sessions := (sessions lt)(next_addr lt \<mapsto> s), next_addr := Suc (next_addr lt)\<rparr>"

locale thread_relation =
  fixes S :: "'w sys" and V :: "'w view"
    and R :: "loop_thread \<times> 'w \<Rightarrow> loop_thread \<times> 'w \<Rightarrow> bool"
  assumes R_refl: "R \<sigma> \<sigma>"
    and R_trans: "R \<sigma> \<sigma>1 \<Longrightarrow> R \<sigma>1 \<sigma>2 \<Longrightarrow> R \<sigma> \<sigma>2"
    and R_world: "own_io V (held lt) w w' \<Longrightarrow> R (lt, w) (lt, w')"
    and R_session: "sessions lt sid = Some s \<Longrightarrow> s_bev_sptr s' = s_bev_sptr s \<Longrightarrow> R (lt, w) (set_session sid s' lt, w)"
    and R_push: "clients lt cid = Some c \<Longrightarrow> isConnected c \<Longrightarrow> bev_sptr c = Bev b \<Longrightarrow> sessions lt sid \<noteq> None \<Longrightarrow>
      R (lt, w) (set_client cid (c\<lparr>session_queue := session_queue c @ [sid]\<rparr>) lt, w)"
    and R_answer: "clients lt cid = Some c \<Longrightarrow> bev_sptr c = Bev b \<Longrightarrow> session_queue c = sid # rest \<Longrightarrow>
      session_unref S sid (set_client cid (c\<lparr>session_queue := rest\<rparr>) lt) w = Inr \<sigma>' \<Longrightarrow> R (lt, w) \<sigma>'"
    and R_flags: "clients lt cid = Some c \<Longrightarrow> bev_sptr c = Bev b \<Longrightarrow>
      R (lt, w) (set_client cid (c\<lparr>isConnected := x, isClosing := y\<rparr>) lt, w)"
    and R_lost: "clients lt cid = Some c \<Longrightarrow> bev_sptr c = Bev b \<Longrightarrow>
      R (lt, w) (set_client cid (c\<lparr>isConnected := False, bev_sptr := NoBev\<rparr>) lt, bufferevent_free S b w)"
    and R_new_session: "bev_outcome V (s_bev_sptr s) w w1 \<Longrightarrow>
      map_insert S fd (next_addr lt) (fresh_session s lt) w1 = Inr \<sigma>' \<Longrightarrow> R (lt, w) \<sigma>'"
    and R_erase: "map_erase S fd lt w = Inr \<sigma>' \<Longrightarrow> R (lt, w) \<sigma>'"
    and R_new_client: "bev_outcome V (bev_sptr c) w w1 \<Longrightarrow> session_queue c = [] \<Longrightarrow>
      R (lt, w) (add_connection (next_addr lt) c lt, w1)"
    and R_post: "msg_type msg = DEL_SESSION \<Longrightarrow> msg_body msg = AnyFd fd \<Longrightarrow>
      R (lt, w) (lt\<lparr>task_queue := task_queue lt @ [msg]\<rparr>, w)"
    and R_take: "R (lt, w) (lt\<lparr>task_queue := []\<rparr>, w)"
    and R_stop: "R (lt, w) (lt\<lparr>evfd := 0\<rparr>, w)"
begin

lemma world_then: "own_io V (held lt) w w' \<Longrightarrow> R (lt, w') \<sigma> \<Longrightarrow> R (lt, w) \<sigma>"
  using R_trans R_world by blast

lemma then_world: "R \<sigma> (lt, w) \<Longrightarrow> own_io V (held lt) w w' \<Longrightarrow> R \<sigma> (lt, w')"
  using R_trans R_world by blast

text \<open>The two callbacks of the parser.\<close>

lemma session_cb_related:
  assumes S: "libevent_ok S V" and run: "session_cb S sid buf off n (lt, w) = Inr \<sigma>'"
  shows "R (lt, w) \<sigma>'"
proof (cases "\<not> tls_set lt \<or> connection_sptr_vector lt = []")
  case True
  with run R_refl show ?thesis by (auto simp: session_cb_def)
next
  case False
  then obtain s ok gen cs w' where s: "sessions lt sid = Some s"
    and tc: "try_connections S sid buf off n (connection_sptr_vector lt)
      (of_nat (length (connection_sptr_vector lt)) + 1) (sIdGenerater s) (clients lt) w = Inr (ok, gen, cs, w')"
    and \<sigma>': "\<sigma>' = (lt\<lparr>sessions := (sessions lt)(sid \<mapsto> s\<lparr>sIdGenerater := gen\<rparr>), clients := cs\<rparr>, w')"
    using run by (auto simp: session_cb_def andThen_eq_Inr split: option.splits)
  have eff: "own_io V (held lt) w w' \<and> (cs = clients lt \<or> (\<exists>cid c b. clients lt cid = Some c \<and> isConnected c \<and> bev_sptr c = Bev b \<and>
    cs = (clients lt)(cid \<mapsto> c\<lparr>session_queue := session_queue c @ [sid]\<rparr>)))"
    by (rule try_connections_effect [OF S tc]) (rule held_client)
  have "R (lt, w) (lt\<lparr>clients := cs\<rparr>, w')"
  proof -
    have w: "own_io V (held lt) w w'" using eff by simp
    have "R (lt, w') (lt\<lparr>clients := cs\<rparr>, w')"
    proof (cases "cs = clients lt")
      case True
      then have "lt\<lparr>clients := cs\<rparr> = lt" by simp
      then show ?thesis using R_refl by simp
    next
      case False
      with eff s show ?thesis using R_push [of lt] by auto
    qed
    with w show ?thesis by (rule world_then)
  qed
  moreover have "R (lt\<lparr>clients := cs\<rparr>, w') \<sigma>'"
  proof -
    have e: "\<sigma>' = (lt\<lparr>clients := cs, sessions := (sessions lt)(sid \<mapsto> s\<lparr>sIdGenerater := gen\<rparr>)\<rparr>, w')"
      unfolding \<sigma>' by (cases lt) simp
    show ?thesis
      unfolding e using R_session [of "lt\<lparr>clients := cs\<rparr>" sid s "s\<lparr>sIdGenerater := gen\<rparr>" w'] s by simp
  qed
  ultimately show ?thesis by (rule R_trans)
qed

lemma redis_cb_related:
  assumes S: "libevent_ok S V" and c: "clients lt cid = Some c" "bev_sptr c = Bev b"
    and run: "redis_cb S cid buf off n (lt, w) = Inr \<sigma>'"
  shows "R (lt, w) \<sigma>' \<and> (\<exists>c'. clients (fst \<sigma>') cid = Some c' \<and> bev_sptr c' = Bev b)"
proof -
  obtain sid rest where q: "session_queue c = sid # rest"
    using run c(1) by (cases "session_queue c") (simp_all add: redis_cb_def)
  let ?lt = "set_client cid (c\<lparr>session_queue := rest\<rparr>) lt"
  obtain s ok w1 where s: "sessions lt sid = Some s" and send: "session_send S s buf off (to_uint32 n) w = Inr (ok, w1)"
    and un: "session_unref S sid ?lt w1 = Inr \<sigma>'"
    using run c(1) q by (auto simp: redis_cb_def andThen_eq_Inr split: option.splits)
  obtain lt' w' where \<sigma>': "\<sigma>' = (lt', w')" by (rule prod.exhaust)
  have "clients lt' = clients ?lt" using session_unref_sel(1) [OF un [unfolded \<sigma>']] .
  with world_then [OF session_send_io [OF S send held_session [OF s]] R_answer [OF c q un]] c(2) \<sigma>' show ?thesis by simp
qed

text \<open>The read callbacks.\<close>

lemma session_onRead_related:
  assumes S: "libevent_ok S V" and run: "session_onRead S sid (lt, w) = Inr \<sigma>'"
  shows "R (lt, w) \<sigma>'"
proof -
  obtain s where s: "sessions lt sid = Some s" using run by (cases "sessions lt sid") (simp_all add: session_onRead_def)
  let ?n = "session_getInputBufferLength S s w"
  obtain r w1 where v: "session_viewInputBuffer S s ?n w = (r, w1)" by (rule prod.exhaust)
  have w1: "R (lt, w) (lt, w1)" by (rule R_world [OF session_view_drain_io(1) [OF S v]])
  show ?thesis
  proof (cases "?n = 0 \<or> r = None")
    case True
    with run s v w1 R_refl show ?thesis by (auto simp: session_onRead_def Let_def split: if_splits)
  next
    case False
    then obtain buf m res lt2 w2 where r: "r = Some buf"
      and pr: "process_resp buf ?n (Some (session_cb S sid buf)) 0 (lt, w1) = Inr ((m, res), (lt2, w2))"
      and \<sigma>': "\<sigma>' = (lt2, w2) \<or> (\<exists>s2. sessions lt2 sid = Some s2 \<and> \<sigma>' = (lt2, snd (session_drainInputBuffer S s2 (to_uint32 m) w2)))"
      using run s v by (fastforce simp: session_onRead_def andThen_eq_Inr Let_def split: if_splits option.splits)
    have "R (lt, w) (lt2, w2)"
      by (rule process_resp_keeps [where P = "R (lt, w)", OF _ w1 pr])
        (metis R_trans session_cb_related [OF S] prod.exhaust)
    moreover have "own_io V (held lt2) w2 (snd (session_drainInputBuffer S s2 (to_uint32 m) w2))"
      if "sessions lt2 sid = Some s2" for s2
      by (rule session_view_drain_io(2) [OF S]) (rule held_session [OF that])
    ultimately show ?thesis using \<sigma>' then_world by blast
  qed
qed

lemma redis_onRead_related:
  assumes S: "libevent_ok S V" and c: "clients lt cid = Some c" "bev_sptr c = Bev b"
    and run: "redis_onRead S cid (lt, w) = Inr \<sigma>'"
  shows "R (lt, w) \<sigma>'"
proof -
  let ?n = "getInputBufferLength S c w"
  obtain r w1 where v: "viewInputBuffer S c ?n w = (r, w1)" by (rule prod.exhaust)
  have w1: "R (lt, w) (lt, w1)" by (rule R_world [OF view_drain_io(1) [OF S v]])
  show ?thesis
  proof (cases "?n = 0 \<or> r = None")
    case True
    with run c v w1 R_refl show ?thesis by (auto simp: redis_onRead_def Let_def split: if_splits)
  next
    case False
    then obtain buf m res lt2 w2 where r: "r = Some buf"
      and pr: "process_resp buf ?n (Some (redis_cb S cid buf)) 0 (lt, w1) = Inr ((m, res), (lt2, w2))"
      and \<sigma>': "\<sigma>' = (lt2, w2) \<or> (\<exists>c2. clients lt2 cid = Some c2 \<and> \<sigma>' = (lt2, snd (drainInputBuffer S c2 (to_uint32 m) w2)))"
      using run c v by (fastforce simp: redis_onRead_def andThen_eq_Inr Let_def split: if_splits option.splits)
    define P where "P \<sigma> \<longleftrightarrow> R (lt, w) \<sigma> \<and> (\<exists>c'. clients (fst \<sigma>) cid = Some c' \<and> bev_sptr c' = Bev b)" for \<sigma>
    have "P (lt2, w2)"
    proof (rule process_resp_keeps [where P = P, OF _ _ pr])
      show "P (lt, w1)" using w1 c by (simp add: P_def)
      show "P \<sigma>2" if "P \<sigma>1" "redis_cb S cid buf off n \<sigma>1 = Inr \<sigma>2" for off n \<sigma>1 \<sigma>2
        using that redis_cb_related [OF S, of "fst \<sigma>1" cid _ b buf off n "snd \<sigma>1" \<sigma>2] R_trans
        unfolding P_def by (metis prod.collapse)
    qed
    then have "R (lt, w) (lt2, w2)" by (simp add: P_def)
    moreover have "own_io V (held lt2) w2 (snd (drainInputBuffer S c2 (to_uint32 m) w2))"
      if "clients lt2 cid = Some c2" for c2
      by (rule view_drain_io(2) [OF S]) (rule held_client [OF that])
    ultimately show ?thesis using \<sigma>' then_world by blast
  qed
qed

text \<open>Events, tasks, and the callback of the eventfd.\<close>

lemma session_handleEvent_related:
  assumes S: "libevent_ok S V" and run: "session_handleEvent S sid events (lt, w) = Inr \<sigma>'"
  shows "R (lt, w) \<sigma>'"
proof -
  obtain s where s: "sessions lt sid = Some s" using run by (cases "sessions lt sid") (simp_all add: session_handleEvent_def)
  let ?lt = "set_session sid (s\<lparr>s_isClosing := True\<rparr>) lt"
  let ?msg = "\<lparr> msg_type = DEL_SESSION, msg_body = AnyFd (s_fd s) \<rparr>"
  have 1: "R (lt, w) (?lt, w)" by (rule R_session [of lt sid s]) (use s in simp_all)
  have 2: "R (?lt, w) (?lt\<lparr>task_queue := task_queue ?lt @ [?msg]\<rparr>, w)" by (rule R_post) simp_all
  have wr: "own_io V H w (snd (eventfd_client_send S fd w))" for fd H
    using keeps_own_io [OF keeps_others(13) [OF S, of w fd 1]] by (simp add: eventfd_client_send_def case_prod_beta)
  show ?thesis
  proof (cases "tls_set lt")
    case False
    with run s 1 show ?thesis by (simp add: session_handleEvent_def Let_def)
  next
    case True
    then obtain ok lt' w' where "send2loop_thread S ?msg ?lt w = Inr (ok, lt', w')" "\<sigma>' = (lt', w')"
      using run s by (auto simp: session_handleEvent_def andThen_eq_Inr Let_def)
    then have "\<sigma>' = (?lt\<lparr>task_queue := task_queue ?lt @ [?msg]\<rparr>, w) \<or>
        (\<exists>fd. \<sigma>' = (?lt\<lparr>task_queue := task_queue ?lt @ [?msg]\<rparr>, snd (eventfd_client_send S fd w)))"
      by (auto simp: send2loop_thread_def Let_def split: if_splits option.splits)
    with R_trans [OF 1 2] then_world wr show ?thesis by blast
  qed
qed

lemma client_callbacks_related:
  assumes S: "libevent_ok S V" and c: "clients lt cid = Some c" "bev_sptr c = Bev b"
  shows "client_handleEvent S c events w = Inr (c', w') \<Longrightarrow> R (lt, w) (set_client cid c' lt, w')"
    and "client_writeCallback S c w = Inr (c', w') \<Longrightarrow> R (lt, w) (set_client cid c' lt, w')"
proof -
  have flags: "R (lt, w) (set_client cid (c\<lparr>isConnected := x, isClosing := y\<rparr>) lt, w')"
    if "own_io V (held lt) w w'" for x y w'
    by (rule world_then [OF that R_flags [OF c]])
  have same: "c = c\<lparr>isConnected := isConnected c, isClosing := isClosing c\<rparr>" by simp
  show "R (lt, w) (set_client cid c' lt, w')" if run: "client_handleEvent S c events w = Inr (c', w')"
  proof (cases "and events (or 0x10 (or 0x20 0x40)) = (0 :: 16 word)")
    case False
    obtain w2 where w2: "w' = bufferevent_free S b w2" "c' = c\<lparr>isConnected := False, bev_sptr := NoBev\<rparr>"
      and io: "own_io V (held lt) w w2"
      using handleEvent_lost [OF c(2) False, of S w] run
        keeps_own_io [OF keeps_trans [OF keeps_others(3) [OF S, of w b "EV_READ + EV_WRITE"] keeps_others(6) [OF S]]] by auto
    with world_then [OF io R_lost [OF c]] show ?thesis by simp
  next
    case True
    then have "w' = w \<and> (c' = c \<or> c' = c\<lparr>isConnected := True\<rparr>)"
      using run by (auto simp: client_handleEvent_def Let_def split: if_splits)
    with flags [OF own_io_refl, where x = "isConnected c" and y = "isClosing c"]
      flags [OF own_io_refl, where x = True and y = "isClosing c"] show ?thesis by auto
  qed
  show "R (lt, w) (set_client cid c' lt, w')" if run: "client_writeCallback S c w = Inr (c', w')"
  proof (cases "isClosing c \<and> output_length S b w = 0")
    case True
    with run c(2) have close: "closeImpl S (c\<lparr>isClosing := False\<rparr>) w = Inr (c', w')"
      by (simp add: client_writeCallback_def checkClosing_def)
    have "bev_sptr (c\<lparr>isClosing := False\<rparr>) = Bev b" using c(2) by simp
    from closeImpl_io [OF S this close held_client [OF c]] flags [of w', where x = "isConnected c" and y = False] show ?thesis by simp
  next
    case False
    with run c(2) have "c' = c" "w' = w" by (auto simp: client_writeCallback_def checkClosing_def split: if_splits)
    with flags [OF own_io_refl, where x = "isConnected c" and y = "isClosing c"] show ?thesis by simp
  qed
qed

lemma add_session_related:
  assumes S: "libevent_ok S V" and run: "add_session S junk fd lt w = Inr \<sigma>'"
  shows "R (lt, w) \<sigma>'"
proof -
  obtain ok s w1 where i: "session_init S (new_tcp_session fd junk) w = Inr (ok, s, w1)"
    and m: "map_insert S fd (next_addr lt) (fresh_session s lt) w1 = Inr \<sigma>'"
    using run by (auto simp: add_session_def andThen_eq_Inr Let_def)
  show ?thesis by (rule R_new_session [OF _ m]) (use session_init_outcome [OF S i] in simp)
qed

lemma listener_keeps:
  assumes S: "libevent_ok S V"
  shows "listener_setup S fd addr w = (ok, l, w') \<Longrightarrow> keeps V w w'"
    and "tcp_listen S ip p w = Inr (Inr (ok, l, w')) \<Longrightarrow> keeps V w w'"
proof -
  note k = keeps_others(8,9,11,12,5) [OF S]
  show ls: "keeps V w w'" if run: "listener_setup S fd addr w = (ok, l, w')" for fd addr w
  proof -
    obtain r1 w1 where 1: "sys_setsockopt S fd (SO_REUSEPORT 1) w = (r1, w1)" by (rule prod.exhaust)
    obtain r2 w2 where 2: "sys_bind S fd addr w1 = (r2, w2)" by (rule prod.exhaust)
    obtain r3 w3 where 3: "evconnlistener_new S fd w2 = (r3, w3)" by (rule prod.exhaust)
    have k1: "keeps V w w1" using k(3) 1 by (metis snd_conv)
    have k2: "keeps V w w2" using keeps_trans [OF k1] k(2) 2 by (metis snd_conv)
    have k3: "keeps V w w3" using keeps_trans [OF k2] k(4) 3 by (metis snd_conv)
    from run 1 2 3 k1 k2 k3 keeps_trans [OF k3 k(5)] show ?thesis
      by (auto simp: listener_setup_def split: if_splits)
  qed
  show "tcp_listen S ip p w = Inr (Inr (ok, l, w')) \<Longrightarrow> keeps V w w'"
  proof (cases "address_from_string S ip")
    case (Some fam)
    obtain f w1 where so: "sys_socket S fam w = (f, w1)" by (rule prod.exhaust)
    assume run: "tcp_listen S ip p w = Inr (Inr (ok, l, w'))"
    show ?thesis
    proof (cases "fam = AF_INET \<or> fam = AF_INET6")
      case True
      with run Some so obtain a where st: "listener_setup S f a w1 = (ok, l, w')"
        by (auto simp: tcp_listen_def andThen_eq_Inr Let_def)
      have "keeps V w w1" using k(1) so by (metis snd_conv)
      from keeps_trans [OF this ls [OF st]] show ?thesis .
    qed (use run Some in \<open>simp add: tcp_listen_def\<close>)
  qed (simp add: tcp_listen_def)
qed

lemma process_task_related:
  assumes S: "libevent_ok S V" and run: "process_task S J msg (lt, w) = Inr \<sigma>'"
  shows "R (lt, w) \<sigma>'"
proof (cases "msg_type msg")
  case NEW_SESSION
  with run R_refl add_session_related [OF S] show ?thesis
    by (cases "any_cast_fd (msg_body msg)") (auto simp: process_task_def split: if_splits)
next
  case NEW_LISTENER
  show ?thesis
  proof (cases "any_cast_conn_info (msg_body msg)")
    case (Inr conn)
    with NEW_LISTENER run obtain r where r: "tcp_listen S (ci_IP conn) (ci_port conn) w = Inr r"
      "(case r of Inl _ \<Rightarrow> Inl Terminate | Inr (_, _, w1) \<Rightarrow> Inr (lt, w1)) = (Inr \<sigma>' :: (loop_thread \<times> 'w) run)"
      by (auto simp: process_task_def andThen_eq_Inr split: if_splits)
    then obtain ok l w1 where "r = Inr (ok, l, w1)" "\<sigma>' = (lt, w1)" by (auto split: sum.splits)
    with R_world [OF keeps_own_io [OF listener_keeps(2) [OF S]]] r(1) show ?thesis by blast
  qed (use NEW_LISTENER run R_refl in \<open>simp add: process_task_def\<close>)
next
  case DEL_SESSION
  with run R_refl R_erase show ?thesis
    by (cases "any_cast_fd (msg_body msg)") (auto simp: process_task_def)
next
  case EXIT_LOOP
  have io: "own_io V H w (loop_stop S True l (sys_close S fd w))" for l fd H
    using keeps_others(15) [OF S] keeps_trans [OF keeps_others(15) [OF S] keeps_others(16) [OF S]]
    by (intro keeps_own_io) (simp add: loop_stop_def)
  from EXIT_LOOP run have "\<sigma>' = (lt, w) \<or> (\<exists>l fd. \<sigma>' = (lt\<lparr>evfd := 0\<rparr>, loop_stop S True l (sys_close S fd w)))"
    by (auto simp: process_task_def loop_thread_stop_def andThen_eq_Inr Let_def split: if_splits option.splits)
  with R_refl then_world [OF R_stop io] show ?thesis by blast
next
  case ADD_CONN
  let ?c0 = "new_redis_client (junk_info J)"
  have c0: "bev_sptr ?c0 = NoBev" "session_queue ?c0 = []" by (simp_all add: new_redis_client_def)
  have c1: "bev_sptr (?c0\<lparr>cl_dscp := 0\<rparr>) = NoBev" "session_queue (?c0\<lparr>cl_dscp := 0\<rparr>) = []"
    using c0 by simp_all
  from ADD_CONN run consider "\<sigma>' = (lt, w)"
    | info ok c w1 where "client_connect S (?c0\<lparr>cl_dscp := 0\<rparr>) info w = Inr (ok, c, w1)" "\<sigma>' = (add_connection (next_addr lt) c lt, w1)"
    | info ok c w1 where "client_connect S ?c0 info w = Inr (ok, c, w1)"
        "\<sigma>' = (add_connection (next_addr lt) (c\<lparr>cl_dscp := 0\<rparr>) lt, w1)"
    by (cases "any_cast_conn_info (msg_body msg)")
      (auto simp: process_task_def client_init_def andThen_eq_Inr Let_def split: if_splits)
  then show ?thesis
  proof cases
    case 1
    with R_refl show ?thesis by simp
  next
    case 2
    from client_connect_outcome_bev [OF S c1(1) this(1)] c1(2) this(2) R_new_client show ?thesis by simp
  next
    case 3
    from client_connect_outcome_bev [OF S c0(1) this(1)] c0(2) this(2) R_new_client [of "c\<lparr>cl_dscp := 0\<rparr>"]
    show ?thesis by simp
  qed
qed (use run R_refl in \<open>simp_all add: process_task_def\<close>)

lemma evfc_cb_related:
  assumes S: "libevent_ok S V" and run: "evfc_cb S J fd (lt, w) = Inr \<sigma>'"
  shows "R (lt, w) \<sigma>'"
proof -
  obtain ret one w1 where rd: "eventfd_read S fd w = ((ret, one), w1)" by (metis prod.exhaust)
  have w1: "own_io V H w w1" for H using keeps_own_io [OF keeps_others(14) [OF S, of w fd]] rd by simp
  have tk: "R (lt, w) (lt\<lparr>task_queue := []\<rparr>, w1)" by (rule then_world [OF R_take w1])
  have all: "R (lt, w) \<sigma>'" if "deliver_all (process_task S J) ms (lt\<lparr>task_queue := []\<rparr>, w1) = Inr \<sigma>'" for ms
    by (rule deliver_all_invariant [where P = "R (lt, w)", OF _ tk that])
      (metis R_trans process_task_related [OF S] prod.exhaust)
  consider "ret \<noteq> 8" | "ret = 8" "task_queue lt = []" | "ret = 8" "task_queue lt \<noteq> []" by blast
  then show ?thesis
  proof cases
    case 1
    with run rd have "\<sigma>' = (lt, w1)" by (simp add: evfc_cb_def)
    with R_world [OF w1] show ?thesis by simp
  next
    case 2
    with run rd have "\<sigma>' = (lt\<lparr>task_queue := []\<rparr>, w1)" by (simp add: evfc_cb_def process_msg_def take_tasks_def)
    with tk show ?thesis by simp
  next
    case 3
    with run rd have "deliver_all (process_task S J) (task_queue lt) (lt\<lparr>task_queue := []\<rparr>, w1) = Inr \<sigma>'"
      by (simp add: evfc_cb_def process_msg_def take_tasks_def)
    then show ?thesis by (rule all)
  qed
qed

text \<open>All callbacks of a loop thread.\<close>

lemma handle_related:
  assumes S: "libevent_ok S V" and en: "enabled ev lt" and run: "handle S J ev (lt, w) = Inr \<sigma>'"
  shows "R (lt, w) \<sigma>'"
proof (cases ev)
  case (SessionRead sid)
  with run session_onRead_related [OF S] show ?thesis by simp
next
  case (SessionWrite sid)
  with run R_refl show ?thesis by simp
next
  case (SessionEvent sid events)
  with run session_handleEvent_related [OF S] show ?thesis by simp
next
  case (ClientRead cid)
  with en obtain c b where "clients lt cid = Some c" "bev_sptr c = Bev b" by (auto split: option.splits)
  with ClientRead run redis_onRead_related [OF S] show ?thesis by auto
next
  case (ClientEvent cid events)
  with en obtain c b where "clients lt cid = Some c" "bev_sptr c = Bev b" by (auto split: option.splits)
  with ClientEvent run client_callbacks_related(1) [OF S] show ?thesis by (auto simp: on_client_def andThen_eq_Inr)
next
  case (ClientWrite cid)
  with en obtain c b where "clients lt cid = Some c" "bev_sptr c = Bev b" by (auto split: option.splits)
  with ClientWrite run client_callbacks_related(2) [OF S] show ?thesis by (auto simp: on_client_def andThen_eq_Inr)
next
  case (Accepted fd)
  with run have "add_session S (junk_counter J (next_addr lt)) fd lt (make_socket_nonblocking S fd w) = Inr \<sigma>'"
    by (simp add: listenEventCallback_def Let_def split: if_splits)
  from world_then [OF keeps_own_io [OF keeps_others(5) [OF S]] add_session_related [OF S this]] show ?thesis .
next
  case (Woken fd)
  with run evfc_cb_related [OF S] show ?thesis by simp
qed

end

end
