(* ===== verification/Ownership.thy ===== *)
theory Ownership
  imports Thread_Relation Task_Props
begin

text \<open>
  Four relations that every callback of a loop thread respects, as interpretations of
  \<open>thread_relation\<close>: bufferevents have one owner each, and none is leaked or freed twice; a session
  object exists exactly as long as the map or a reply queue refers to it; what waits on a lost
  connection waits for ever; and tasks the thread posts to itself are well typed.
\<close>

section \<open>Owners\<close>

definition exclusive :: "loop_thread \<Rightarrow> bool" where
  "exclusive lt \<longleftrightarrow> (\<forall>x y b. bev_of lt x = Some b \<longrightarrow> bev_of lt y = Some b \<longrightarrow> x = y)"

definition fresh_addr :: "loop_thread \<Rightarrow> bool" where
  "fresh_addr lt \<longleftrightarrow> (\<forall>a. next_addr lt \<le> a \<longrightarrow> sessions lt a = None \<and> clients lt a = None)"

text \<open>
  Whatever the thread does to its own bufferevents, those of others are left alone, and at the end
  it holds again exactly what it has created and not freed.
\<close>

definition owned :: "'w view \<Rightarrow> loop_thread \<times> 'w \<Rightarrow> bool" where
  "owned V = (\<lambda>(lt, w). exclusive lt \<and> fresh_addr lt \<and> held lt \<subseteq> live V w)"

definition owns_step :: "'w sys \<Rightarrow> 'w view \<Rightarrow> loop_thread \<times> 'w \<Rightarrow> loop_thread \<times> 'w \<Rightarrow> bool" where
  "owns_step S V = (\<lambda>(lt, w) (lt', w'). libevent_ok S V \<longrightarrow> owned V (lt, w) \<longrightarrow>
     owned V (lt', w') \<and> live V w' - held lt' = live V w - held lt \<and>
     (\<forall>h \<in> live V w - held lt. inq V w' h = inq V w h \<and> sent V w' h = sent V w h))"

lemma bev_of_eqI:
  assumes "\<And>sid. bev_of lt' (Inl sid) = bev_of lt (Inl sid)" and "\<And>cid. bev_of lt' (Inr cid) = bev_of lt (Inr cid)"
  shows "bev_of lt' = bev_of lt"
proof
  fix x show "bev_of lt' x = bev_of lt x" using assms by (cases x) (simp_all only:)
qed

lemma bev_of_cong: "sessions lt' = sessions lt \<Longrightarrow> clients lt' = clients lt \<Longrightarrow> bev_of lt' = bev_of lt"
  by (rule bev_of_eqI) simp_all

lemma bev_of_updates:
  "bev_of (lt\<lparr>sessions := (sessions lt)(sid \<mapsto> s)\<rparr>) = (bev_of lt)(Inl sid := bev_get (s_bev_sptr s))"
  "bev_of (lt\<lparr>sessions := (sessions lt)(sid := None)\<rparr>) = (bev_of lt)(Inl sid := None)"
  "bev_of (lt\<lparr>clients := (clients lt)(cid \<mapsto> c)\<rparr>) = (bev_of lt)(Inr cid := bev_get (bev_sptr c))"
  by (auto simp: fun_eq_iff bev_of_def split: sum.splits)

lemma owns_same:
  assumes "bev_of lt' = bev_of lt" and "own_io V (held lt) w w'" and "fresh_addr lt \<Longrightarrow> fresh_addr lt'"
  shows "owns_step S V (lt, w) (lt', w')"
  using assms by (simp add: owns_step_def owned_def exclusive_def held_def own_io_def)

lemma owns_drop:
  assumes "bev_of lt x = Some b" and "bev_of lt' = (bev_of lt)(x := None)" and "live V w' = live V w - {b}"
    and "\<And>h. h \<noteq> b \<Longrightarrow> inq V w' h = inq V w h \<and> sent V w' h = sent V w h"
    and "fresh_addr lt \<Longrightarrow> fresh_addr lt'"
  shows "owns_step S V (lt, w) (lt', w')"
  unfolding owns_step_def split
proof (intro impI)
  assume o: "owned V (lt, w)"
  have u: "bev_of lt y = Some b \<longleftrightarrow> y = x" for y using assms(1) o by (auto simp: owned_def exclusive_def)
  have h: "held lt' = held lt - {b}"
  proof (rule set_eqI)
    fix h
    have "(\<exists>y. bev_of lt' y = Some h) \<longleftrightarrow> (\<exists>y. y \<noteq> x \<and> bev_of lt y = Some h)" using assms(2) by auto
    also have "\<dots> \<longleftrightarrow> (\<exists>y. bev_of lt y = Some h) \<and> h \<noteq> b" using u assms(1) by (metis option.inject)
    finally show "h \<in> held lt' \<longleftrightarrow> h \<in> held lt - {b}" by (simp add: held_def ran_def)
  qed
  have "exclusive lt'" using assms(2) o by (auto simp: owned_def exclusive_def split: if_splits)
  moreover have "b \<in> held lt" using assms(1) by (auto simp: held_def ran_def)
  ultimately show "owned V (lt', w') \<and> live V w' - held lt' = live V w - held lt \<and>
      (\<forall>h \<in> live V w - held lt. inq V w' h = inq V w h \<and> sent V w' h = sent V w h)"
    using o h assms(3,4,5) by (auto simp: owned_def)
qed

lemma owns_outcome:
  assumes "bev_of lt' = (bev_of lt)(x := bev_get p)" and "fresh_addr lt \<Longrightarrow> bev_of lt x = None"
    and "bev_outcome V p w w'" and "fresh_addr lt \<Longrightarrow> fresh_addr lt'"
  shows "owns_step S V (lt, w) (lt', w')"
proof (cases "bev_get p")
  case None
  have "bev_of lt' = bev_of lt" if "fresh_addr lt" using assms(1) assms(2) [OF that] None by (auto simp: fun_eq_iff)
  then show ?thesis
    using assms(3,4) None by (auto simp: owns_step_def bev_outcome_def owned_def exclusive_def held_def)
next
  case (Some b)
  show ?thesis
    unfolding owns_step_def split
  proof (intro impI)
    assume o: "owned V (lt, w)"
    have w: "b \<notin> live V w" "live V w' = insert b (live V w)" using assms(3) Some by (auto simp: bev_outcome_def)
    have x: "bev_of lt x = None" using assms(2) o by (simp add: owned_def)
    have nb: "b \<notin> held lt" using o w(1) by (auto simp: owned_def)
    have h: "held lt' = insert b (held lt)" using assms(1) Some x by (simp add: held_def ran_map_upd)
    have "exclusive lt'"
      using assms(1) Some o nb by (auto simp: owned_def exclusive_def held_def ran_def)
    then show "owned V (lt', w') \<and> live V w' - held lt' = live V w - held lt \<and>
        (\<forall>h \<in> live V w - held lt. inq V w' h = inq V w h \<and> sent V w' h = sent V w h)"
      using o h w nb assms(3,4) by (auto simp: owned_def bev_outcome_def)
  qed
qed

lemma owns_stepI: "(libevent_ok S V \<Longrightarrow> owns_step S V \<sigma> \<sigma>') \<Longrightarrow> owns_step S V \<sigma> \<sigma>'"
  by (auto simp: owns_step_def)

lemma owns_trans: "owns_step S V \<sigma> \<sigma>1 \<Longrightarrow> owns_step S V \<sigma>1 \<sigma>2 \<Longrightarrow> owns_step S V \<sigma> \<sigma>2"
  by (fastforce simp: owns_step_def)

lemma owns_unref:
  assumes "session_unref S sid lt w = Inr \<sigma>'"
  shows "owns_step S V (lt, w) \<sigma>'"
proof (cases "session_referenced lt sid \<or> sessions lt sid = None")
  case True
  with assms have "\<sigma>' = (lt, w)" by (auto simp: session_unref_def split: if_splits)
  then show ?thesis by (simp add: owns_same own_io_refl)
next
  case False
  then obtain s where s: "sessions lt sid = Some s" by auto
  let ?lt = "lt\<lparr>sessions := (sessions lt)(sid := None)\<rparr>"
  obtain w' where d: "session_destroy S s w = Inr w'" and \<sigma>': "\<sigma>' = (?lt, w')"
    using assms False s by (auto simp: session_unref_def andThen_eq_Inr)
  have f: "fresh_addr lt \<Longrightarrow> fresh_addr ?lt" by (auto simp: fresh_addr_def)
  show ?thesis
  proof (cases "s_bev_sptr s")
    case (Bev b)
    show ?thesis
      unfolding \<sigma>'
    proof (rule owns_stepI)
      assume S: "libevent_ok S V"
      have lv: "live V w' = live V w - {b}"
        using d Bev bufferevent_free_ok(1) [OF S] by (auto simp: session_destroy_release)
      show "owns_step S V (lt, w) (?lt, w')"
        by (rule owns_drop [OF _ bev_of_updates(2) lv _ f]) (use s Bev d bufferevent_free_ok(2,3) [OF S] in \<open>auto simp: session_destroy_release\<close>)
    qed
  next
    case NoBev
    have "bev_of ?lt = bev_of lt" unfolding bev_of_updates(2) using s NoBev by (auto simp: fun_eq_iff)
    moreover have "w' = w" using d NoBev by (simp add: session_destroy_release)
    ultimately show ?thesis unfolding \<sigma>' by (intro owns_same f) (simp_all add: own_io_refl)
  qed (use d in \<open>simp add: session_destroy_release\<close>)
qed

lemma map_change_unref:
  assumes "map_insert S fd sid lt w = Inr \<sigma>' \<or> map_erase S fd lt w = Inr \<sigma>'"
  obtains m where "\<sigma>' = (lt\<lparr>fd_to_session_map := m\<rparr>, w)"
  | m old where "session_unref S old (lt\<lparr>fd_to_session_map := m\<rparr>) w = Inr \<sigma>'"
  using assms by (auto simp: map_insert_def map_erase_def Let_def split: option.splits)

lemma owns_map:
  assumes "map_insert S fd sid lt w = Inr \<sigma>' \<or> map_erase S fd lt w = Inr \<sigma>'"
  shows "owns_step S V (lt, w) \<sigma>'"
proof -
  have same: "owns_step S V (lt, w) (lt\<lparr>fd_to_session_map := m\<rparr>, w)" for m
    by (rule owns_same) (auto simp: fresh_addr_def own_io_refl intro: bev_of_cong)
  from assms show ?thesis
  proof (rule map_change_unref)
    show "owns_step S V (lt, w) \<sigma>'" if "\<sigma>' = (lt\<lparr>fd_to_session_map := m\<rparr>, w)" for m
      unfolding that by (rule same)
    show "owns_step S V (lt, w) \<sigma>'" if "session_unref S old (lt\<lparr>fd_to_session_map := m\<rparr>) w = Inr \<sigma>'" for m old
      by (rule owns_trans [OF same owns_unref [OF that]])
  qed
qed

interpretation owner: thread_relation S V "owns_step S V"
  for S :: "'w sys" and V :: "'w view"
proof unfold_locales
  fix lt :: loop_thread and w w' :: 'w and \<sigma> \<sigma>1 \<sigma>2 \<sigma>' :: "loop_thread \<times> 'w"
  fix s s' sid cid fd rest b x y msg
  fix c :: redis_client
  show "owns_step S V \<sigma> \<sigma>" by (auto simp: owns_step_def)
  show "owns_step S V \<sigma> \<sigma>1 \<Longrightarrow> owns_step S V \<sigma>1 \<sigma>2 \<Longrightarrow> owns_step S V \<sigma> \<sigma>2" by (rule owns_trans)
  show "own_io V (held lt) w w' \<Longrightarrow> owns_step S V (lt, w) (lt, w')" by (simp add: owns_same)
  show "owns_step S V (lt, w) (lt\<lparr>task_queue := task_queue lt @ [msg]\<rparr>, w)"
    by (rule owns_same) (auto simp: fresh_addr_def own_io_refl intro: bev_of_cong)
  show "owns_step S V (lt, w) (lt\<lparr>task_queue := []\<rparr>, w)" "owns_step S V (lt, w) (lt\<lparr>evfd := 0\<rparr>, w)"
    by (rule owns_same; auto simp: fresh_addr_def own_io_refl intro: bev_of_cong)+
  show "owns_step S V (lt, w) (set_session sid s' lt, w)"
    if "sessions lt sid = Some s" "s_bev_sptr s' = s_bev_sptr s"
    by (rule owns_same) (use that in \<open>auto simp: bev_of_updates fun_eq_iff fresh_addr_def own_io_refl\<close>)
  have same: "owns_step S V (lt, w) (set_client cid c' lt, w)"
    if "clients lt cid = Some c" "bev_sptr c' = bev_sptr c" for c'
    by (rule owns_same) (use that in \<open>auto simp: bev_of_updates fun_eq_iff fresh_addr_def own_io_refl\<close>)
  show "owns_step S V (lt, w) (set_client cid (c\<lparr>session_queue := session_queue c @ [sid]\<rparr>) lt, w)"
    if "clients lt cid = Some c" by (rule same [OF that]) simp
  show "owns_step S V (lt, w) (set_client cid (c\<lparr>isConnected := x, isClosing := y\<rparr>) lt, w)"
    if "clients lt cid = Some c" by (rule same [OF that]) simp
  show "owns_step S V (lt, w) \<sigma>'"
    if "clients lt cid = Some c" "session_unref S sid (set_client cid (c\<lparr>session_queue := rest\<rparr>) lt) w = Inr \<sigma>'"
    by (rule owns_trans [OF same [OF that(1)] owns_unref [OF that(2)]]) simp
  show "owns_step S V (lt, w) (set_client cid (c\<lparr>isConnected := False, bev_sptr := NoBev\<rparr>) lt, bufferevent_free S b w)"
    if "clients lt cid = Some c" "bev_sptr c = Bev b"
    by (rule owns_stepI, rule owns_drop [OF _ _ bufferevent_free_ok(1), where x = "Inr cid"])
      (use that in \<open>auto simp: bev_of_updates fresh_addr_def bufferevent_free_ok(2,3)\<close>)
  show "owns_step S V (lt, w) \<sigma>'"
    if "bev_outcome V (s_bev_sptr s) w w'" "map_insert S fd (next_addr lt) (fresh_session s lt) w' = Inr \<sigma>'"
  proof (rule owns_trans [OF owns_outcome owns_map [OF disjI1, OF that(2)]])
    have "bev_of (fresh_session s lt) = bev_of (set_session (next_addr lt) s lt)" by (rule bev_of_cong) simp_all
    then show "bev_of (fresh_session s lt) = (bev_of lt)(Inl (next_addr lt) := bev_get (s_bev_sptr s))"
      by (simp add: bev_of_updates)
  qed (use that(1) in \<open>auto simp: fresh_addr_def\<close>)
  show "owns_step S V (lt, w) \<sigma>'" if "map_erase S fd lt w = Inr \<sigma>'"
    by (rule owns_map [OF disjI2 [OF that]])
  show "owns_step S V (lt, w) (add_connection (next_addr lt) c lt, w')" if "bev_outcome V (bev_sptr c) w w'"
  proof (rule owns_outcome [OF _ _ that])
    have "bev_of (add_connection (next_addr lt) c lt) = bev_of (set_client (next_addr lt) c lt)"
      by (rule bev_of_cong) (simp_all add: add_connection_def)
    then show "bev_of (add_connection (next_addr lt) c lt) = (bev_of lt)(Inr (next_addr lt) := bev_get (bev_sptr c))"
      by (simp add: bev_of_updates)
  qed (auto simp: fresh_addr_def add_connection_def)
qed

end
