(* ===== verification/Lifetimes.thy ===== *)
theory Lifetimes
  imports Ownership
begin

text \<open>
  Three more interpretations of \<open>thread_relation\<close>: a session object exists only while the map or a
  reply queue refers to it; a session in the queue of a lost connection stays there; and the tasks a
  thread posts to itself have bodies of the right type.
\<close>

section \<open>Sessions exist only while they are referenced\<close>

text \<open>The keys of the map are distinct, and new addresses are unused.\<close>

definition tidy :: "loop_thread \<Rightarrow> bool" where
  "tidy lt \<longleftrightarrow> fresh_addr lt \<and> distinct (map fst (fd_to_session_map lt)) \<and>
     (\<forall>sid. sessions lt sid \<noteq> None \<longrightarrow> session_referenced lt sid)"

definition tidy_but :: "nat \<Rightarrow> loop_thread \<Rightarrow> bool" where
  "tidy_but old lt \<longleftrightarrow> fresh_addr lt \<and> distinct (map fst (fd_to_session_map lt)) \<and>
     (\<forall>sid. sid \<noteq> old \<longrightarrow> sessions lt sid \<noteq> None \<longrightarrow> session_referenced lt sid)"

definition tidy_step :: "loop_thread \<times> 'w \<Rightarrow> loop_thread \<times> 'w \<Rightarrow> bool" where
  "tidy_step \<sigma> \<sigma>' \<longleftrightarrow> (tidy (fst \<sigma>) \<longrightarrow> tidy (fst \<sigma>'))"

lemma tidy_step_pair [simp]: "tidy_step (lt, w) (lt', w') \<longleftrightarrow> (tidy lt \<longrightarrow> tidy lt')"
  by (simp add: tidy_step_def)

lemma in_queued_iff:
  "sid \<in> queued_sessions lt \<longleftrightarrow> (\<exists>cid c. Some cid \<in> set (connection_sptr_vector lt) \<and>
     clients lt cid = Some c \<and> sid \<in> set (session_queue c))"
proof
  show "\<exists>cid c. Some cid \<in> set (connection_sptr_vector lt) \<and> clients lt cid = Some c \<and> sid \<in> set (session_queue c)"
    if q: "sid \<in> queued_sessions lt"
  proof -
    obtain p where p: "p \<in> set (connection_sptr_vector lt)" "sid \<in> (case p of None \<Rightarrow> {} | Some cid \<Rightarrow>
        (case clients lt cid of None \<Rightarrow> {} | Some c \<Rightarrow> set (session_queue c)))"
      using q unfolding queued_sessions_def by blast
    from p(2) obtain cid c where "p = Some cid" "clients lt cid = Some c" "sid \<in> set (session_queue c)"
      by (simp split: option.splits)
    with p(1) show ?thesis by blast
  qed
  show "sid \<in> queued_sessions lt"
    if "\<exists>cid c. Some cid \<in> set (connection_sptr_vector lt) \<and> clients lt cid = Some c \<and> sid \<in> set (session_queue c)"
    using that by (auto simp: queued_sessions_def intro!: bexI [of _ "Some cid" for cid])
qed

lemma referenced_cong:
  "fd_to_session_map lt' = fd_to_session_map lt \<Longrightarrow> connection_sptr_vector lt' = connection_sptr_vector lt \<Longrightarrow>
   clients lt' = clients lt \<Longrightarrow> session_referenced lt' = session_referenced lt"
  using queued_sessions_cong [of lt' lt] by (simp add: session_referenced_def fun_eq_iff)

lemma tidy_cong:
  assumes "fd_to_session_map lt' = fd_to_session_map lt" and "connection_sptr_vector lt' = connection_sptr_vector lt"
    and "clients lt' = clients lt" and "dom (sessions lt') = dom (sessions lt)" and "next_addr lt' = next_addr lt"
  shows "tidy lt' \<longleftrightarrow> tidy lt"
proof -
  have "sessions lt' sid = None \<longleftrightarrow> sessions lt sid = None" for sid using assms(4) by (metis domIff)
  then show ?thesis
    using assms referenced_cong [OF assms(1-3)] by (simp add: tidy_def fresh_addr_def)
qed

lemma tidy_updates [simp]:
  "tidy (lt\<lparr>task_queue := q\<rparr>) \<longleftrightarrow> tidy lt" "tidy (lt\<lparr>evfd := f\<rparr>) \<longleftrightarrow> tidy lt"
  by (rule tidy_cong; simp)+

text \<open>Growing the queues keeps every reference.\<close>

lemma queued_set_client:
  assumes "clients lt cid = Some c" and "set (session_queue c) \<subseteq> set (session_queue c')"
  shows "queued_sessions lt \<subseteq> queued_sessions (set_client cid c' lt)"
  using assms by (fastforce simp: in_queued_iff)

lemma tidy_set_client:
  assumes "clients lt cid = Some c" and "set (session_queue c) \<subseteq> set (session_queue c')"
  shows "tidy lt \<Longrightarrow> tidy (set_client cid c' lt)"
  using queued_set_client [OF assms] assms(1) unfolding tidy_def session_referenced_def
  by (auto simp: fresh_addr_def)

lemma tidy_unref:
  assumes "tidy_but sid lt" and "session_unref S sid lt w = Inr (lt', w')"
  shows "tidy lt'"
proof (cases "session_referenced lt sid \<or> sessions lt sid = None")
  case True
  with assms(2) have "lt' = lt" by (auto simp: session_unref_def split: if_splits)
  moreover have "\<forall>sid'. sessions lt sid' \<noteq> None \<longrightarrow> session_referenced lt sid'"
    using assms(1) True by (metis tidy_but_def)
  ultimately show ?thesis using assms(1) by (simp add: tidy_def tidy_but_def)
next
  case False
  then have e: "lt' = lt\<lparr>sessions := (sessions lt)(sid := None)\<rparr>"
    using assms(2) by (auto simp: session_unref_def andThen_eq_Inr split: option.splits)
  have "session_referenced lt' = session_referenced lt" by (rule referenced_cong) (simp_all add: e)
  with assms(1) show ?thesis by (simp add: tidy_def tidy_but_def e fresh_addr_def)
qed

lemma update_keeps: "x \<in> snd ` set al \<Longrightarrow> map_of al k \<noteq> Some x \<Longrightarrow> x \<in> snd ` set (AList.update k v al)"
proof (induction al)
  case (Cons p al)
  show ?case
  proof (cases "fst p = k")
    case True
    with Cons.prems show ?thesis by (cases p) auto
  next
    case False
    with Cons show ?thesis by (cases p) auto
  qed
qed simp

lemma delete_keeps:
  assumes "distinct (map fst al)" and "x \<in> snd ` set al" and "map_of al k \<noteq> Some x"
  shows "x \<in> snd ` set (AList.delete k al)"
proof -
  obtain j where j: "(j, x) \<in> set al" using assms(2) by auto
  with assms(1,3) have "j \<noteq> k" by auto
  with j show ?thesis by (force simp: AList.delete_eq)
qed

text \<open>An entry of the map is replaced or erased: only the session that was there can lose its last reference.\<close>

lemma tidy_map_change:
  assumes "tidy lt" and "distinct (map fst m)"
    and "\<And>x. x \<in> snd ` set (fd_to_session_map lt) \<Longrightarrow> map_of (fd_to_session_map lt) fd \<noteq> Some x \<Longrightarrow> x \<in> snd ` set m"
    and "(case map_of (fd_to_session_map lt) fd of None \<Rightarrow> Inr (lt\<lparr>fd_to_session_map := m\<rparr>, w)
          | Some old \<Rightarrow> session_unref S old (lt\<lparr>fd_to_session_map := m\<rparr>) w) = Inr (lt', w')"
  shows "tidy lt'"
proof -
  have q: "queued_sessions (lt\<lparr>fd_to_session_map := m\<rparr>) = queued_sessions lt" by (rule queued_sessions_cong) simp_all
  have ref: "session_referenced (lt\<lparr>fd_to_session_map := m\<rparr>) x"
    if "sessions lt x \<noteq> None" "map_of (fd_to_session_map lt) fd \<noteq> Some x" for x
  proof -
    have "session_referenced lt x" using assms(1) that(1) by (simp add: tidy_def)
    with assms(3) [OF _ that(2)] q show ?thesis by (auto simp: session_referenced_def)
  qed
  have fresh: "fresh_addr (lt\<lparr>fd_to_session_map := m\<rparr>)" using assms(1) by (simp add: tidy_def fresh_addr_def)
  show ?thesis
  proof (cases "map_of (fd_to_session_map lt) fd")
    case None
    then have "lt' = lt\<lparr>fd_to_session_map := m\<rparr>" using assms(4) by simp
    with ref fresh assms(2) None show ?thesis by (simp add: tidy_def)
  next
    case (Some old)
    have "tidy_but old (lt\<lparr>fd_to_session_map := m\<rparr>)"
      using ref fresh assms(2) Some by (auto simp: tidy_but_def)
    with assms(4) Some show ?thesis using tidy_unref by simp
  qed
qed

lemma tidy_erase:
  assumes "tidy lt" and "map_erase S fd lt w = Inr (lt', w')"
  shows "tidy lt'"
proof (rule tidy_map_change [OF assms(1)])
  have d: "distinct (map fst (fd_to_session_map lt))" using assms(1) by (simp add: tidy_def)
  then show "distinct (map fst (AList.delete fd (fd_to_session_map lt)))" by (rule distinct_delete)
  show "x \<in> snd ` set (AList.delete fd (fd_to_session_map lt))"
    if "x \<in> snd ` set (fd_to_session_map lt)" "map_of (fd_to_session_map lt) fd \<noteq> Some x" for x
    using delete_keeps [OF d that] .
qed (use assms(2) in \<open>simp add: map_erase_def Let_def\<close>)

text \<open>A new session is referenced as soon as it is in the map.\<close>

lemma tidy_new_session:
  assumes "tidy lt" and "map_insert S fd (next_addr lt) (fresh_session s lt) w = Inr (lt', w')"
  shows "tidy lt'"
proof -
  let ?f = "fresh_session s lt" and ?m = "AList.update fd (next_addr lt) (fd_to_session_map lt)"
  have q: "queued_sessions (?f\<lparr>fd_to_session_map := ?m\<rparr>) = queued_sessions lt" by (rule queued_sessions_cong) simp_all
  have new: "next_addr lt \<in> snd ` set ?m"
    using in_set_conv_decomp by (metis (no_types) map_of_SomeD snd_conv image_eqI update_conv' fun_upd_same)
  have ref: "session_referenced (?f\<lparr>fd_to_session_map := ?m\<rparr>) sid"
    if "sessions ?f sid \<noteq> None" "map_of (fd_to_session_map lt) fd \<noteq> Some sid" for sid
  proof (cases "sid = next_addr lt")
    case True
    with new show ?thesis by (simp add: session_referenced_def)
  next
    case False
    with that(1) assms(1) have "session_referenced lt sid" by (simp add: tidy_def)
    then show ?thesis
      using update_keeps [of sid "fd_to_session_map lt" fd "next_addr lt"] that(2) q
      by (auto simp: session_referenced_def)
  qed
  have rest: "fresh_addr (?f\<lparr>fd_to_session_map := ?m\<rparr>)" "distinct (map fst ?m)"
    using assms(1) by (simp_all add: tidy_def fresh_addr_def distinct_update)
  show ?thesis
  proof (cases "map_of (fd_to_session_map lt) fd")
    case None
    then have "lt' = ?f\<lparr>fd_to_session_map := ?m\<rparr>" using assms(2) by (simp add: map_insert_def)
    with ref rest None show ?thesis by (simp add: tidy_def)
  next
    case (Some old)
    have "tidy_but old (?f\<lparr>fd_to_session_map := ?m\<rparr>)" using ref rest Some by (simp add: tidy_but_def)
    with assms(2) Some show ?thesis using tidy_unref by (simp add: map_insert_def)
  qed
qed

lemma tidy_add_connection:
  assumes "tidy lt" and "session_queue c = []"
  shows "tidy (add_connection (next_addr lt) c lt)"
proof -
  have "queued_sessions lt \<subseteq> queued_sessions (add_connection (next_addr lt) c lt)"
  proof
    fix sid assume "sid \<in> queued_sessions lt"
    then obtain k d where k: "Some k \<in> set (connection_sptr_vector lt)" "clients lt k = Some d" "sid \<in> set (session_queue d)"
      by (auto simp: in_queued_iff)
    moreover have "k \<noteq> next_addr lt" using assms(1) k(2) by (auto simp: tidy_def fresh_addr_def)
    ultimately show "sid \<in> queued_sessions (add_connection (next_addr lt) c lt)"
      by (auto simp: in_queued_iff add_connection_def)
  qed
  then show ?thesis
    using assms(1) by (auto simp: tidy_def session_referenced_def fresh_addr_def add_connection_def)
qed

lemma tidy_answer:
  assumes "tidy lt" and "clients lt cid = Some c" and "session_queue c = sid # rest"
    and "session_unref S sid (set_client cid (c\<lparr>session_queue := rest\<rparr>) lt) w = Inr (lt', w')"
  shows "tidy lt'"
proof (rule tidy_unref [OF _ assms(4)])
  let ?lt = "set_client cid (c\<lparr>session_queue := rest\<rparr>) lt"
  have "sid' \<in> queued_sessions ?lt" if "sid' \<noteq> sid" "sid' \<in> queued_sessions lt" for sid'
    using that assms(2,3) by (fastforce simp: in_queued_iff)
  with assms(1,2) show "tidy_but sid ?lt"
    by (auto simp: tidy_def tidy_but_def session_referenced_def fresh_addr_def)
qed

interpretation lifetime: thread_relation S V tidy_step
  for S :: "'w sys" and V :: "'w view"
proof unfold_locales
  fix lt :: loop_thread and w w' :: 'w and \<sigma> \<sigma>1 \<sigma>2 \<sigma>' :: "loop_thread \<times> 'w"
  fix s s' sid cid fd rest b x y msg
  fix c :: redis_client
  obtain lt' w2 where \<sigma>': "\<sigma>' = (lt', w2)" by (rule prod.exhaust)
  show "tidy_step \<sigma> \<sigma>" "tidy_step \<sigma> \<sigma>1 \<Longrightarrow> tidy_step \<sigma>1 \<sigma>2 \<Longrightarrow> tidy_step \<sigma> \<sigma>2" by (auto simp: tidy_step_def)
  show "tidy_step (lt, w) (lt, w')" by simp
  show "tidy_step (lt, w) (lt\<lparr>task_queue := task_queue lt @ [msg]\<rparr>, w)" "tidy_step (lt, w) (lt\<lparr>task_queue := []\<rparr>, w)"
    "tidy_step (lt, w) (lt\<lparr>evfd := 0\<rparr>, w)"
    by simp_all
  show "tidy_step (lt, w) (set_session sid s' lt, w)" if "sessions lt sid = Some s"
    using that tidy_cong [of "set_session sid s' lt" lt] by (auto simp: insert_absorb domI)
  show "tidy_step (lt, w) (set_client cid (c\<lparr>session_queue := session_queue c @ [sid]\<rparr>) lt, w)"
    "tidy_step (lt, w) (set_client cid (c\<lparr>isConnected := x, isClosing := y\<rparr>) lt, w)"
    "tidy_step (lt, w) (set_client cid (c\<lparr>isConnected := False, bev_sptr := NoBev\<rparr>) lt, bufferevent_free S b w)"
    if "clients lt cid = Some c"
    by (auto intro: tidy_set_client [OF that])
  show "tidy_step (lt, w) \<sigma>'"
    if "clients lt cid = Some c" "session_queue c = sid # rest"
      "session_unref S sid (set_client cid (c\<lparr>session_queue := rest\<rparr>) lt) w = Inr \<sigma>'"
    using tidy_answer [OF _ that(1,2) that(3) [unfolded \<sigma>']] \<sigma>' by simp
  show "tidy_step (lt, w) \<sigma>'" if "map_insert S fd (next_addr lt) (fresh_session s lt) w' = Inr \<sigma>'"
    using tidy_new_session [OF _ that [unfolded \<sigma>']] \<sigma>' by simp
  show "tidy_step (lt, w) \<sigma>'" if "map_erase S fd lt w = Inr \<sigma>'"
    using tidy_erase [OF _ that [unfolded \<sigma>']] \<sigma>' by simp
  show "tidy_step (lt, w) (add_connection (next_addr lt) c lt, w')" if "session_queue c = []"
    using tidy_add_connection that by simp
qed

section \<open>What waits on a lost connection\<close>

text \<open>
  Connection \<open>cid\<close> has no bufferevent, so it can neither answer nor be given requests; session \<open>sid\<close>
  waits in its queue and holds \<open>p\<close>.
\<close>

definition stranded :: "nat \<Rightarrow> nat \<Rightarrow> bev_sptr \<Rightarrow> loop_thread \<Rightarrow> bool" where
  "stranded cid sid p lt \<longleftrightarrow> fresh_addr lt \<and> Some cid \<in> set (connection_sptr_vector lt) \<and>
     (\<exists>c s. clients lt cid = Some c \<and> bev_get (bev_sptr c) = None \<and> sid \<in> set (session_queue c) \<and>
        sessions lt sid = Some s \<and> s_bev_sptr s = p)"

definition stranded_step :: "nat \<Rightarrow> nat \<Rightarrow> bev_sptr \<Rightarrow> loop_thread \<times> 'w \<Rightarrow> loop_thread \<times> 'w \<Rightarrow> bool" where
  "stranded_step cid sid p \<sigma> \<sigma>' \<longleftrightarrow> (stranded cid sid p (fst \<sigma>) \<longrightarrow> stranded cid sid p (fst \<sigma>'))"

lemma stranded_step_pair [simp]:
  "stranded_step cid sid p (lt, w) (lt', w') \<longleftrightarrow> (stranded cid sid p lt \<longrightarrow> stranded cid sid p lt')"
  by (simp add: stranded_step_def)

lemma stranded_updates [simp]:
  "stranded cid sid p (lt\<lparr>task_queue := q\<rparr>) \<longleftrightarrow> stranded cid sid p lt"
  "stranded cid sid p (lt\<lparr>evfd := f\<rparr>) \<longleftrightarrow> stranded cid sid p lt"
  "stranded cid sid p (lt\<lparr>fd_to_session_map := m\<rparr>) \<longleftrightarrow> stranded cid sid p lt"
  by (simp_all add: stranded_def fresh_addr_def)

lemma stranded_unref:
  assumes "stranded cid sid p lt" and "session_unref S x lt w = Inr (lt', w')"
  shows "stranded cid sid p lt'"
proof (cases "session_referenced lt x \<or> sessions lt x = None")
  case True
  with assms(2) have "lt' = lt" by (auto simp: session_unref_def split: if_splits)
  with assms(1) show ?thesis by simp
next
  case False
  then have e: "lt' = lt\<lparr>sessions := (sessions lt)(x := None)\<rparr>"
    using assms(2) by (auto simp: session_unref_def andThen_eq_Inr split: option.splits)
  have "sid \<in> queued_sessions lt" using assms(1) by (auto simp: stranded_def in_queued_iff)
  with False have "x \<noteq> sid" by (auto simp: session_referenced_def)
  with assms(1) show ?thesis by (auto simp: stranded_def e fresh_addr_def)
qed

lemma stranded_map:
  assumes "stranded cid sid p lt" and "map_insert S fd x lt w = Inr (lt', w') \<or> map_erase S fd lt w = Inr (lt', w')"
  shows "stranded cid sid p lt'"
  using assms(2)
proof (rule map_change_unref)
  show "stranded cid sid p lt'" if "(lt', w') = (lt\<lparr>fd_to_session_map := m\<rparr>, w)" for m
    using that assms(1) by simp
  show "stranded cid sid p lt'" if "session_unref S old (lt\<lparr>fd_to_session_map := m\<rparr>) w = Inr (lt', w')" for m old
    using stranded_unref [OF _ that] assms(1) by simp
qed

lemma stranded_open_client:
  assumes "clients lt k = Some c" and "bev_sptr c = Bev b" and "stranded cid sid p lt"
  shows "stranded cid sid p (set_client k c' lt)"
proof -
  have "k \<noteq> cid" using assms by (auto simp: stranded_def)
  with assms(1,3) show ?thesis by (auto simp: stranded_def fresh_addr_def)
qed

interpretation strand: thread_relation S V "stranded_step cid0 sid0 p0"
  for S :: "'w sys" and V :: "'w view" and cid0 :: nat and sid0 :: nat and p0 :: bev_sptr
proof unfold_locales
  fix lt :: loop_thread and w w' :: 'w and \<sigma> \<sigma>1 \<sigma>2 \<sigma>' :: "loop_thread \<times> 'w"
  fix s s' sid cid fd rest b x y msg
  fix c :: redis_client
  obtain lt' w2 where \<sigma>': "\<sigma>' = (lt', w2)" by (rule prod.exhaust)
  show "stranded_step cid0 sid0 p0 \<sigma> \<sigma>"
    "stranded_step cid0 sid0 p0 \<sigma> \<sigma>1 \<Longrightarrow> stranded_step cid0 sid0 p0 \<sigma>1 \<sigma>2 \<Longrightarrow> stranded_step cid0 sid0 p0 \<sigma> \<sigma>2"
    by (auto simp: stranded_step_def)
  show "stranded_step cid0 sid0 p0 (lt, w) (lt, w')" by simp
  show "stranded_step cid0 sid0 p0 (lt, w) (lt\<lparr>task_queue := task_queue lt @ [msg]\<rparr>, w)"
    "stranded_step cid0 sid0 p0 (lt, w) (lt\<lparr>task_queue := []\<rparr>, w)" "stranded_step cid0 sid0 p0 (lt, w) (lt\<lparr>evfd := 0\<rparr>, w)"
    by simp_all
  show "stranded_step cid0 sid0 p0 (lt, w) (set_session sid s' lt, w)"
    if "sessions lt sid = Some s" "s_bev_sptr s' = s_bev_sptr s"
    using that by (auto simp: stranded_def fresh_addr_def)
  show "stranded_step cid0 sid0 p0 (lt, w) (set_client cid (c\<lparr>session_queue := session_queue c @ [sid]\<rparr>) lt, w)"
    "stranded_step cid0 sid0 p0 (lt, w) (set_client cid (c\<lparr>isConnected := x, isClosing := y\<rparr>) lt, w)"
    "stranded_step cid0 sid0 p0 (lt, w) (set_client cid (c\<lparr>isConnected := False, bev_sptr := NoBev\<rparr>) lt, bufferevent_free S b w)"
    if "clients lt cid = Some c" "bev_sptr c = Bev b"
    by (auto intro: stranded_open_client [OF that])
  show "stranded_step cid0 sid0 p0 (lt, w) \<sigma>'"
    if "clients lt cid = Some c" "bev_sptr c = Bev b"
      "session_unref S sid (set_client cid (c\<lparr>session_queue := rest\<rparr>) lt) w = Inr \<sigma>'"
    using stranded_unref [OF stranded_open_client [OF that(1,2)] that(3) [unfolded \<sigma>']] \<sigma>' by simp
  show "stranded_step cid0 sid0 p0 (lt, w) \<sigma>'" if m: "map_insert S fd (next_addr lt) (fresh_session s lt) w' = Inr \<sigma>'"
  proof -
    have "stranded cid0 sid0 p0 (fresh_session s lt)" if "stranded cid0 sid0 p0 lt"
      using that by (auto simp: stranded_def fresh_addr_def)
    with stranded_map [OF _ disjI1 [OF m [unfolded \<sigma>']]] \<sigma>' show ?thesis by simp
  qed
  show "stranded_step cid0 sid0 p0 (lt, w) \<sigma>'" if "map_erase S fd lt w = Inr \<sigma>'"
    using stranded_map [OF _ disjI2 [OF that [unfolded \<sigma>']]] \<sigma>' by simp
  show "stranded_step cid0 sid0 p0 (lt, w) (add_connection (next_addr lt) c lt, w')"
    by (auto simp: stranded_def fresh_addr_def add_connection_def)
qed

section \<open>Types of the tasks\<close>

text \<open>What the thread posts to itself has a body that its own handler can cast.\<close>

definition typed_step :: "loop_thread \<times> 'w \<Rightarrow> loop_thread \<times> 'w \<Rightarrow> bool" where
  "typed_step \<sigma> \<sigma>' \<longleftrightarrow> (list_all task_castable (task_queue (fst \<sigma>)) \<longrightarrow> list_all task_castable (task_queue (fst \<sigma>')))"

lemma typed_step_queue: "set (task_queue lt') \<subseteq> set (task_queue lt) \<Longrightarrow> typed_step (lt, w) (lt', w')"
  by (auto simp: typed_step_def list_all_iff)

lemma typed_step_same: "task_queue lt' = task_queue lt \<Longrightarrow> typed_step (lt, w) (lt', w')"
  by (simp add: typed_step_def)

lemma map_change_queue:
  assumes "map_insert S fd x lt w = Inr (lt', w') \<or> map_erase S fd lt w = Inr (lt', w')"
  shows "task_queue lt' = task_queue lt"
  using assms by (rule map_change_unref) (auto dest: session_unref_sel(4))

interpretation typing: thread_relation S V typed_step
  for S :: "'w sys" and V :: "'w view"
proof unfold_locales
  fix lt :: loop_thread and w w' :: 'w and \<sigma> \<sigma>1 \<sigma>2 \<sigma>' :: "loop_thread \<times> 'w"
  fix s s' sid cid fd rest b x y msg
  fix c :: redis_client
  obtain lt' w2 where \<sigma>': "\<sigma>' = (lt', w2)" by (rule prod.exhaust)
  show "typed_step \<sigma> \<sigma>" "typed_step \<sigma> \<sigma>1 \<Longrightarrow> typed_step \<sigma>1 \<sigma>2 \<Longrightarrow> typed_step \<sigma> \<sigma>2" by (auto simp: typed_step_def)
  show "typed_step (lt, w) (lt\<lparr>task_queue := task_queue lt @ [msg]\<rparr>, w)"
    if "msg_type msg = DEL_SESSION" "msg_body msg = AnyFd fd"
    using that by (simp add: typed_step_def task_castable_def)
  show "typed_step (lt, w) (lt\<lparr>task_queue := []\<rparr>, w)" by (simp add: typed_step_def)
  show "typed_step (lt, w) (lt, w')" "typed_step (lt, w) (lt\<lparr>evfd := 0\<rparr>, w)" "typed_step (lt, w) (set_session sid s' lt, w)"
    "typed_step (lt, w) (set_client cid (c\<lparr>session_queue := session_queue c @ [sid]\<rparr>) lt, w)"
    "typed_step (lt, w) (set_client cid (c\<lparr>isConnected := x, isClosing := y\<rparr>) lt, w)"
    "typed_step (lt, w) (set_client cid (c\<lparr>isConnected := False, bev_sptr := NoBev\<rparr>) lt, bufferevent_free S b w)"
    "typed_step (lt, w) (add_connection (next_addr lt) c lt, w')"
    by (simp_all add: typed_step_same add_connection_def)
  show "typed_step (lt, w) \<sigma>'" if "session_unref S sid (set_client cid (c\<lparr>session_queue := rest\<rparr>) lt) w = Inr \<sigma>'"
    using session_unref_sel(4) [OF that [unfolded \<sigma>']] \<sigma>' by (simp add: typed_step_same)
  show "typed_step (lt, w) \<sigma>'" if "map_insert S fd (next_addr lt) (fresh_session s lt) w' = Inr \<sigma>'"
    using map_change_queue [OF disjI1 [OF that [unfolded \<sigma>']]] \<sigma>' by (simp add: typed_step_same)
  show "typed_step (lt, w) \<sigma>'" if "map_erase S fd lt w = Inr \<sigma>'"
    using map_change_queue [OF disjI2 [OF that [unfolded \<sigma>']]] \<sigma>' by (simp add: typed_step_same)
qed

end
