(* ===== verification/Pool_System.thy ===== *)
theory Pool_System
  imports Lifetimes Loop_Pool
begin

text \<open>
  All the loop threads of a pool over one system: threads are started, libevent calls back into any
  of them, tasks are posted to any of them, the network changes what it likes, in any order. The
  invariants of one thread hold for all of them, and no thread touches what another one owns.
\<close>

section \<open>The transition system\<close>

text \<open>
  \<open>user\<close> are the tasks that the program around the pool may post. A thread whose set-up failed makes
  no callbacks, and is left out of the list.
\<close>

inductive pool_step :: "'w sys \<Rightarrow> 'w view \<Rightarrow> (TASK_MSG \<Rightarrow> bool) \<Rightarrow> loop_thread list \<times> 'w \<Rightarrow> loop_thread list \<times> 'w \<Rightarrow> bool"
  for S V user where
  spawned: "loop_thread_init S False generator junk_event (new_loop_thread True) w = Inr (Inr True, lt, w') \<Longrightarrow>
     pool_step S V user (lts, w) (lts @ [lt], w')"
| in_thread: "i < length lts \<Longrightarrow> enabled ev (lts ! i) \<Longrightarrow> handle S J ev (lts ! i, w) = Inr (lt', w') \<Longrightarrow>
     pool_step S V user (lts, w) (lts[i := lt'], w')"
| post_task: "i < length lts \<Longrightarrow> user msg \<Longrightarrow> send2loop_thread S msg (lts ! i) w = Inr (ok, lt', w') \<Longrightarrow>
     pool_step S V user (lts, w) (lts[i := lt'], w')"
| network: "live V w' = live V w \<Longrightarrow> pool_step S V user (lts, w) (lts, w')"

lemma pool_stepE:
  assumes "pool_step S V user (lts, w) (lts', w')"
  obtains (spawned) generator junk_event lt where "lts' = lts @ [lt]"
      "loop_thread_init S False generator junk_event (new_loop_thread True) w = Inr (Inr True, lt, w')"
    | (in_thread) i ev J lt' where "lts' = lts[i := lt']" "i < length lts" "enabled ev (lts ! i)"
      "handle S J ev (lts ! i, w) = Inr (lt', w')"
    | (post_task) i msg ok lt' where "lts' = lts[i := lt']" "i < length lts" "user msg"
      "send2loop_thread S msg (lts ! i) w = Inr (ok, lt', w')"
    | (network) "lts' = lts" "live V w' = live V w"
  using assms by (cases rule: pool_step.cases) blast+

abbreviation pool_reaches :: "'w sys \<Rightarrow> 'w view \<Rightarrow> (TASK_MSG \<Rightarrow> bool) \<Rightarrow> loop_thread list \<times> 'w \<Rightarrow> loop_thread list \<times> 'w \<Rightarrow> bool" where
  "pool_reaches S V user \<equiv> rtranclp (pool_step S V user)"

text \<open>An invariant of the single thread is one of all threads.\<close>

lemma pool_invariant:
  assumes "pool_reaches S V user (lts, w) (lts', w')" and "list_all P lts"
    and "\<And>generator junk_event w lt w'. loop_thread_init S False generator junk_event (new_loop_thread True) w =
      Inr (Inr True, lt, w') \<Longrightarrow> P lt"
    and "\<And>lt J ev w lt' w'. P lt \<Longrightarrow> enabled ev lt \<Longrightarrow> handle S J ev (lt, w) = Inr (lt', w') \<Longrightarrow> P lt'"
    and "\<And>lt msg. P lt \<Longrightarrow> user msg \<Longrightarrow> P (lt\<lparr>task_queue := task_queue lt @ [msg]\<rparr>)"
  shows "list_all P lts'"
  using assms(1,2)
proof (induction rule: rtranclp_induct2)
  case (step lts1 w1 lts2 w2)
  have all: "list_all P lts1" by (rule step(3) [OF step(4)])
  then have nth: "P (lts1 ! i)" if "i < length lts1" for i using that by (simp add: list_all_length)
  have upd: "list_all P (lts1[i := lt'])" if "P lt'" for i lt'
    using all that by (auto simp: list_all_iff dest: set_update_subset_insert [THEN subsetD])
  from step(2) show ?case
  proof (cases rule: pool_stepE)
    case (post_task i msg ok lt')
    then have "lt' = (lts1 ! i)\<lparr>task_queue := task_queue (lts1 ! i) @ [msg]\<rparr>"
      by (auto simp: send2loop_thread_def Let_def split: if_splits option.splits)
    with post_task upd assms(5) nth show ?thesis by simp
  next
    case (in_thread i ev J lt')
    with upd assms(4) [OF nth] show ?thesis by blast
  qed (use all assms(3) in auto)
qed simp

section \<open>Every thread is in order\<close>

text \<open>What a thread looks like when its set-up is done.\<close>

lemma init_objects:
  assumes "loop_thread_init S False generator junk_event (new_loop_thread True) w = Inr (Inr True, lt, w')"
  shows "sessions lt = Map.empty" and "clients lt = Map.empty" and "fd_to_session_map lt = []"
    and "connection_sptr_vector lt = []" and "task_queue lt = []"
  using assms
  by (auto simp: loop_thread_init_def new_loop_thread_def Let_def andThen_eq_Inr split: sum.splits prod.splits if_splits)

lemma init_keeps:
  assumes S: "libevent_ok S V"
    and "loop_thread_init S False generator junk_event (new_loop_thread True) w = Inr (Inr True, lt, w')"
  shows "keeps V w w'"
proof -
  obtain base w1 where 1: "event_base_new S w = (base, w1)" by (rule prod.exhaust)
  obtain fd w2 where 2: "sys_eventfd S w1 = (fd, w2)" by (rule prod.exhaust)
  obtain r0 l0 g0 where 0: "loop_init generator (new_loop base) = (r0, l0, g0)" by (metis prod.exhaust)
  obtain r srv w3 where 3: "eventfd_server_init S (new_eventfd_server fd junk_event) w2 = (r, srv, w3)" by (metis prod.exhaust)
  have k1: "keeps V w w1" using keeps_others(18) [OF S] 1 by (metis snd_conv)
  have k2: "keeps V w w2" using keeps_trans [OF k1] keeps_others(19) [OF S] 2 by (metis snd_conv)
  obtain ev w4 where 4: "event_new S (srv_fd (new_eventfd_server fd junk_event)) w2 = (ev, w4)" by (rule prod.exhaust)
  have k4: "keeps V w w4" using keeps_trans [OF k2] keeps_others(20) [OF S] 4 by (metis snd_conv)
  have "keeps V w w3"
  proof (cases ev)
    case None
    with 3 4 k4 show ?thesis by (auto simp: eventfd_server_init_def new_eventfd_server_def)
  next
    case (Some e)
    obtain q w5 where 5: "event_add S e w4 = (q, w5)" by (rule prod.exhaust)
    have "keeps V w w5" using keeps_trans [OF k4] keeps_others(21) [OF S] 5 by (metis snd_conv)
    with 3 4 5 Some show ?thesis
      by (auto simp: eventfd_server_init_def new_eventfd_server_def Let_def split: if_splits)
  qed
  with assms(2) 0 1 2 3 k1 k2 show ?thesis
    by (auto simp: loop_thread_init_def Let_def andThen_eq_Inr split: sum.splits if_splits)
qed

lemma pool_well_formed:
  assumes S: "libevent_ok S V" "creates_bufferevents S" and run: "pool_reaches S V user ([], w0) (lts, w)"
    and "i < length lts"
  shows "well_formed (lts ! i)"
proof -
  have "list_all well_formed lts"
  proof (rule pool_invariant [OF run])
    show "well_formed lt'" if "well_formed lt" "enabled ev lt" "handle S J ev (lt, w) = Inr (lt', w')" for lt J ev w lt' w'
      using handle_safe [OF that(1) S that(2), of J w] that(3) by simp
  qed (simp_all add: loop_thread_init_well_formed)
  with assms(4) show ?thesis by (simp add: list_all_length)
qed

lemma pool_tidy:
  assumes S: "libevent_ok S V" and run: "pool_reaches S V user ([], w0) (lts, w)" and "i < length lts"
  shows "tidy (lts ! i)"
proof -
  have "list_all tidy lts"
  proof (rule pool_invariant [OF run])
    show "tidy lt" if "loop_thread_init S False generator junk_event (new_loop_thread True) w = Inr (Inr True, lt, w')"
      for generator junk_event w lt w'
      using init_objects [OF that] by (simp add: tidy_def fresh_addr_def)
    show "tidy lt'" if "tidy lt" "enabled ev lt" "handle S J ev (lt, w) = Inr (lt', w')" for lt J ev w lt' w'
      using lifetime.handle_related [OF S that(2,3)] that(1) by simp
  qed simp_all
  with assms(3) show ?thesis by (simp add: list_all_length)
qed

section \<open>Owners in the pool\<close>

text \<open>
  \<open>L\<close> are the bufferevents of others, say of clients the program around the pool has made. The
  threads hold all other bufferevents there are, each of them once.
\<close>

definition pool_owned :: "'w view \<Rightarrow> bev set \<Rightarrow> loop_thread list \<times> 'w \<Rightarrow> bool" where
  "pool_owned V L = (\<lambda>(lts, w).
     (\<forall>i < length lts. owned V (lts ! i, w) \<and> held (lts ! i) \<inter> L = {} \<and>
        (\<forall>j < length lts. i \<noteq> j \<longrightarrow> held (lts ! i) \<inter> held (lts ! j) = {})) \<and>
     live V w = L \<union> (\<Union>lt \<in> set lts. held lt))"

lemma pool_owned_rest:
  assumes "pool_owned V L (lts, w)" and "i < length lts"
  shows "live V w - held (lts ! i) = L \<union> (\<Union>j \<in> {..<length lts} - {i}. held (lts ! j))"
proof -
  have "live V w = L \<union> (\<Union>j \<in> {..<length lts}. held (lts ! j))"
    using assms(1) by (auto simp: pool_owned_def set_conv_nth)
  moreover have "held (lts ! i) \<inter> L = {}" "\<And>j. j < length lts \<Longrightarrow> i \<noteq> j \<Longrightarrow> held (lts ! i) \<inter> held (lts ! j) = {}"
    using assms by (auto simp: pool_owned_def)
  ultimately show ?thesis using assms(2) by blast
qed

lemma pool_owned_update:
  assumes p: "pool_owned V L (lts, w)" and i: "i < length lts"
    and o: "owned V (lt', w')" "live V w' - held lt' = live V w - held (lts ! i)"
  shows "pool_owned V L (lts[i := lt'], w')"
proof -
  note rest = pool_owned_rest [OF p i, folded o(2)]
  have sub: "held lt' \<subseteq> live V w'" using o(1) by (simp add: owned_def)
  have old: "owned V (lts ! j, w)" "held (lts ! j) \<inter> L = {}"
    "\<And>k. k < length lts \<Longrightarrow> j \<noteq> k \<Longrightarrow> held (lts ! j) \<inter> held (lts ! k) = {}" if "j < length lts" for j
    using p that by (auto simp: pool_owned_def)
  have L: "held lt' \<inter> L = {}" using rest by blast
  have apart: "held lt' \<inter> held (lts ! j) = {}" "held (lts ! j) \<subseteq> live V w'" if "j < length lts" "j \<noteq> i" for j
    using rest that by blast+
  have still: "owned V (lts ! j, w')" if "j < length lts" "j \<noteq> i" for j
    using old(1) [OF that(1)] apart(2) [OF that] by (simp add: owned_def)
  have nth: "lts[i := lt'] ! j = (if j = i then lt' else lts ! j)" if "j < length lts" for j using that by simp
  have "live V w' = L \<union> (\<Union>j \<in> {..<length lts}. held (lts[i := lt'] ! j))"
  proof -
    have "(\<Union>j \<in> {..<length lts}. held (lts[i := lt'] ! j)) = held lt' \<union> (\<Union>j \<in> {..<length lts} - {i}. held (lts ! j))"
      using i by (auto simp: nth split: if_splits)
    with rest sub show ?thesis by blast
  qed
  then have "live V w' = L \<union> (\<Union>lt \<in> set (lts[i := lt']). held lt)" by (auto simp: set_conv_nth)
  moreover have "owned V (lts[i := lt'] ! j, w') \<and> held (lts[i := lt'] ! j) \<inter> L = {} \<and>
      (\<forall>k < length lts. j \<noteq> k \<longrightarrow> held (lts[i := lt'] ! j) \<inter> held (lts[i := lt'] ! k) = {})"
    if j: "j < length lts" for j
  proof (cases "j = i")
    case True
    with i o(1) L apart(1) show ?thesis by (auto simp: nth)
  next
    case False
    have "held (lts ! j) \<inter> held (lts[i := lt'] ! k) = {}" if k: "k < length lts" "j \<noteq> k" for k
      using apart(1) [OF j False] old(3) [OF j k] k(1) by (auto simp: nth)
    with j False still old(2) show ?thesis by (simp add: nth)
  qed
  ultimately show ?thesis by (simp add: pool_owned_def)
qed

lemma pool_owned_append:
  assumes "pool_owned V L (lts, w)" and "held lt = {}" and "exclusive lt" and "fresh_addr lt" and "live V w' = live V w"
  shows "pool_owned V L (lts @ [lt], w')"
  using assms by (auto simp: pool_owned_def owned_def nth_append less_Suc_eq)

lemma pool_owners:
  assumes S: "libevent_ok S V" and run: "pool_reaches S V user ([], w0) (lts, w)"
  shows "pool_owned V (live V w0) (lts, w)"
  using run
proof (induction rule: rtranclp_induct2)
  case refl
  then show ?case by (simp add: pool_owned_def)
next
  case (step lts1 w1 lts2 w2)
  note p = step(3)
  have ow: "owned V (lts1 ! i, w1)" if "i < length lts1" for i using p that by (simp add: pool_owned_def)
  have upd: "pool_owned V (live V w0) (lts1[i := lt'], w')"
    if "i < length lts1" "owns_step S V (lts1 ! i, w1) (lt', w')" for i lt' w'
    by (rule pool_owned_update [OF p that(1)]) (use that(2) S ow [OF that(1)] in \<open>simp_all add: owns_step_def\<close>)
  from step(2) show ?case
  proof (cases rule: pool_stepE)
    case (spawned generator junk_event lt)
    note obj = init_objects [OF spawned(2)]
    have "bev_of lt = Map.empty" using obj by (auto simp: fun_eq_iff bev_of_def split: sum.splits)
    then have "held lt = {}" "exclusive lt" by (simp_all add: held_def exclusive_def)
    moreover have "fresh_addr lt" using obj by (simp add: fresh_addr_def)
    moreover have "live V w2 = live V w1" using init_keeps [OF S spawned(2)] by (simp add: keeps_def)
    ultimately show ?thesis using pool_owned_append [OF p] spawned(1) by simp
  next
    case (in_thread i ev J lt')
    with upd owner.handle_related [OF S in_thread(3,4)] show ?thesis by simp
  next
    case (post_task i msg ok lt')
    let ?lt = "lts1 ! i"
    have "lt' = ?lt\<lparr>task_queue := task_queue ?lt @ [msg]\<rparr> \<and> keeps V w1 w2"
      using post_task(4) keeps_others(13) [OF S]
      by (auto simp: send2loop_thread_def eventfd_client_send_def case_prod_beta Let_def split: if_splits option.splits)
    then have "owns_step S V (?lt, w1) (lt', w2)"
      by (intro owns_same) (auto simp: fresh_addr_def keeps_own_io intro: bev_of_cong)
    with upd post_task show ?thesis by simp
  next
    case network
    with p show ?thesis by (auto simp: pool_owned_def owned_def)
  qed
qed

end
