(* ===== verification/Empty_Queue.thy ===== *)
theory Empty_Queue
  imports Pool_System
begin

text \<open>
  Who takes the front of an empty reply queue: nobody but the read callback of a connection. No
  operation of the sessions, the tasks and the other callbacks of a connection ends in that fault.
\<close>

definition no_empty :: "'a run \<Rightarrow> bool" where
  "no_empty r \<longleftrightarrow> r \<noteq> Inl EmptyQueue"

lemma no_empty_simps [simp]: "no_empty (Inr x)" "no_empty (Inl e) \<longleftrightarrow> e \<noteq> EmptyQueue"
  by (simp_all add: no_empty_def)

lemma no_empty_andThen: "no_empty r \<Longrightarrow> (\<And>x. no_empty (k x)) \<Longrightarrow> no_empty (andThen r k)"
  by (cases r) simp_all

lemma no_empty_andThen_eq: "no_empty r \<Longrightarrow> (\<And>x. r = Inr x \<Longrightarrow> no_empty (k x)) \<Longrightarrow> no_empty (andThen r k)"
  by (cases r) simp_all

lemma no_empty_split: "no_empty (if b then r else r') \<longleftrightarrow> (b \<longrightarrow> no_empty r) \<and> (\<not> b \<longrightarrow> no_empty r')"
  by simp

lemma no_empty_deliver: "(\<And>m \<sigma>. no_empty (d m \<sigma>)) \<Longrightarrow> no_empty (deliver_all d ms \<sigma>)"
  by (induction ms arbitrary: \<sigma>) (simp_all add: no_empty_andThen)

named_theorems empty_intros \<open>operations that do not take the front of a queue\<close>

lemmas [empty_intros] = no_empty_andThen no_empty_deliver

lemma memory_no_empty [empty_intros]: "no_empty (mem_slice mem off n)" "no_empty (store_bytes mem off bs)"
  "no_empty (store_pton S fam s mem off)" "no_empty (sptr_release S p w)"
  by (auto simp: mem_slice_def store_bytes_def store_pton_def sptr_release_def split: option.splits bev_sptr.splits)


section \<open>Objects\<close>

lemma socket_no_empty [empty_intros]:
  "no_empty (get_socket S sk w)" "no_empty (socket_send S sk mem off n w)" "no_empty (closeImpl S sk w)"
  "no_empty (checkClosing S sk w)"
  by (auto simp: get_socket_def socket_send_def closeImpl_def checkClosing_def Let_def
      split: option.splits prod.splits intro!: empty_intros)

lemma session_no_empty [empty_intros]:
  "no_empty (session_destroy S s w)" "no_empty (session_init S s w)" "no_empty (session_send S s mem off n w)"
  by (auto simp: session_destroy_def session_init_def session_send_def Let_def
      split: option.splits prod.splits intro!: empty_intros)

lemma options_no_empty [empty_intros]:
  "no_empty (set_source_addr S c ip fd w)" "no_empty (set_sockopt_tos S c d fd w)"
  by (auto simp: set_source_addr_def set_sockopt_tos_def Let_def split: prod.splits intro!: empty_intros)

lemma connect_fd_no_empty [empty_intros]: "no_empty (connect_fd S c addr fd w)"
  by (auto simp: connect_fd_def Let_def split: option.splits prod.splits intro!: empty_intros)

lemma sockaddr_no_empty [empty_intros]:
  "no_empty (sockaddr_in S ip p)" "no_empty (sockaddr_in6 S ip p)" "no_empty (sockaddr_un path)"
  by (auto simp: sockaddr_in_def sockaddr_in6_def sockaddr_un_def intro!: empty_intros)

lemma client_no_empty [empty_intros]:
  "no_empty (client_connect S c info w)" "no_empty (client_handleEvent S c events w)" "no_empty (client_writeCallback S c w)"
  by (auto simp: client_connect_def client_handleEvent_def client_writeCallback_def Let_def
      split: CONN_TYPE.splits option.splits prod.splits sum.splits intro!: empty_intros)

lemma thread_no_empty [empty_intros]:
  "no_empty (session_unref S sid lt w)" "no_empty (map_insert S fd sid lt w)" "no_empty (map_erase S fd lt w)"
  "no_empty (send2loop_thread S msg lt w)" "no_empty (loop_thread_stop S lt w)"
  by (auto simp: session_unref_def map_insert_def map_erase_def send2loop_thread_def loop_thread_stop_def Let_def
      split: option.splits prod.splits intro!: empty_intros)

lemma add_session_no_empty [empty_intros]:
  "no_empty (add_session S junk fd lt w)" "no_empty (listenEventCallback S junk fd lt w)"
  by (auto simp: add_session_def listenEventCallback_def Let_def split: prod.splits intro!: empty_intros)

section \<open>Tasks\<close>

lemma tcp_listen_no_empty [empty_intros]: "no_empty (tcp_listen S ip p w)"
  by (auto simp: tcp_listen_def Let_def split: option.splits prod.splits intro!: empty_intros)

lemma process_task_no_empty [empty_intros]: "no_empty (process_task S J msg \<sigma>)"
  by (cases \<sigma>) (auto simp: process_task_def Let_def split: TASK_MSG_TYPE.splits sum.splits prod.splits intro!: empty_intros)

lemma evfc_cb_no_empty: "no_empty (evfc_cb S J fd \<sigma>)"
  by (cases \<sigma>) (auto simp: evfc_cb_def process_msg_def take_tasks_def Let_def split: prod.splits intro!: empty_intros)

section \<open>Requests\<close>

lemma try_connections_no_empty: "no_empty (try_connections S sid buf off n vec retry gen cs w)"
proof (induction S sid buf off n vec retry gen cs w rule: try_connections.induct)
  case (1 S sid buf off n vec retry gen cs w)
  show ?case
    unfolding try_connections.simps [of S sid buf off n vec retry gen cs w]
  proof (rule no_empty_andThen_eq, goal_cases)
    case 1
    show ?case by (auto split: option.splits intro!: empty_intros)
  next
    case (2 x)
    obtain sent cs' w' where x: "x = (sent, cs', w')" by (metis prod.exhaust)
    show ?case
    proof (cases "sent \<or> retry - 1 = 0")
      case False
      with "1.IH" [OF 2 x [symmetric] refl] x show ?thesis by simp
    qed (use x in auto)
  qed
qed

lemma session_cb_no_empty: "no_empty (session_cb S sid buf off n \<sigma>)"
  by (cases \<sigma>) (auto simp: session_cb_def split: option.splits intro!: empty_intros try_connections_no_empty)

lemma session_onRead_no_empty: "no_empty (session_onRead S sid \<sigma>)"
proof -
  have cb: "callback_ok (Some (session_cb S sid buf)) (\<lambda>_. True) (\<lambda>e. e \<noteq> EmptyQueue)" for buf
    using session_cb_no_empty [of S sid buf] by (auto simp: callback_ok_def run_cb_def no_empty_def split: sum.splits)
  have "no_empty (process_resp buf len (Some (session_cb S sid buf)) index s)" for buf len index s
    using process_resp_fault [OF cb, where e = EmptyQueue, OF TrueI] by (cases s) (auto simp: no_empty_def parser_fault_def)
  then show ?thesis
    by (cases \<sigma>) (auto simp: session_onRead_def Let_def split: option.splits prod.splits intro!: empty_intros)
qed

section \<open>Callbacks\<close>

theorem empty_queue_only_on_replies:
  assumes "handle S J ev \<sigma> = Inl EmptyQueue"
  obtains cid where "ev = ClientRead cid"
proof -
  obtain lt w where \<sigma>: "\<sigma> = (lt, w)" by (rule prod.exhaust)
  have "no_empty (handle S J ev \<sigma>)" if "\<nexists>cid. ev = ClientRead cid"
    using that unfolding \<sigma>
    by (cases ev) (auto simp: session_handleEvent_def on_client_def Let_def split: option.splits
        intro!: session_onRead_no_empty evfc_cb_no_empty empty_intros)
  with assms that show thesis by (auto simp: no_empty_def)
qed

end
