(* ===== verification/Pool_Props.thy ===== *)
theory Pool_Props
  imports Pool_System Empty_Queue Dispatch_Props
begin

text \<open>
  Properties of all loop threads of a pool, in every state the pool can reach: no callback follows a
  null pointer, bufferevents have one owner, threads do not disturb each other, sessions live as
  long as they are referenced, tasks are well typed, and what waits on a lost connection is stranded.
\<close>

section \<open>A pool with two clients\<close>

text \<open>Two threads were started; each of them has accepted one client.\<close>

definition demo_other :: loop_thread where
  "demo_other = demo_started
     \<lparr>sessions := [0 \<mapsto> (new_tcp_session 10 7)\<lparr>s_bev_sptr := Bev 3\<rparr>], next_addr := 1,
      fd_to_session_map := [(10, 0)]\<rparr>"

definition demo_world1 :: sim where
  "demo_world1 = snd (bufferevent_socket_new sim_sys 9 (sim_state [] []))"

definition demo_world2 :: sim where
  "demo_world2 = snd (bufferevent_socket_new sim_sys 10 demo_world1)"

lemma demo_started_init:
  "loop_thread_init sim_sys False 0 None (new_loop_thread True) w = Inr (Inr True, demo_started, w)"
  by (simp add: loop_thread_init_def demo_started_def sim_sys_def loop_init_def new_loop_def
      eventfd_server_init_def new_eventfd_server_def loop_start_def onBeforeStart_def Let_def)

lemma demo_accepts:
  "handle sim_sys demo_junk (Accepted 9) (demo_started, sim_state [] []) = Inr (demo_accepted, demo_world1)"
  "handle sim_sys demo_junk (Accepted 10) (demo_started, demo_world1) = Inr (demo_other, demo_world2)"
  by (simp_all add: listenEventCallback_def add_session_def session_init_def map_insert_def sim_sys_def
      demo_world1_def demo_world2_def demo_started_def demo_accepted_def demo_other_def demo_junk_def
      new_loop_thread_def new_tcp_session_def sim_state_def Let_def)

lemma demo_pool_reached:
  "pool_reaches sim_sys sim_view user ([], sim_state [] []) ([demo_accepted, demo_other], demo_world2)"
proof -
  let ?step = "pool_step sim_sys sim_view user"
  have 1: "?step ([], sim_state [] []) ([demo_started], sim_state [] [])"
    using pool_step.spawned [OF demo_started_init, where lts = "[]"] by simp
  have 2: "?step ([demo_started], sim_state [] []) ([demo_started, demo_started], sim_state [] [])"
    using pool_step.spawned [OF demo_started_init, where lts = "[demo_started]"] by simp
  have 3: "?step ([demo_started, demo_started], sim_state [] []) ([demo_accepted, demo_started], demo_world1)"
    using pool_step.in_thread [where i = 0 and lts = "[demo_started, demo_started]" and ev = "Accepted 9" and S = sim_sys
        and J = demo_junk and w = "sim_state [] []" and lt' = demo_accepted and w' = demo_world1] demo_accepts(1) by simp
  have 4: "?step ([demo_accepted, demo_started], demo_world1) ([demo_accepted, demo_other], demo_world2)"
    using pool_step.in_thread [where i = 1 and lts = "[demo_accepted, demo_started]" and ev = "Accepted 10" and S = sim_sys
        and J = demo_junk and w = demo_world1 and lt' = demo_other and w' = demo_world2] demo_accepts(2) by simp
  from 1 2 3 4 show ?thesis by (meson rtranclp.rtrancl_refl rtranclp.rtrancl_into_rtrancl)
qed

lemma demo_held: "held demo_accepted = {2}" "held demo_other = {3}"
proof -
  have "bev_of demo_accepted = [Inl 0 \<mapsto> 2]" "bev_of demo_other = [Inl 0 \<mapsto> 3]"
    by (auto simp: fun_eq_iff bev_of_def demo_accepted_def demo_other_def demo_started_def new_loop_thread_def
        new_tcp_session_def split: sum.splits)
  then show "held demo_accepted = {2}" "held demo_other = {3}" by (simp_all add: held_def)
qed

section \<open>Safety\<close>

text \<open>
  C9: in no state that a pool can reach, with any number of threads, callbacks in any order, tasks
  posted by anyone and changes of the network, does a callback that libevent can make follow a null
  or dangling pointer, as long as bufferevents can be created, with one exception: the read callback
  of a database connection takes the front of its reply queue without looking whether the queue is
  empty. The sessions, the tasks, the listener and the event callbacks never take it.
\<close>

theorem pool_callbacks_never_null:
  assumes "libevent_ok S V" and "creates_bufferevents S"
    and "pool_reaches S V user ([], w0) (lts, w)" and "i < length lts" and "enabled ev (lts ! i)"
  shows "handle S J ev (lts ! i, w) \<noteq> Inl NullDeref \<and>
    (handle S J ev (lts ! i, w) = Inl EmptyQueue \<longrightarrow> (\<exists>cid. ev = ClientRead cid))"
proof -
  from handle_safe [OF pool_well_formed [OF assms(1-4)] assms(1,2,5), of J w]
  have "handle S J ev (lts ! i, w) \<noteq> Inl NullDeref" by auto
  then show ?thesis by (auto elim: empty_queue_only_on_replies)
qed

lemma pool_callbacks_never_null_witness:
  "handle sim_sys demo_junk (SessionRead 0) ([demo_accepted, demo_other] ! 1, demo_world2) \<notin>
     {Inl NullDeref, Inl EmptyQueue}"
  using pool_callbacks_never_null [OF sim_ok sim_creates demo_pool_reached, where i = 1 and ev = "SessionRead 0" and J = demo_junk]
  by (simp add: demo_other_def new_tcp_session_def)

text \<open>
  C11: every bufferevent has one owner. In every state a pool can reach, the bufferevents that exist
  are those that existed before (\<open>w0\<close>), untouched, and those that the sessions and connections of
  the threads hold; no two objects, of the same or of different threads, hold the same one. So none
  is leaked, none is freed while it is used, and none is freed twice.
\<close>

theorem bufferevents_owned_once:
  assumes "libevent_ok S V" and "pool_reaches S V user ([], w0) (lts, w)"
  shows "live V w = live V w0 \<union> (\<Union>lt \<in> set lts. held lt) \<and> (\<forall>lt \<in> set lts. held lt \<inter> live V w0 = {}) \<and>
    (\<forall>i < length lts. \<forall>j < length lts. \<forall>x y b.
       bev_of (lts ! i) x = Some b \<longrightarrow> bev_of (lts ! j) y = Some b \<longrightarrow> i = j \<and> x = y)"
proof -
  note p = pool_owners [OF assms]
  have "i = j \<and> x = y"
    if "i < length lts" "j < length lts" "bev_of (lts ! i) x = Some b" "bev_of (lts ! j) y = Some b" for i j x y b
  proof -
    have "b \<in> held (lts ! i)" "b \<in> held (lts ! j)" using that by (auto simp: held_def ran_def)
    then have "i = j" using p that(1,2) by (auto simp: pool_owned_def)
    with p that show ?thesis by (auto simp: pool_owned_def owned_def exclusive_def)
  qed
  moreover have "\<forall>lt \<in> set lts. held lt \<inter> live V w0 = {}"
    using p by (fastforce simp: pool_owned_def in_set_conv_nth)
  ultimately show ?thesis using p by (simp add: pool_owned_def)
qed

lemma bufferevents_owned_once_witness:
  "live sim_view demo_world2 = {0, 1, 2, 3}"
proof -
  have "live sim_view (sim_state [] []) = {0, 1}" by (auto simp: sim_view_def sim_state_def)
  with bufferevents_owned_once [OF sim_ok demo_pool_reached] demo_held show ?thesis by auto
qed

text \<open>
  C12: threads do not disturb each other. Whatever a callback of one thread does, the bufferevents
  that the sessions and connections of another thread hold still exist afterwards, with the same
  unread input and the same output.
\<close>

theorem threads_isolated:
  assumes "libevent_ok S V" and "pool_reaches S V user ([], w0) (lts, w)"
    and "i < length lts" and "j < length lts" and "i \<noteq> j"
    and "enabled ev (lts ! i)" and "handle S J ev (lts ! i, w) = Inr (lt', w')" and "b \<in> held (lts ! j)"
  shows "b \<in> live V w' \<and> b \<notin> held lt' \<and> inq V w' b = inq V w b \<and> sent V w' b = sent V w b"
proof -
  note p = pool_owners [OF assms(1,2)]
  have b: "b \<in> live V w - held (lts ! i)" "owned V (lts ! i, w)"
    using p assms(3-5,8) by (auto simp: pool_owned_def owned_def)
  from owner.handle_related [OF assms(1,6,7)] assms(1) b(2)
  have "live V w' - held lt' = live V w - held (lts ! i)"
    "\<forall>h \<in> live V w - held (lts ! i). inq V w' h = inq V w h \<and> sent V w' h = sent V w h"
    by (simp_all add: owns_step_def)
  with b(1) show ?thesis by blast
qed

lemma threads_isolated_witness:
  "\<exists>lt' w'. handle sim_sys demo_junk (SessionEvent 0 0x11) (demo_accepted, demo_world2) = Inr (lt', w') \<and>
     3 \<in> live sim_view w' \<and> 3 \<notin> held lt' \<and> inq sim_view w' 3 = inq sim_view demo_world2 3"
proof -
  obtain lt' w' where run: "handle sim_sys demo_junk (SessionEvent 0 0x11) (demo_accepted, demo_world2) = Inr (lt', w')"
    using session_handleEvent_posts [OF demo_accepted_sel(1-4), of sim_sys "0x11" demo_world2] by auto
  with threads_isolated [OF sim_ok demo_pool_reached, of 0 1 "SessionEvent 0 0x11" demo_junk lt' w' 3]
  show ?thesis by (simp add: demo_held demo_accepted_sel new_tcp_session_def)
qed

text \<open>
  C13: a session exists exactly as long as it is needed. In every state a pool can reach, the session
  objects of a thread are those that its map of sessions refers to and those that wait in the reply
  queue of one of its connections; each descriptor has one session at most.
\<close>

theorem sessions_live_while_referenced:
  assumes "libevent_ok S V" and "creates_bufferevents S"
    and "pool_reaches S V user ([], w0) (lts, w)" and "i < length lts"
  shows "dom (sessions (lts ! i)) = snd ` set (fd_to_session_map (lts ! i)) \<union> queued_sessions (lts ! i) \<and>
    distinct (map fst (fd_to_session_map (lts ! i)))"
proof -
  have wf: "well_formed (lts ! i)" by (rule pool_well_formed [OF assms])
  have t: "tidy (lts ! i)" by (rule pool_tidy [OF assms(1,3,4)])
  have "queued_sessions (lts ! i) \<subseteq> dom (sessions (lts ! i))"
    using well_formedD(7) [OF wf] by (fastforce simp: in_queued_iff)
  with well_formed_map_dom [OF wf] t show ?thesis
    by (auto simp: tidy_def session_referenced_def image_iff)
qed

lemma sessions_live_while_referenced_witness:
  "dom (sessions demo_other) = snd ` set (fd_to_session_map demo_other) \<union> queued_sessions demo_other"
  using sessions_live_while_referenced [OF sim_ok sim_creates demo_pool_reached, of 1] by simp

section \<open>Types of the tasks\<close>

text \<open>
  C16: well-typed tasks stay well typed. If everything that is posted from outside has a body of the
  type its kind of task asks for, so has every task in the queue of every thread in every reachable
  state, those included that the threads post to themselves; no \<open>any_cast\<close> of a handler ever fails.
\<close>

theorem tasks_well_typed:
  assumes "libevent_ok S V" and "\<And>msg. user msg \<Longrightarrow> task_castable msg"
    and "pool_reaches S V user ([], w0) (lts, w)" and "i < length lts" and "msg \<in> set (task_queue (lts ! i))"
  shows "task_castable msg"
proof -
  have "list_all (\<lambda>lt. list_all task_castable (task_queue lt)) lts"
  proof (rule pool_invariant [OF assms(3)])
    show "list_all task_castable (task_queue lt)"
      if "loop_thread_init S False generator junk_event (new_loop_thread True) w = Inr (Inr True, lt, w')"
      for generator junk_event w lt w'
      using init_objects(5) [OF that] by simp
    show "list_all task_castable (task_queue lt')"
      if "list_all task_castable (task_queue lt)" "enabled ev lt" "handle S J ev (lt, w) = Inr (lt', w')" for lt ev J w lt' w'
      using typing.handle_related [OF assms(1) that(2,3)] that(1) by (simp add: typed_step_def)
  qed (use assms(2) in simp_all)
  with assms(4) have "list_all task_castable (task_queue (lts ! i))" by (simp add: list_all_length)
  with assms(5) show ?thesis by (simp add: list_all_iff)
qed

lemma demo_posts:
  assumes "user (del_session 9)"
  shows "\<exists>w. pool_reaches sim_sys sim_view user ([], sim_state [] [])
    ([demo_accepted\<lparr>task_queue := [del_session 9]\<rparr>, demo_other], w)"
proof -
  obtain ok w where "send2loop_thread sim_sys (del_session 9) demo_accepted demo_world2 =
      Inr (ok, demo_accepted\<lparr>task_queue := [del_session 9]\<rparr>, w)"
    using demo_accepted_sel(1,3-5) that by (simp add: send2loop_thread_def eventfd_client_send_def case_prod_beta Let_def)
  with assms have "pool_step sim_sys sim_view user ([demo_accepted, demo_other], demo_world2)
      ([demo_accepted\<lparr>task_queue := [del_session 9]\<rparr>, demo_other], w)"
    using pool_step.post_task [where i = 0 and lts = "[demo_accepted, demo_other]" and msg = "del_session 9"
        and user = user and S = sim_sys and V = sim_view] by simp
  with demo_pool_reached show ?thesis by (meson rtranclp.rtrancl_into_rtrancl)
qed

lemma tasks_well_typed_witness:
  "task_castable (del_session 9)"
proof -
  obtain w where r: "pool_reaches sim_sys sim_view (\<lambda>msg. msg = del_session 9) ([], sim_state [] [])
      ([demo_accepted\<lparr>task_queue := [del_session 9]\<rparr>, demo_other], w)" using demo_posts [of "\<lambda>msg. msg = del_session 9", OF refl] by (elim exE)
  have t: "task_castable msg" if "msg = del_session 9" for msg
    unfolding that by (simp add: task_castable_def del_session_def)
  show ?thesis
    by (rule tasks_well_typed [OF sim_ok t r, where i = 0]) simp_all
qed

section \<open>Lost connections\<close>

lemma stranded_for_ever:
  assumes S: "libevent_ok S V" and run: "pool_reaches S V user (lts, w) (lts', w')"
    and "i < length lts" and "stranded cid sid p (lts ! i)"
  shows "i < length lts' \<and> stranded cid sid p (lts' ! i)"
  using run assms(3,4)
proof (induction rule: rtranclp_induct2)
  case (step lts1 w1 lts2 w2)
  note st = step(3) [OF step(4,5)]
  from step(2) show ?case
  proof (cases rule: pool_stepE)
    case (in_thread k ev J lt')
    with st strand.handle_related [OF S in_thread(3,4), of cid sid p] show ?thesis by (cases "k = i") simp_all
  next
    case (post_task k msg ok lt')
    then have "lt' = (lts1 ! k)\<lparr>task_queue := task_queue (lts1 ! k) @ [msg]\<rparr>"
      by (auto simp: send2loop_thread_def Let_def split: if_splits option.splits)
    with st post_task show ?thesis by (cases "k = i") simp_all
  qed (use st in \<open>simp_all add: nth_append\<close>)
qed simp

text \<open>
  C35: what waits on a lost connection waits for ever. When a connection with a bufferevent gets an
  EOF, error or timeout event, its reply queue is not emptied: whatever happens afterwards, in this
  thread or another, each session in the queue stays there and keeps its bufferevent and so its
  socket, even after its client has left and it is gone from the map. It never gets a reply.
\<close>

theorem lost_connection_strands:
  assumes "libevent_ok S V" and "i < length lts" and "well_formed (lts ! i)"
    and "clients (lts ! i) cid = Some c" and "bev_sptr c = Bev b" and "sid \<in> set (session_queue c)"
    and "and events (or 0x10 (or 0x20 0x40)) \<noteq> 0"
    and "handle S J (ClientEvent cid events) (lts ! i, w) = Inr (lt', w')"
    and "pool_reaches S V user (lts[i := lt'], w') (lts2, w2)"
  shows "\<exists>s s2. sessions (lts ! i) sid = Some s \<and> sessions (lts2 ! i) sid = Some s2 \<and>
    s_bev_sptr s2 = s_bev_sptr s \<and> sid \<in> queued_sessions (lts2 ! i)"
proof -
  have wf: "well_formed (lts ! i)" by (rule assms(3))
  obtain s where s: "sessions (lts ! i) sid = Some s" using well_formedD(7) [OF wf assms(4,6)] by auto
  have "lt' = set_client cid (c\<lparr>isConnected := False, bev_sptr := NoBev\<rparr>) (lts ! i)"
    using assms(4,8) handleEvent_lost [OF assms(5,7), of S w] by (auto simp: on_client_def)
  moreover have "fresh_addr (lts ! i)"
    using wf by (auto simp: fresh_addr_def well_formed_def linorder_not_less [symmetric])
  ultimately have "stranded cid sid (s_bev_sptr s) lt'"
    using assms(4,6) s well_formedD(6) [OF wf assms(4)] by (auto simp: stranded_def fresh_addr_def)
  with stranded_for_ever [OF assms(1,9), of i cid sid "s_bev_sptr s"] assms(2)
  have "stranded cid sid (s_bev_sptr s) (lts2 ! i)" by simp
  with s show ?thesis by (auto simp: stranded_def in_queued_iff)
qed

definition demo_waiting :: loop_thread where
  "demo_waiting = (demo_thread [0])\<lparr>loop_sptr := loop_sptr demo_started\<rparr>"

lemma demo_waiting_well_formed: "well_formed demo_waiting"
  by (simp add: well_formed_def demo_waiting_def demo_thread_def new_loop_thread_def demo_started_def allocated_def
      demo_client_def demo_session_def)

lemma lost_connection_strands_witness:
  "\<exists>lt' w'. handle sim_sys demo_junk (ClientEvent 1 0x11) (demo_waiting, sim_state [] []) = Inr (lt', w') \<and>
     0 \<in> queued_sessions lt'"
proof -
  have c: "clients demo_waiting 1 = Some (demo_client [0])" "bev_sptr (demo_client [0]) = Bev 1"
    by (simp_all add: demo_waiting_def)
  obtain lt' w' where run: "handle sim_sys demo_junk (ClientEvent 1 0x11) (demo_waiting, sim_state [] []) = Inr (lt', w')"
    using c handleEvent_lost [OF c(2), of "0x11" sim_sys "sim_state [] []"] by (simp add: on_client_def)
  have "0 \<in> queued_sessions ([lt'] ! 0)"
    using lost_connection_strands [OF sim_ok, of 0 "[demo_waiting]" 1 "demo_client [0]" 1 0 "0x11" demo_junk
        "sim_state [] []" lt' w' "\<lambda>_. True" "[lt']" w'] c run demo_waiting_well_formed by auto
  with run show ?thesis by auto
qed

end
