(* ===== verification/Pool_Multiplex.thy ===== *)
theory Pool_Multiplex
  imports Pool_Props Streams
begin

text \<open>
  The multiplexer in a pool: what \<open>Multiplex\<close> assumes of a loop thread, that its sessions and its
  connection do not share bufferevents, holds in every state a pool can reach.
\<close>

section \<open>From owners to the multiplexer\<close>

lemma exclusive_own_bufferevents:
  assumes "exclusive lt" and "sole_connection lt cid c bc"
  shows "own_bufferevents lt bc"
proof -
  have c: "bev_of lt (Inr cid) = Some bc" using assms(2) by (simp add: sole_connection_def)
  have s: "bev_of lt (Inl sid) = Some h" if "session_handle (sessions lt) sid = Some h" for sid h
    using that by (auto simp: session_handle_def split: option.splits if_splits)
  have ex: "x = y" if "bev_of lt x = Some b" "bev_of lt y = Some b" for x y b
    using assms(1) that unfolding exclusive_def by blast
  show ?thesis
    unfolding own_bufferevents_def
  proof (intro allI impI conjI)
    fix sid sid' h
    assume h: "session_handle (sessions lt) sid = Some h"
    show "h \<noteq> bc"
    proof
      assume "h = bc"
      then have "bev_of lt (Inr cid) = Some h" by (simp only: c)
      from ex [OF s [OF h] this] show False by simp
    qed
    show "sid' = sid" if "session_handle (sessions lt) sid' = Some h"
      using ex [OF s [OF h] s [OF that]] by simp
  qed
qed

lemma pool_own_bufferevents:
  assumes "libevent_ok S V" and "pool_reaches S V user ([], w0) (lts, w)" and "i < length lts"
    and "sole_connection (lts ! i) cid c bc"
  shows "own_bufferevents (lts ! i) bc"
  using pool_owners [OF assms(1,2)] assms(3)
  by (intro exclusive_own_bufferevents [OF _ assms(4)]) (auto simp: pool_owned_def owned_def)

section \<open>A pool with a connection\<close>

text \<open>
  A client connects; a connection is added by a task, over a Unix socket, and is reported as
  connected.
\<close>

definition demo_unix :: CONN_INFO where
  "demo_unix = (new_CONN_INFO 0 0)\<lparr>ci_type := UNIX_SOCKET, ci_path := ''s''\<rparr>"

definition demo_add :: TASK_MSG where
  "demo_add = \<lparr> msg_type = ADD_CONN, msg_body = AnyConnInfo demo_unix \<rparr>"

definition demo_backend :: redis_client where
  "demo_backend = (new_redis_client demo_unix)\<lparr>bev_sptr := Bev 3, cl_dscp := 0\<rparr>"

definition demo_connected :: loop_thread where
  "demo_connected = add_connection 1 (demo_backend\<lparr>isConnected := True\<rparr>) demo_accepted"

lemma demo_add_conn:
  "\<exists>w'. client_connect sim_sys (new_redis_client i) demo_unix demo_world1 = Inr (True, demo_backend, w')"
  by (simp add: client_connect_def demo_unix_def new_CONN_INFO_def get_conn_type_def sim_sys_def sockaddr_un_def
    store_bytes_def strncpy_bytes_def c_str_def get_path_def connect_fd_def set_source_addr_def set_sockopt_tos_def
    get_dscp_def set_conn_info_def get_source_ip_def new_redis_client_def demo_backend_def demo_world1_def
    sim_state_def Let_def)

lemma demo_pool_connected:
  "\<exists>w. pool_reaches sim_sys sim_view (\<lambda>_. True) ([], sim_state [] []) ([demo_connected], w)"
proof -
  let ?step = "pool_step sim_sys sim_view (\<lambda>_. True)" and ?queued = "demo_accepted\<lparr>task_queue := [demo_add]\<rparr>"
  let ?attached = "add_connection 1 demo_backend demo_accepted"
  have 1: "?step ([], sim_state [] []) ([demo_started], sim_state [] [])"
    using pool_step.spawned [OF demo_started_init, where lts = "[]"] by simp
  have 2: "?step ([demo_started], sim_state [] []) ([demo_accepted], demo_world1)"
    using pool_step.in_thread [where i = 0 and lts = "[demo_started]" and ev = "Accepted 9" and S = sim_sys
        and J = demo_junk and w = "sim_state [] []" and lt' = demo_accepted and w' = demo_world1] demo_accepts(1) by simp
  define w3 where "w3 = snd (eventfd_write sim_sys 5 1 demo_world1)"
  have "send2loop_thread sim_sys demo_add demo_accepted demo_world1 = Inr (True, ?queued, w3)"
    using demo_accepted_sel(3-5)
    by (simp add: send2loop_thread_def eventfd_client_send_def w3_def sim_sys_def demo_world1_def sim_state_def Let_def)
  then have 3: "?step ([demo_accepted], demo_world1) ([?queued], w3)"
    using pool_step.post_task [where i = 0 and lts = "[demo_accepted]" and msg = demo_add and S = sim_sys] by simp
  have read: "eventfd_read sim_sys 5 w3 = ((8, 1), demo_world1)"
    by (simp add: w3_def sim_sys_def demo_world1_def sim_state_def fun_eq_iff)
  obtain w4 where con: "client_connect sim_sys (new_redis_client (junk_info demo_junk)) demo_unix demo_world1 = Inr (True, demo_backend, w4)"
    using demo_add_conn by blast
  have ct: "ci_type demo_unix = UNIX_SOCKET" by (simp add: demo_unix_def new_CONN_INFO_def)
  have addr: "next_addr demo_accepted = 1" by (simp add: demo_accepted_def)
  have b0: "demo_backend\<lparr>cl_dscp := 0\<rparr> = demo_backend" by (simp add: demo_backend_def)
  have q: "?queued\<lparr>task_queue := []\<rparr> = demo_accepted" using demo_accepted_sel(5) by (cases demo_accepted) simp
  have "process_task sim_sys demo_junk demo_add (demo_accepted, demo_world1) = Inr (?attached, w4)"
    using con ct addr b0 by (simp add: process_task_def demo_add_def client_init_def any_cast_conn_info_def Let_def)
  then have "handle sim_sys demo_junk (Woken 5) (?queued, w3) = Inr (?attached, w4)"
    using read q by (simp add: evfc_cb_def process_msg_def take_tasks_def)
  then have 4: "?step ([?queued], w3) ([?attached], w4)"
    using pool_step.in_thread [where i = 0 and lts = "[?queued]" and ev = "Woken 5" and S = sim_sys
        and J = demo_junk and w = w3 and lt' = ?attached and w' = w4] by simp
  have c: "clients ?attached 1 = Some demo_backend" by (simp add: add_connection_def)
  have "client_handleEvent sim_sys demo_backend 0x80 w4 = Inr (demo_backend\<lparr>isConnected := True\<rparr>, w4)"
    by (simp add: client_handleEvent_def sim_sys_def)
  moreover have "?attached\<lparr>clients := (clients ?attached)(1 \<mapsto> demo_backend\<lparr>isConnected := True\<rparr>)\<rparr> = demo_connected"
    by (simp add: add_connection_def demo_connected_def)
  ultimately have "handle sim_sys demo_junk (ClientEvent 1 0x80) (?attached, w4) = Inr (demo_connected, w4)"
    using c by (simp add: on_client_def)
  then have 5: "?step ([?attached], w4) ([demo_connected], w4)"
    using pool_step.in_thread [where i = 0 and lts = "[?attached]" and ev = "ClientEvent 1 0x80" and S = sim_sys
        and J = demo_junk and w = w4 and lt' = demo_connected and w' = w4] c by (simp add: demo_backend_def)
  from 1 2 3 4 5 show ?thesis by (meson rtranclp.rtrancl_refl rtranclp.rtrancl_into_rtrancl)
qed

section \<open>The property\<close>

text \<open>
  The multiplexer inside a pool. In any state a pool of any number of threads can reach, take a
  thread whose only connection is open and has nobody waiting. From there on, whatever its sessions
  send and the database answers, in pieces cut anywhere: the connection has been sent all requests
  in the order of the reads, the unanswered sessions are queued in that order, and every client has
  been sent exactly the replies at the positions of its own requests. (That sessions and connection
  have bufferevents of their own is no assumption here: it follows from how the pool got there.)
\<close>

theorem reachable_proxy_multiplexes:
  assumes "libevent_ok S V" and "no_failure S V" and "pool_reaches S V user ([], w00) (lts, w0)" and "i < length lts"
    and "single_connection (lts ! i) cid c0 bc"
    and "mux_run S V cid bc (lts ! i, w0) lt w requests replies"
  shows "\<exists>c. clients lt cid = Some c \<and> session_queue c = still_waiting requests replies \<and>
    sent V w bc = sent V w0 bc @ concat (map snd requests) \<and>
    (\<forall>sid b. session_handle (sessions (lts ! i)) sid = Some b \<longrightarrow>
      sent V w b = sent V w0 b @ replies_for sid requests replies)"
proof -
  have "own_bufferevents (lts ! i) bc"
    by (rule pool_own_bufferevents [OF assms(1,3,4), where cid = cid and c = c0]) (use assms(5) in \<open>simp add: single_connection_def\<close>)
  from mux_run_effect [OF assms(1,2,5) this assms(6)] show ?thesis .
qed

lemma reachable_proxy_multiplexes_witness:
  "\<exists>(lt' :: loop_thread) w w' c. clients lt' 1 = Some c \<and> session_queue c = still_waiting [(0, tokens_bytes ping)] [] \<and>
     sent sim_view w' 3 = sent sim_view w 3 @ concat (map snd [(0 :: nat, tokens_bytes ping)])"
proof -
  obtain w where r: "pool_reaches sim_sys sim_view (\<lambda>_. True) ([], sim_state [] []) ([demo_connected], w)"
    using demo_pool_connected by blast
  have t: "tls_set demo_connected" "connection_sptr_vector demo_connected = [Some 1]"
    "clients demo_connected 1 = Some (demo_backend\<lparr>isConnected := True\<rparr>)"
    "sessions demo_connected = sessions demo_accepted" "fd_to_session_map demo_connected = fd_to_session_map demo_accepted"
    using demo_accepted_sel(1,8) by (simp_all add: demo_connected_def add_connection_def)
  have single: "single_connection ([demo_connected] ! 0) 1 (demo_backend\<lparr>isConnected := True\<rparr>) 3"
    using t by (simp add: single_connection_def sole_connection_def demo_backend_def new_redis_client_def)
  have own: "own_bufferevents ([demo_connected] ! 0) 3"
    by (rule pool_own_bufferevents [OF sim_ok r, where cid = 1 and c = "demo_backend\<lparr>isConnected := True\<rparr>"])
      (use single in \<open>simp_all add: single_connection_def\<close>)
  have open0: "open_session ([demo_connected] ! 0) 0 ((new_tcp_session 9 7)\<lparr>s_bev_sptr := Bev 2\<rparr>) 2"
    using t(4,5) demo_accepted_sel(2,6) by (simp add: open_session_def new_tcp_session_def)
  have run0: "mux_run sim_sys sim_view 1 3 ([demo_connected] ! 0, w) ([demo_connected] ! 0) w [] []"
    by (rule mux_run.mux_start) (rule refl)
  obtain lt' w' where "mux_run sim_sys sim_view 1 3 ([demo_connected] ! 0, w) lt' w' ([] @ map (Pair 0) (frames ping)) []"
    by (rule mux_read [OF sim_ok sim_no_failure single own run0 open0 with_input_net demo_plain(1) demo_lengths(1)])
  then have run: "mux_run sim_sys sim_view 1 3 ([demo_connected] ! 0, w) lt' w' [(0, tokens_bytes ping)] []"
    unfolding frames_ping by simp
  have len: "0 < length [demo_connected]" by simp
  show ?thesis
    using reachable_proxy_multiplexes [OF sim_ok sim_no_failure r len single run] by blast
qed

end
