(* ===== verification/Connections.thy ===== *)
theory Connections
  imports Pool_Multiplex
begin

text \<open>
  The proxy with any number of connections: each session hands its requests round robin to the
  connections that are open, each connection answers its own requests in order. The abstract
  machine is an array of first-in first-out queues, one for each connection; its trace alone says what is
  queued where, and what each connection and each client has been sent.
\<close>

section \<open>Specification\<close>

text \<open>A request of a session that goes to a connection, and a reply that comes from one.\<close>

datatype traffic = Request nat nat bytes | Reply nat bytes

fun queues_after :: "(nat \<Rightarrow> nat list) \<Rightarrow> traffic list \<Rightarrow> nat \<Rightarrow> nat list" where
  "queues_after q [] = q"
| "queues_after q (Request cid sid m # h) = queues_after (q(cid := q cid @ [sid])) h"
| "queues_after q (Reply cid m # h) = queues_after (q(cid := tl (q cid))) h"

text \<open>Who gets which reply, in the order of the replies.\<close>

fun deliveries :: "(nat \<Rightarrow> nat list) \<Rightarrow> traffic list \<Rightarrow> (nat \<times> bytes) list" where
  "deliveries q [] = []"
| "deliveries q (Request cid sid m # h) = deliveries (q(cid := q cid @ [sid])) h"
| "deliveries q (Reply cid m # h) =
     (case q cid of [] \<Rightarrow> deliveries q h | sid # rest \<Rightarrow> (sid, m) # deliveries (q(cid := rest)) h)"

fun requested :: "nat \<Rightarrow> traffic list \<Rightarrow> bytes" where
  "requested cid [] = []"
| "requested cid (Request cid' sid m # h) = (if cid' = cid then m @ requested cid h else requested cid h)"
| "requested cid (Reply cid' m # h) = requested cid h"

definition received :: "nat \<Rightarrow> (nat \<times> bytes) list \<Rightarrow> bytes" where
  "received sid ds = concat (map snd (filter (\<lambda>(sid', m). sid' = sid) ds))"

lemma queues_after_append [simp]: "queues_after q (h @ h') = queues_after (queues_after q h) h'"
  by (induction q h rule: queues_after.induct) (simp_all del: fun_upd_apply)

lemma deliveries_append [simp]: "deliveries q (h @ h') = deliveries q h @ deliveries (queues_after q h) h'"
  by (induction q h rule: deliveries.induct) (simp_all add: fun_upd_idem split: list.split del: fun_upd_apply)

lemma requested_append [simp]: "requested cid (h @ h') = requested cid h @ requested cid h'"
  by (induction cid h rule: requested.induct) simp_all

lemma received_append [simp]: "received sid (ds @ ds') = received sid ds @ received sid ds'"
  by (simp add: received_def)

lemma received_Nil [simp]: "received sid [] = []"
  by (simp add: received_def)

text \<open>The messages of one read: requests of a session for the given connections, replies of one.\<close>

abbreviation requests_of :: "nat \<Rightarrow> nat list \<Rightarrow> bytes list \<Rightarrow> traffic list" where
  "requests_of sid \<equiv> map2 (\<lambda>cid. Request cid sid)"

lemma requests_of_queues:
  "length cids \<le> length ms \<Longrightarrow>
   queues_after q (requests_of sid cids ms) cid = q cid @ replicate (length (filter (\<lambda>c. c = cid) cids)) sid"
proof (induction cids arbitrary: q ms)
  case (Cons c cids)
  then obtain m ms' where "ms = m # ms'" by (cases ms) auto
  with Cons show ?case by simp
qed simp

lemma requests_of_deliveries [simp]: "deliveries q (requests_of sid cids ms) = []"
proof (induction cids arbitrary: q ms)
  case (Cons c cids)
  then show ?case by (cases ms) simp_all
qed simp

lemma replies_queues [simp]: "queues_after q (map (Reply cid) ms) = q(cid := drop (length ms) (q cid))"
  by (induction ms arbitrary: q) (simp_all add: drop_Suc)

lemma replies_deliveries:
  "length ms \<le> length (q cid) \<Longrightarrow> deliveries q (map (Reply cid) ms) = zip (q cid) ms"
proof (induction ms arbitrary: q)
  case (Cons m ms)
  then show ?case by (cases "q cid") simp_all
qed simp

lemma replies_requested [simp]: "requested cid (map (Reply cid') ms) = []"
  by (induction ms) simp_all

text \<open>
  The machine with one connection is the multiplexer of \<open>Multiplex\<close>: what one connection gets from a
  trace is what it would get from its own part of it.
\<close>

fun about :: "nat \<Rightarrow> traffic \<Rightarrow> bool" where
  "about cid (Request cid' sid m) \<longleftrightarrow> cid' = cid"
| "about cid (Reply cid' m) \<longleftrightarrow> cid' = cid"

lemma queues_local: "q cid = q' cid \<Longrightarrow> queues_after q h cid = queues_after q' h cid"
proof (induction h arbitrary: q q')
  case (Cons e h)
  show ?case using Cons.prems by (cases e) (auto intro!: Cons.IH simp del: fun_upd_apply simp: fun_upd_def)
qed simp

lemma queues_about: "queues_after q h cid = queues_after q (filter (about cid) h) cid"
proof (induction h arbitrary: q)
  case (Cons e h)
  show ?case
  proof (cases e)
    case (Request cid' sid m)
    have "queues_after (q(cid' := q cid' @ [sid])) (filter (about cid) h) cid = queues_after q (filter (about cid) h) cid"
      if "cid' \<noteq> cid" by (rule queues_local) (use that in simp)
    with Request Cons.IH show ?thesis by (simp del: fun_upd_apply)
  next
    case (Reply cid' m)
    have "queues_after (q(cid' := tl (q cid'))) (filter (about cid) h) cid = queues_after q (filter (about cid) h) cid"
      if "cid' \<noteq> cid" by (rule queues_local) (use that in simp)
    with Reply Cons.IH show ?thesis by (simp del: fun_upd_apply)
  qed
qed simp

section \<open>Runs\<close>

text \<open>
  A thread that can be in use: its session and connection objects have bufferevents of their own,
  and whoever waits in a reply queue is in the map of sessions.
\<close>

definition conn_queues :: "loop_thread \<Rightarrow> nat \<Rightarrow> nat list" where
  "conn_queues lt cid = (case clients lt cid of None \<Rightarrow> [] | Some c \<Rightarrow> session_queue c)"

definition in_use :: "loop_thread \<Rightarrow> bool" where
  "in_use lt \<longleftrightarrow> tls_set lt \<and> exclusive lt \<and> allocated (clients lt) (connection_sptr_vector lt) \<and>
     length (connection_sptr_vector lt) + 1 < 2 ^ 16 \<and>
     (\<forall>cid c. clients lt cid = Some c \<longrightarrow> waiting_sessions lt (session_queue c))"

text \<open>The connections that the next \<open>n\<close> requests of a session go to.\<close>

definition chosen :: "loop_thread \<Rightarrow> tcp_session \<Rightarrow> nat \<Rightarrow> nat list" where
  "chosen lt s n = map (\<lambda>i. the (connection_sptr_vector lt ! i))
     (choices (connection_sptr_vector lt) (clients lt) (unat (sIdGenerater s)) n)"

text \<open>
  Runs of the read callbacks of all sessions and connections. Before each of them the network has
  delivered what it likes and taken nothing back that was written. Of each read, what the parser
  takes joins the trace; the turn counter of a session must not wrap around in a read, and a connection must not
  send more replies than there are requests.
\<close>

inductive proxy_run :: "'w sys \<Rightarrow> 'w view \<Rightarrow> loop_thread \<times> 'w \<Rightarrow> loop_thread \<Rightarrow> 'w \<Rightarrow> traffic list \<Rightarrow> bool"
  for S V start where
  proxy_start: "start = (lt, w) \<Longrightarrow> proxy_run S V start lt w []"
| proxy_request: "proxy_run S V start lt w h \<Longrightarrow> sent V w1 = sent V w \<Longrightarrow>
     open_session lt sid s b \<Longrightarrow> inq V w1 b = tokens_bytes ts @ p \<Longrightarrow> list_all plain ts \<Longrightarrow> cut_ok S p \<Longrightarrow>
     length (inq V w1 b) < 2 ^ 32 \<Longrightarrow>
     unat (sIdGenerater s) + length (taken_msgs ts p) * length (connection_sptr_vector lt) < 2 ^ 32 \<Longrightarrow>
     session_onRead S sid (lt, w1) = Inr (lt', w') \<Longrightarrow>
     proxy_run S V start lt' w'
       (h @ requests_of sid (chosen lt s (length (taken_msgs ts p))) (taken_msgs ts p))"
| proxy_reply: "proxy_run S V start lt w h \<Longrightarrow> sent V w1 = sent V w \<Longrightarrow>
     clients lt cid = Some c \<Longrightarrow> bev_sptr c = Bev bc \<Longrightarrow>
     inq V w1 bc = tokens_bytes ts @ p \<Longrightarrow> list_all plain ts \<Longrightarrow> cut_ok S p \<Longrightarrow>
     length (inq V w1 bc) < 2 ^ 32 \<Longrightarrow> length (taken_msgs ts p) \<le> length (session_queue c) \<Longrightarrow>
     redis_onRead S cid (lt, w1) = Inr (lt', w') \<Longrightarrow>
     proxy_run S V start lt' w' (h @ map (Reply cid) (taken_msgs ts p))"

section \<open>One read of a session\<close>

lemma choices_none:
  assumes "\<And>p. p \<in> set vec \<Longrightarrow> open_handle cs p = None"
  shows "choices vec cs g j = []"
proof (cases j)
  case (Suc k)
  have "first_open vec cs g = None" if "vec \<noteq> []"
    unfolding first_open_def find_None_iff using assms that by simp
  moreover have "first_open [] cs g = None" by (simp add: first_open_def)
  ultimately show ?thesis using Suc by (cases "vec = []") simp_all
qed simp

text \<open>Requests go to the chosen connections, whether there are such or not.\<close>

lemma session_reads_any:
  assumes S: "libevent_ok S V" "no_failure S V" and u: "in_use lt" and o: "open_session lt sid s b"
    and input: "inq V w b = tokens_bytes ts @ p" "list_all plain ts" "length (inq V w b) < 2 ^ 32" "cut_ok S p"
    and g: "unat (sIdGenerater s) + length (taken_msgs ts p) * length (connection_sptr_vector lt) < 2 ^ 32"
    and places: "places = choices (connection_sptr_vector lt) (clients lt) (unat (sIdGenerater s)) (length (taken_msgs ts p))"
  obtains gen w' where "session_onRead S sid (lt, w) =
      Inr (with_gen lt sid s gen (push_many (\<lambda>cid. queued_on (connection_sptr_vector lt) cid places) sid (clients lt)), w')"
    "inq V w' = (inq V w)(b := drop (length (concat (taken_msgs ts p))) (inq V w b))"
    "\<And>h. sent V w' h = sent V w h @ sent_to (connection_sptr_vector lt) (clients lt) h (zip places (taken_msgs ts p))"
proof -
  note result = that
  let ?vec = "connection_sptr_vector lt" and ?ms = "taken_msgs ts p"
  have ses: "sessions lt sid = Some s" "s_bev_sptr s = Bev b" using o by (simp_all add: open_session_def)
  have d: "can_dispatch lt sid s" if "?vec \<noteq> []" using that u ses by (simp add: can_dispatch_def in_use_def)
  show thesis
  proof (cases "\<exists>q \<in> set ?vec. open_handle (clients lt) q \<noteq> None")
    case True
    then obtain q where q: "q \<in> set ?vec" "open_handle (clients lt) q \<noteq> None" by blast
    then have "?vec \<noteq> []" by auto
    then show thesis
      by (rule session_reads_requests [OF S d ses(2) input q g]) (rule result, simp_all add: places)
  next
    case False
    then have none: "open_handle (clients lt) q = None" if "q \<in> set ?vec" for q using that by blast
    have e: "places = []" unfolding places by (rule choices_none) (rule none)
    have cs: "push_many (\<lambda>cid. queued_on ?vec cid places) sid (clients lt) = clients lt"
      by (simp add: e queued_on_def push_many_0)
    have run: "\<exists>gen. deliver_all (dispatch S sid) ?ms (lt, w1) = Inr (with_gen lt sid s gen (clients lt), w1)" for w1
    proof (cases "?vec = []")
      case True
      then have id: "dispatch S sid m (lt, w1) = Inr (lt, w1)" for m by (simp add: dispatch_def session_cb_def)
      have "deliver_all (dispatch S sid) ms (lt, w1) = Inr (lt, w1)" for ms by (induction ms) (simp_all add: id)
      moreover have "with_gen lt sid s (sIdGenerater s) (clients lt) = lt" using ses by (simp add: with_gen_def fun_upd_idem)
      ultimately show ?thesis by metis
    next
      case False
      from deliver_dropped [OF d [OF this] none] show ?thesis .
    qed
    have "\<exists>gen w2. deliver_all (dispatch S sid) ?ms (lt, w1) = Inr (with_gen lt sid s gen (clients lt), w2) \<and>
        inq V w2 = inq V w1 \<and> live V w2 = live V w1 \<and> (\<forall>h. sent V w2 h = sent V w1 h @ [])" for w1
      using run [of w1] by auto
    then obtain gen w' where r: "session_onRead S sid (lt, w) = Inr (with_gen lt sid s gen (clients lt), w')"
      "inq V w' = (inq V w)(b := drop (length (concat ?ms)) (inq V w b))" "\<And>h. sent V w' h = sent V w h @ []"
      by (rule session_reads [OF S ses input]) (rule that)
    show thesis
      by (rule result [of gen w', unfolded cs, OF r(1,2)]) (use r(3) in \<open>simp add: e sent_to_def\<close>)
  qed
qed

section \<open>Simulation\<close>

text \<open>The state of the thread and what has been written, in terms of the trace.\<close>

definition proxy_rel :: "'w view \<Rightarrow> loop_thread \<times> 'w \<Rightarrow> loop_thread \<Rightarrow> 'w \<Rightarrow> traffic list \<Rightarrow> bool" where
  "proxy_rel V start lt w h \<longleftrightarrow> (case start of (lt0, w0) \<Rightarrow>
     in_use lt \<and> same_sessions lt0 lt \<and> connection_sptr_vector lt = connection_sptr_vector lt0 \<and>
     clients lt = (\<lambda>cid. map_option (\<lambda>c. c\<lparr>session_queue := queues_after (conn_queues lt0) h cid\<rparr>) (clients lt0 cid)) \<and>
     (\<forall>cid b. bev_of lt (Inr cid) = Some b \<longrightarrow> sent V w b = sent V w0 b @ requested cid h) \<and>
     (\<forall>sid b. session_handle (sessions lt) sid = Some b \<longrightarrow>
       sent V w b = sent V w0 b @ received sid (deliveries (conn_queues lt0) h)))"

lemma session_handle_bev: "session_handle (sessions lt) sid = Some b \<Longrightarrow> bev_of lt (Inl sid) = Some b"
  by (auto simp: session_handle_def bev_of_def split: option.splits if_splits)

lemma exclusiveD: "exclusive lt \<Longrightarrow> bev_of lt x = Some b \<Longrightarrow> bev_of lt y = Some b \<Longrightarrow> x = y"
  unfolding exclusive_def by blast

lemma open_handle_bev: "open_handle (clients lt) (Some cid) = Some b \<Longrightarrow> bev_of lt (Inr cid) = Some b"
  by (auto simp: open_handle_def bev_of_def split: option.splits if_splits)

text \<open>What the chosen positions mean for one connection, and for handles of sessions.\<close>

lemma sent_to_requested:
  assumes ex: "exclusive lt" and cid: "bev_of lt (Inr cid) = Some b"
    and op: "\<And>i. i \<in> set places \<Longrightarrow> open_handle (clients lt) (vec ! i) \<noteq> None"
  shows "sent_to vec (clients lt) b (zip places ms) = requested cid (requests_of sid (map (\<lambda>i. the (vec ! i)) places) ms)"
  using op
proof (induction places arbitrary: ms)
  case Nil
  then show ?case by (simp add: sent_to_def)
next
  case (Cons i places)
  show ?case
  proof (cases ms)
    case Nil
    then show ?thesis by (simp add: sent_to_def)
  next
    case ms: (Cons m ms')
    obtain b' where b': "open_handle (clients lt) (vec ! i) = Some b'" using Cons.prems [of i] by auto
    obtain c where c: "vec ! i = Some c" using b' by (rule open_handle_SomeE)
    have "b' = b \<longleftrightarrow> c = cid"
      using exclusiveD [OF ex, of "Inr c" b "Inr cid"] open_handle_bev [of lt c b'] cid b' c by auto
    with Cons.IH [of ms'] Cons.prems b' c ms show ?thesis by (auto simp: sent_to_def)
  qed
qed

lemma sent_to_session:
  assumes ex: "exclusive lt" and s: "bev_of lt (Inl sid) = Some b"
  shows "sent_to vec (clients lt) b ps = []"
proof -
  have "open_handle (clients lt) p \<noteq> Some b" for p
  proof
    assume h: "open_handle (clients lt) p = Some b"
    then obtain c where "p = Some c" by (rule open_handle_SomeE)
    with h open_handle_bev exclusiveD [OF ex s, of "Inr c"] show False by auto
  qed
  then have "filter (\<lambda>(i, m). open_handle (clients lt) (vec ! i) = Some b) ps = []" by (auto simp: filter_empty_conv)
  then show ?thesis by (simp add: sent_to_def)
qed

lemma queued_on_chosen:
  assumes "\<And>i. i \<in> set places \<Longrightarrow> vec ! i \<noteq> None"
  shows "queued_on vec cid places = length (filter (\<lambda>c. c = cid) (map (\<lambda>i. the (vec ! i)) places))"
  using assms by (induction places) (auto simp: queued_on_def)

lemma choices_are_open:
  "i \<in> set (choices vec cs g j) \<Longrightarrow> open_handle cs (vec ! i) \<noteq> None"
  and length_choices: "length (choices vec cs g j) \<le> j"
proof -
  show "i \<in> set (choices vec cs g j) \<Longrightarrow> open_handle cs (vec ! i) \<noteq> None"
  proof (induction j arbitrary: g)
    case (Suc j)
    then show ?case
      by (cases "first_open vec cs g") (use first_open_Some(2) [of vec cs g] in auto)
  qed simp
  show "length (choices vec cs g j) \<le> j"
    by (induction j arbitrary: g) (auto split: option.split)
qed

text \<open>Changes of counters and queues leave the owners of bufferevents alone.\<close>

lemma in_use_update:
  assumes "in_use lt" and "tls_set lt' = tls_set lt" and "connection_sptr_vector lt' = connection_sptr_vector lt"
    and "fd_to_session_map lt' = fd_to_session_map lt" and b: "bev_of lt' = bev_of lt"
    and s: "\<And>i. sessions lt' i = None \<longleftrightarrow> sessions lt i = None" and c: "\<And>i. clients lt' i = None \<longleftrightarrow> clients lt i = None"
    and q: "\<And>cid c. clients lt' cid = Some c \<Longrightarrow> waiting_sessions lt (session_queue c)"
  shows "in_use lt'"
proof -
  have "waiting_sessions lt' (session_queue c)" if "clients lt' cid = Some c" for cid c
    using q [OF that] waiting_sessions_cong [OF s assms(4)] by simp
  then show ?thesis using assms(1-3) b c by (simp add: in_use_def exclusive_def allocated_def)
qed

lemma proxy_request_step:
  assumes S: "libevent_ok S V" "no_failure S V" and R: "proxy_rel V start lt w h"
    and w1: "sent V w1 = sent V w" and o: "open_session lt sid s b"
    and input: "inq V w1 b = tokens_bytes ts @ p" "list_all plain ts" "length (inq V w1 b) < 2 ^ 32" "cut_ok S p"
    and g: "unat (sIdGenerater s) + length (taken_msgs ts p) * length (connection_sptr_vector lt) < 2 ^ 32"
  shows "\<exists>lt' w'. session_onRead S sid (lt, w1) = Inr (lt', w') \<and>
    inq V w' = (inq V w1)(b := drop (length (concat (taken_msgs ts p))) (inq V w1 b)) \<and>
    proxy_rel V start lt' w' (h @ requests_of sid (chosen lt s (length (taken_msgs ts p))) (taken_msgs ts p))"
proof -
  obtain lt0 w0 where start: "start = (lt0, w0)" by (rule prod.exhaust)
  note R' = R [unfolded proxy_rel_def start split]
  let ?ms = "taken_msgs ts p" and ?vec = "connection_sptr_vector lt" and ?q0 = "conn_queues lt0"
  define places where "places = choices ?vec (clients lt) (unat (sIdGenerater s)) (length ?ms)"
  define cids where "cids = map (\<lambda>i. the (?vec ! i)) places"
  have cids: "chosen lt s (length ?ms) = cids" by (simp add: chosen_def cids_def places_def)
  have op: "open_handle (clients lt) (?vec ! i) \<noteq> None" if "i \<in> set places" for i
    using that choices_are_open unfolding places_def by blast
  have some: "?vec ! i \<noteq> None" if "i \<in> set places" for i using op [OF that] by (auto simp: open_handle_def split: option.splits)
  have len: "length cids \<le> length ?ms" using length_choices [of ?vec] by (simp add: cids_def places_def)
  let ?h = "h @ requests_of sid cids ?ms"
  have ses: "sessions lt sid = Some s" using o by (simp add: open_session_def)
  have u: "in_use lt" using R' by simp
  have ex: "exclusive lt" using u by (simp add: in_use_def)
  let ?cs = "push_many (\<lambda>cid. queued_on ?vec cid places) sid (clients lt)"
  obtain gen w' where run: "session_onRead S sid (lt, w1) = Inr (with_gen lt sid s gen ?cs, w')"
    and in': "inq V w' = (inq V w1)(b := drop (length (concat ?ms)) (inq V w1 b))"
    and out: "\<And>x. sent V w' x = sent V w1 x @ sent_to ?vec (clients lt) x (zip places ?ms)"
    by (rule session_reads_any [OF S u o input g places_def]) (rule that)
  let ?lt = "with_gen lt sid s gen ?cs"
  have push: "queues_after q (requests_of sid cids ?ms) cid = q cid @ replicate (queued_on ?vec cid places) sid" for q cid
    using requests_of_queues [OF len] queued_on_chosen [of places ?vec cid, OF some] by (simp add: cids_def)
  have bev: "bev_of ?lt = bev_of lt"
    using ses by (intro bev_of_eqI) (auto simp: bev_of_def push_many_def split: option.splits)
  have use: "in_use ?lt"
  proof (rule in_use_update [OF u])
    show "waiting_sessions lt (session_queue c)" if "clients ?lt cid = Some c" for cid c
      using that u waiting_sessions_replicate [OF o]
      by (auto simp: push_many_def in_use_def waiting_sessions_append)
  qed (use ses bev in \<open>auto simp: push_many_def with_gen_def\<close>)
  have same: "same_sessions lt0 ?lt" by (rule same_sessions_update [OF _ ses]) (use R' in simp_all)
  have handle: "session_handle (sessions ?lt) = session_handle (sessions lt)"
    using same_sessions_handle [OF same] same_sessions_handle R' by metis
  have cl: "clients ?lt = (\<lambda>cid. map_option (\<lambda>c. c\<lparr>session_queue := queues_after ?q0 ?h cid\<rparr>) (clients lt0 cid))"
    using R' by (auto simp: push_many_def push option.map_comp comp_def fun_eq_iff intro: option.map_cong)
  have up: "sent V w' x = sent V w0 x @ requested cid ?h" if "bev_of ?lt (Inr cid) = Some x" for cid x
    using out [of x] w1 R' that [unfolded bev] sent_to_requested [OF ex _ op, of cid x places ?ms] by (simp add: cids_def)
  have down: "sent V w' x = sent V w0 x @ received i (deliveries ?q0 ?h)" if "session_handle (sessions ?lt) i = Some x" for i x
    using out [of x] w1 R' that [unfolded handle] sent_to_session [OF ex session_handle_bev] by simp
  have "proxy_rel V start ?lt w' ?h"
    unfolding proxy_rel_def start split using use same R' cl up down by (auto simp del: with_gen_sel(2))
  with run in' show ?thesis unfolding cids by blast
qed

lemma answered_received:
  assumes "exclusive lt" and "session_handle (sessions lt) sid = Some b"
  shows "answered (sessions lt) b ps = received sid ps"
proof -
  have "session_handle (sessions lt) i = Some b \<longleftrightarrow> i = sid" for i
    using exclusiveD [OF assms(1) session_handle_bev session_handle_bev [OF assms(2)], of i] assms(2) by auto
  then show ?thesis by (simp add: answered_def received_def)
qed

lemma answered_connection:
  assumes "exclusive lt" and "bev_of lt (Inr cid) = Some b"
  shows "answered (sessions lt) b ps = []"
proof -
  have "session_handle (sessions lt) i \<noteq> Some b" for i
    using exclusiveD [OF assms(1) session_handle_bev assms(2), of i] by auto
  then have "filter (\<lambda>(i, m). session_handle (sessions lt) i = Some b) ps = []" by (auto simp: filter_empty_conv)
  then show ?thesis by (simp add: answered_def)
qed

lemma proxy_reply_step:
  assumes S: "libevent_ok S V" "no_failure S V" and R: "proxy_rel V start lt w h"
    and w1: "sent V w1 = sent V w" and c: "clients lt cid = Some c" "bev_sptr c = Bev bc"
    and input: "inq V w1 bc = tokens_bytes ts @ p" "list_all plain ts" "length (inq V w1 bc) < 2 ^ 32" "cut_ok S p"
    and n: "length (taken_msgs ts p) \<le> length (session_queue c)"
  shows "\<exists>lt' w'. redis_onRead S cid (lt, w1) = Inr (lt', w') \<and>
    inq V w' = (inq V w1)(bc := drop (length (concat (taken_msgs ts p))) (inq V w1 bc)) \<and>
    proxy_rel V start lt' w' (h @ map (Reply cid) (taken_msgs ts p))"
proof -
  obtain lt0 w0 where start: "start = (lt0, w0)" by (rule prod.exhaust)
  note R' = R [unfolded proxy_rel_def start split]
  let ?ms = "taken_msgs ts p" and ?q0 = "conn_queues lt0"
  let ?n = "length ?ms" and ?h = "h @ map (Reply cid) ?ms"
  have u: "in_use lt" using R' by simp
  have ex: "exclusive lt" using u by (simp add: in_use_def)
  have q: "session_queue c = queues_after ?q0 h cid" using R' c(1) by auto
  have wait: "waiting_sessions lt (session_queue c)" using u c(1) by (simp add: in_use_def)
  have "waiting_sessions lt (take ?n (session_queue c))"
    using waiting_sessions_subset [OF wait set_take_subset] .
  then obtain w' where run: "redis_onRead S cid (lt, w1) =
      Inr (lt\<lparr>clients := (clients lt)(cid \<mapsto> c\<lparr>session_queue := drop ?n (session_queue c)\<rparr>)\<rparr>, w')"
    and in': "inq V w' = (inq V w1)(bc := drop (length (concat ?ms)) (inq V w1 bc))"
    and out: "\<And>x. sent V w' x = sent V w1 x @ answered (sessions lt) x (zip (take ?n (session_queue c)) ?ms)"
    using redis_reads_replies [OF S c input, of "take ?n (session_queue c)" "drop ?n (session_queue c)"] n by auto
  let ?lt = "lt\<lparr>clients := (clients lt)(cid \<mapsto> c\<lparr>session_queue := drop ?n (session_queue c)\<rparr>)\<rparr>"
  have z: "zip (take ?n (session_queue c)) ?ms = deliveries (queues_after ?q0 h) (map (Reply cid) ?ms)"
    using replies_deliveries [of ?ms "queues_after ?q0 h" cid] n zip_append_short [of ?ms "take ?n (session_queue c)" "drop ?n (session_queue c)"]
    by (simp add: q)
  have bev: "bev_of ?lt = bev_of lt"
    using c(1) by (intro bev_of_eqI) (auto simp: bev_of_def split: option.splits)
  have use: "in_use ?lt"
  proof (rule in_use_update [OF u])
    show "waiting_sessions lt (session_queue c')" if "clients ?lt i = Some c'" for i c'
    proof (cases "i = cid")
      case True
      with that waiting_sessions_subset [OF wait set_drop_subset] show ?thesis by auto
    next
      case False
      with that u show ?thesis by (simp add: in_use_def)
    qed
  qed (use c(1) bev in auto)
  have cl: "clients ?lt = (\<lambda>i. map_option (\<lambda>c. c\<lparr>session_queue := queues_after ?q0 ?h i\<rparr>) (clients lt0 i))"
    using R' c(1) q by (auto simp: fun_eq_iff)
  have up: "sent V w' x = sent V w0 x @ requested i ?h" if "bev_of ?lt (Inr i) = Some x" for i x
    using out [of x] w1 R' that [unfolded bev] answered_connection [OF ex] by simp
  have down: "sent V w' x = sent V w0 x @ received i (deliveries ?q0 ?h)" if "session_handle (sessions ?lt) i = Some x" for i x
    using out [of x] w1 R' that answered_received [OF ex, of i x] z by simp
  have "proxy_rel V start ?lt w' ?h"
    unfolding proxy_rel_def start split using use R' cl up down by (auto simp: same_sessions_def)
  with run in' show ?thesis by blast
qed

lemma proxy_run_rel:
  assumes run: "proxy_run S V (lt0, w0) lt w h" and S: "libevent_ok S V" "no_failure S V" and u: "in_use lt0"
  shows "proxy_rel V (lt0, w0) lt w h"
  using run
proof (induction rule: proxy_run.induct)
  case (proxy_start lt w)
  have "map_option (\<lambda>c. c\<lparr>session_queue := conn_queues lt cid\<rparr>) (clients lt cid) = clients lt cid" for cid
    by (cases "clients lt cid") (simp_all add: conn_queues_def)
  then show ?case using proxy_start u same_sessions_refl by (simp add: proxy_rel_def)
next
  case (proxy_request lt w h w1 sid s b ts p lt' w')
  show ?case
    using proxy_request_step [OF S proxy_request.IH proxy_request.hyps(2-5,7,6,8)] proxy_request.hyps(9) by auto
next
  case (proxy_reply lt w h w1 cid c bc ts p lt' w')
  show ?case
    using proxy_reply_step [OF S proxy_reply.IH proxy_reply.hyps(2-6,8,7,9)] proxy_reply.hyps(10) by auto
qed

end
