(* ===== verification/Answers.thy ===== *)
theory Answers
  imports Connections
begin

text \<open>
  Which reply answers which request. With several connections, a client that sends its next request
  only after the reply to the last one gets the answers in order; one that pipelines may not.
\<close>

section \<open>Requests with their replies\<close>

text \<open>The queues with the requests in them, and the pairs of request and reply of every session.\<close>

fun pending_after :: "(nat \<Rightarrow> (nat \<times> bytes) list) \<Rightarrow> traffic list \<Rightarrow> nat \<Rightarrow> (nat \<times> bytes) list" where
  "pending_after q [] = q"
| "pending_after q (Request cid sid m # h) = pending_after (q(cid := q cid @ [(sid, m)])) h"
| "pending_after q (Reply cid m # h) = pending_after (q(cid := tl (q cid))) h"

fun exchanges :: "(nat \<Rightarrow> (nat \<times> bytes) list) \<Rightarrow> traffic list \<Rightarrow> (nat \<times> bytes \<times> bytes) list" where
  "exchanges q [] = []"
| "exchanges q (Request cid sid m # h) = exchanges (q(cid := q cid @ [(sid, m)])) h"
| "exchanges q (Reply cid m # h) =
     (case q cid of [] \<Rightarrow> exchanges q h | (sid, r) # rest \<Rightarrow> (sid, r, m) # exchanges (q(cid := rest)) h)"

definition exchanges_of :: "nat \<Rightarrow> traffic list \<Rightarrow> (bytes \<times> bytes) list" where
  "exchanges_of sid h = map snd (filter (\<lambda>(sid', e). sid' = sid) (exchanges (\<lambda>_. []) h))"

fun own_requests :: "nat \<Rightarrow> traffic list \<Rightarrow> bytes list" where
  "own_requests sid [] = []"
| "own_requests sid (Request cid sid' m # h) = (if sid' = sid then m # own_requests sid h else own_requests sid h)"
| "own_requests sid (Reply cid m # h) = own_requests sid h"

text \<open>A client that sends a request only while none of its requests is unanswered.\<close>

fun patient :: "(nat \<Rightarrow> (nat \<times> bytes) list) \<Rightarrow> nat \<Rightarrow> traffic list \<Rightarrow> bool" where
  "patient q sid [] \<longleftrightarrow> True"
| "patient q sid (Request cid sid' m # h) \<longleftrightarrow>
     (sid' = sid \<longrightarrow> (\<forall>c. sid \<notin> fst ` set (q c))) \<and> patient (q(cid := q cid @ [(sid', m)])) sid h"
| "patient q sid (Reply cid m # h) \<longleftrightarrow> patient (q(cid := tl (q cid))) sid h"

lemma deliveries_exchanges:
  "deliveries (\<lambda>cid. map fst (q cid)) h = map (\<lambda>(sid, r, m). (sid, m)) (exchanges q h)"
proof (induction q h rule: exchanges.induct)
  case (2 q cid sid m h)
  have "(\<lambda>c. map fst ((q(cid := q cid @ [(sid, m)])) c)) = (\<lambda>c. map fst (q c))(cid := map fst (q cid) @ [sid])"
    by auto
  with 2 show ?case by (simp del: fun_upd_apply)
next
  case (3 q cid m h)
  show ?case
  proof (cases "q cid")
    case (Cons e rest)
    obtain sid r where e: "e = (sid, r)" by (rule prod.exhaust)
    have "(\<lambda>c. map fst ((q(cid := rest)) c)) = (\<lambda>c. map fst (q c))(cid := map fst rest)" by auto
    with 3(2) [OF Cons e [symmetric]] Cons e show ?thesis by (simp del: fun_upd_apply)
  qed (use 3(1) in simp)
qed simp

text \<open>The requests of a session that are in the queues: there is at most one.\<close>

definition waits :: "nat \<Rightarrow> (nat \<Rightarrow> (nat \<times> bytes) list) \<Rightarrow> nat \<Rightarrow> bytes list" where
  "waits sid q c = map snd (filter (\<lambda>(s, m). s = sid) (q c))"

definition unanswered :: "(nat \<Rightarrow> (nat \<times> bytes) list) \<Rightarrow> nat \<Rightarrow> bytes list \<Rightarrow> bool" where
  "unanswered q sid out \<longleftrightarrow> (\<exists>c. waits sid q = (\<lambda>_. [])(c := out)) \<and> length out \<le> 1"

lemma waits_empty_iff: "waits sid q c = [] \<longleftrightarrow> sid \<notin> fst ` set (q c)"
  by (force simp: waits_def filter_empty_conv)

lemma waits_push: "waits sid (q(cid := q cid @ [(s, m)])) =
    (if s = sid then (waits sid q)(cid := waits sid q cid @ [m]) else waits sid q)"
  by (auto simp: waits_def fun_eq_iff)

lemma waits_pop: "q cid = (s, m) # rest \<Longrightarrow> waits sid (q(cid := rest)) =
    (if s = sid then (waits sid q)(cid := tl (waits sid q cid)) else waits sid q)"
  by (auto simp: waits_def fun_eq_iff)

lemma patient_in_order:
  "patient q sid h \<Longrightarrow> unanswered q sid out \<Longrightarrow>
   \<exists>out'. out @ own_requests sid h = map (fst \<circ> snd) (filter (\<lambda>(s, e). s = sid) (exchanges q h)) @ out' \<and>
     unanswered (pending_after q h) sid out'"
proof (induction q sid h arbitrary: out rule: patient.induct)
  case (1 q sid)
  then show ?case by auto
next
  case (2 q sid cid sid' m h)
  let ?q = "q(cid := q cid @ [(sid', m)])"
  show ?case
  proof (cases "sid' = sid")
    case True
    then have none: "waits sid q = (\<lambda>_. [])" using 2(2) by (simp add: fun_eq_iff waits_empty_iff)
    then have "out = []" using 2(3) by (auto simp: unanswered_def fun_eq_iff split: if_splits)
    moreover have "unanswered ?q sid [m]" unfolding unanswered_def waits_push using True none by auto
    ultimately show ?thesis using 2(1) [of "[m]"] 2(2) True by (simp del: fun_upd_apply)
  next
    case False
    then have "unanswered ?q sid out" using 2(3) unfolding unanswered_def waits_push by simp
    then show ?thesis using 2(1) [of out] 2(2) False by (simp del: fun_upd_apply)
  qed
next
  case (3 q sid cid m h)
  have p: "patient (q(cid := tl (q cid))) sid h" using 3(2) by simp
  show ?case
  proof (cases "q cid")
    case Nil
    then have "q(cid := tl (q cid)) = q" by (simp add: fun_upd_idem)
    then show ?thesis using 3(1) [of out] p 3(3) Nil by (simp del: fun_upd_apply)
  next
    case (Cons e rest)
    obtain s r where e: "e = (s, r)" by (rule prod.exhaust)
    let ?q = "q(cid := rest)"
    show ?thesis
    proof (cases "s = sid")
      case True
      then have r: "waits sid q cid = r # waits sid ?q cid" using Cons e by (simp add: waits_def)
      obtain c where c: "waits sid q = (\<lambda>_. [])(c := out)" "length out \<le> 1" using 3(3) by (auto simp: unanswered_def)
      then have "c = cid" and out: "out = [r]" using r by (auto simp: fun_eq_iff split: if_splits)
      have "unanswered ?q sid []"
        unfolding unanswered_def waits_pop [of q cid, OF Cons [unfolded e]] using c(1) True \<open>c = cid\<close> out by auto
      then show ?thesis using 3(1) [of "[]"] p Cons e True out by (auto simp del: fun_upd_apply)
    next
      case False
      then have "unanswered ?q sid out" using 3(3) unfolding unanswered_def waits_pop [of q cid, OF Cons [unfolded e]] by simp
      then show ?thesis using 3(1) [of out] p Cons e False by (simp del: fun_upd_apply)
    qed
  qed
qed

section \<open>Runs of the proxy\<close>

lemma in_use_open_session:
  assumes "same_sessions lt0 lt" and "session_handle (sessions lt0) sid = Some b"
  shows "session_handle (sessions lt) sid = Some b"
  using same_sessions_handle [OF assms(1)] assms(2) by simp

lemma proxy_run_effect:
  assumes "libevent_ok S V" and "no_failure S V" and "in_use lt0" and "proxy_run S V (lt0, w0) lt w h"
  shows "clients lt0 cid = Some c0 \<Longrightarrow> clients lt cid = Some (c0\<lparr>session_queue := queues_after (conn_queues lt0) h cid\<rparr>)"
    and "bev_of lt0 (Inr cid) = Some bc \<Longrightarrow> sent V w bc = sent V w0 bc @ requested cid h"
    and "session_handle (sessions lt0) sid = Some b \<Longrightarrow>
      sent V w b = sent V w0 b @ received sid (deliveries (conn_queues lt0) h)"
proof -
  note R = proxy_run_rel [OF assms(4,1-3), unfolded proxy_rel_def split]
  show c: "clients lt cid = Some (c0\<lparr>session_queue := queues_after (conn_queues lt0) h cid\<rparr>)" if "clients lt0 cid = Some c0"
    for cid c0 using R that by simp
  show "sent V w bc = sent V w0 bc @ requested cid h" if b: "bev_of lt0 (Inr cid) = Some bc"
  proof -
    obtain c0 where "clients lt0 cid = Some c0" "bev_get (bev_sptr c0) = Some bc"
      using b by (auto simp: bev_of_def split: option.splits)
    then have "bev_of lt (Inr cid) = Some bc" using c by (simp add: bev_of_def)
    with R show ?thesis by blast
  qed
  show "sent V w b = sent V w0 b @ received sid (deliveries (conn_queues lt0) h)" if "session_handle (sessions lt0) sid = Some b"
    using R in_use_open_session that by blast
qed

lemma pool_in_use:
  assumes "libevent_ok S V" and "creates_bufferevents S" and "pool_reaches S V user ([], w00) (lts, w)" and "i < length lts"
    and "length (connection_sptr_vector (lts ! i)) + 1 < 2 ^ 16"
    and "queued_sessions (lts ! i) \<subseteq> snd ` set (fd_to_session_map (lts ! i))"
  shows "in_use (lts ! i)"
proof -
  let ?lt = "lts ! i"
  have wf: "well_formed ?lt" by (rule pool_well_formed [OF assms(1-4)])
  have "waiting_sessions ?lt (session_queue c)" if c: "clients ?lt cid = Some c" for cid c
    unfolding waiting_sessions_def list_all_iff
  proof
    fix sid assume s: "sid \<in> set (session_queue c)"
    have "sid \<in> queued_sessions ?lt"
      using s c well_formedD(6) [OF wf c] by (force simp: queued_sessions_def)
    then show "sessions ?lt sid \<noteq> None \<and> sid \<in> snd ` set (fd_to_session_map ?lt)"
      using assms(6) well_formedD(7) [OF wf c s] by blast
  qed
  moreover have "exclusive ?lt" using pool_owners [OF assms(1,3)] assms(4) by (simp add: pool_owned_def owned_def)
  ultimately show ?thesis using well_formedD(1,5) [OF wf] assms(5) by (simp add: in_use_def)
qed

text \<open>No read of a run is ever stuck.\<close>

lemma proxy_read:
  assumes base: "libevent_ok S V" "no_failure S V" "in_use lt0" and run: "proxy_run S V (lt0, w0) lt w h"
    and o: "open_session lt sid s b" and net: "sent V w1 = sent V w" "inq V w1 b = tokens_bytes ts" "list_all plain ts"
      "length (tokens_bytes ts) < 2 ^ 32"
    and g: "unat (sIdGenerater s) + length (frames ts) * length (connection_sptr_vector lt) < 2 ^ 32"
  obtains lt' w' where "session_onRead S sid (lt, w1) = Inr (lt', w')"
    "proxy_run S V (lt0, w0) lt' w' (h @ requests_of sid (chosen lt s (length (frames ts))) (frames ts))"
proof -
  have i: "inq V w1 b = tokens_bytes ts @ []" "length (inq V w1 b) < 2 ^ 32" using net by simp_all
  have g': "unat (sIdGenerater s) + length (taken_msgs ts []) * length (connection_sptr_vector lt) < 2 ^ 32" using g by simp
  obtain lt' w' where r: "session_onRead S sid (lt, w1) = Inr (lt', w')"
    using proxy_request_step [OF base(1,2) proxy_run_rel [OF run base] net(1) o i(1) net(3) i(2) cut_ok_empty g'] by blast
  from that [OF r] proxy_run.proxy_request [OF run net(1) o i(1) net(3) cut_ok_empty i(2) g' r] show thesis by simp
qed

lemma proxy_answer:
  assumes base: "libevent_ok S V" "no_failure S V" "in_use lt0" and run: "proxy_run S V (lt0, w0) lt w h"
    and c: "clients lt cid = Some c" "bev_sptr c = Bev bc"
    and net: "sent V w1 = sent V w" "inq V w1 bc = tokens_bytes ts" "list_all plain ts" "length (tokens_bytes ts) < 2 ^ 32"
    and n: "length (frames ts) \<le> length (session_queue c)"
  obtains lt' w' where "redis_onRead S cid (lt, w1) = Inr (lt', w')"
    "proxy_run S V (lt0, w0) lt' w' (h @ map (Reply cid) (frames ts))"
proof -
  have i: "inq V w1 bc = tokens_bytes ts @ []" "length (inq V w1 bc) < 2 ^ 32" using net by simp_all
  have n': "length (taken_msgs ts []) \<le> length (session_queue c)" using n by simp
  obtain lt' w' where r: "redis_onRead S cid (lt, w1) = Inr (lt', w')"
    using proxy_reply_step [OF base(1,2) proxy_run_rel [OF run base] net(1) c i(1) net(3) i(2) cut_ok_empty n'] by blast
  from that [OF r] proxy_run.proxy_reply [OF run net(1) c i(1) net(3) cut_ok_empty i(2) n' r] show thesis by simp
qed

section \<open>Properties\<close>

text \<open>A connection nobody waits for, and complete messages that fit into a buffer.\<close>

definition idle_connection :: "loop_thread \<Rightarrow> nat \<Rightarrow> bev \<Rightarrow> bool" where
  "idle_connection lt cid b \<longleftrightarrow> bev_of lt (Inr cid) = Some b \<and> conn_queues lt cid = []"

definition whole_messages :: "token list \<Rightarrow> bytes list \<Rightarrow> bool" where
  "whole_messages ts ms \<longleftrightarrow> list_all plain ts \<and> frames ts = ms \<and> length (tokens_bytes ts) < 2 ^ 32"

lemma idle_client:
  assumes "idle_connection lt cid b"
  obtains c where "clients lt cid = Some c" "bev_sptr c = Bev b" "session_queue c = []"
  using assms by (auto simp: idle_connection_def bev_of_def conn_queues_def split: option.splits)

text \<open>All connections of a thread are open, and the counter of a session is not about to wrap around.\<close>

definition all_open :: "loop_thread \<Rightarrow> bool" where
  "all_open lt \<longleftrightarrow> connection_sptr_vector lt \<noteq> [] \<and>
     (\<forall>p \<in> set (connection_sptr_vector lt). open_handle (clients lt) p \<noteq> None)"

text \<open>One command of a session, when all connections are open.\<close>

lemma session_reads_one:
  assumes S: "libevent_ok S V" "no_failure S V" and u: "in_use lt" "all_open lt" and o: "open_session lt sid s b"
    and input: "inq V w b = tokens_bytes ts" "whole_messages ts [m]"
    and g: "unat (sIdGenerater s) + length (connection_sptr_vector lt) < 2 ^ 32"
    and r: "session_onRead S sid (lt, w) = Inr (lt', w')"
  shows "open_session lt' sid (s\<lparr>sIdGenerater := sIdGenerater s + 1\<rparr>) b" and "all_open lt'"
    and "connection_sptr_vector lt' = connection_sptr_vector lt"
    and "chosen lt s 1 = [the (conn_at (connection_sptr_vector lt) (sIdGenerater s))]"
proof -
  let ?vec = "connection_sptr_vector lt"
  have op: "\<And>p. p \<in> set ?vec \<Longrightarrow> open_handle (clients lt) p \<noteq> None" and ne: "?vec \<noteq> []"
    using u(2) by (auto simp: all_open_def)
  have first: "first_open ?vec (clients lt) g = Some 0" for g by (rule first_open_all [OF ne op])
  have s: "sessions lt sid = Some s" "s_bev_sptr s = Bev b" using o by (simp_all add: open_session_def)
  have d: "can_dispatch lt sid s" using ne u(1) s by (simp add: can_dispatch_def in_use_def)
  have msg: "list_all plain ts" "frames ts = [m]" "length (tokens_bytes ts) < 2 ^ 32"
    using input(2) by (simp_all add: whole_messages_def)
  have len: "length m < 2 ^ 32" using length_frame [of m ts] msg by simp
  have i: "inq V w b = tokens_bytes ts @ []" "length (inq V w b) < 2 ^ 32" using input(1) msg(3) by simp_all
  obtain bc where bc': "open_handle (clients lt) (conn_at ?vec (sIdGenerater s)) = Some bc"
    using op [OF conn_at_in_set [OF ne]] by blast
  then obtain cid where cid: "conn_at ?vec (sIdGenerater s) = Some cid" by (rule open_handle_SomeE)
  with bc' have bc: "open_handle (clients lt) (Some cid) = Some bc" by simp
  let ?out = "\<lambda>h. if h = bc then m else []"
  have "\<exists>gen w2. deliver_all (dispatch S sid) (taken_msgs ts []) (lt, w1) =
      Inr (with_gen lt sid s gen (push_session cid sid (clients lt)), w2) \<and> gen = sIdGenerater s + 1 \<and>
      inq V w2 = inq V w1 \<and> live V w2 = live V w1 \<and> (\<forall>h. sent V w2 h = sent V w1 h @ ?out h)" for w1
  proof -
    obtain rc w2 where "bufferevent_write S bc m w1 = (rc, w2)" "rc \<noteq> -1"
      "dispatch S sid m (lt, w1) = Inr (with_gen lt sid s (sIdGenerater s + of_nat 0 + 1) (push_session cid sid (clients lt)), w2)"
      by (rule dispatch_one [OF d S(2) first g len, where w = w1]) (use cid bc that in auto)
    then show ?thesis using bufferevent_write_ok [OF S(1)] msg(2) by (auto simp: deliver_all_single)
  qed
  then obtain gen w2 where "session_onRead S sid (lt, w) = Inr (with_gen lt sid s gen (push_session cid sid (clients lt)), w2)"
      "gen = sIdGenerater s + 1"
    by (rule session_reads_counter [OF S s i(1) msg(1) i(2) cut_ok_empty]) (rule that)
  with r have lt': "lt' = with_gen lt sid s (sIdGenerater s + 1) (push_session cid sid (clients lt))" by simp
  show "open_session lt' sid (s\<lparr>sIdGenerater := sIdGenerater s + 1\<rparr>) b" using o by (simp add: lt' open_session_def)
  show "all_open lt'" using u(2) by (simp add: lt' all_open_def)
  show "connection_sptr_vector lt' = ?vec" by (simp add: lt')
  show "chosen lt s 1 = [the (conn_at ?vec (sIdGenerater s))]" using first by (simp add: chosen_def)
qed

text \<open>
  C34: replies overtake each other. When a client sends a second command before it has the reply to
  the first, the two go to two connections. If the second one answers first, its reply is sent to the
  client first. The protocol has nothing but the order to tell replies apart, so the client takes the reply to its
  second command for the one to its first.
\<close>

theorem replies_overtake:
  assumes "libevent_ok S V" and "no_failure S V" and "in_use lt" and "all_open lt" and "open_session lt sid s b"
    and "unat (sIdGenerater s) + 1 + length (connection_sptr_vector lt) < 2 ^ 32"
    and "conn_at (connection_sptr_vector lt) (sIdGenerater s) = Some c1" and "idle_connection lt c1 b1"
    and "conn_at (connection_sptr_vector lt) (sIdGenerater s + 1) = Some c2" and "idle_connection lt c2 b2" and "c1 \<noteq> c2"
    and "inq V w b = tokens_bytes ts1" and "whole_messages ts1 [m1]" and "session_onRead S sid (lt, w) = Inr (lt1, w1)"
    and "sent V v1 = sent V w1" and "inq V v1 b = tokens_bytes ts2" and "whole_messages ts2 [m2]"
    and "session_onRead S sid (lt1, v1) = Inr (lt2, w2)"
    and "sent V v2 = sent V w2" and "inq V v2 b2 = tokens_bytes rs2" and "whole_messages rs2 [r2]"
    and "redis_onRead S c2 (lt2, v2) = Inr (lt3, w3)"
    and "sent V v3 = sent V w3" and "inq V v3 b1 = tokens_bytes rs1" and "whole_messages rs1 [r1]"
  shows "\<exists>lt4 w4. redis_onRead S c1 (lt3, v3) = Inr (lt4, w4) \<and>
    sent V w4 b1 = sent V w b1 @ m1 \<and> sent V w4 b2 = sent V w b2 @ m2 \<and> sent V w4 b = sent V w b @ r2 @ r1"
proof -
  note base = assms(1-3)
  note msgs = assms(13,17,21,25) [unfolded whole_messages_def]
  have run0: "proxy_run S V (lt, w) lt w []" by (rule proxy_run.proxy_start) (rule refl)
  have g1: "unat (sIdGenerater s) + length (connection_sptr_vector lt) < 2 ^ 32" using assms(6) by simp
  note one = session_reads_one [OF assms(1-5,12,13) g1 assms(14)]
  have run1: "proxy_run S V (lt, w) lt1 w1 [Request c1 sid m1]"
    by (rule proxy_read [OF base run0 assms(5) refl assms(12)]) (use msgs g1 one(4) assms(7,14) in auto)
  let ?s = "s\<lparr>sIdGenerater := sIdGenerater s + 1\<rparr>"
  have u1: "in_use lt1" using proxy_run_rel [OF run1 base] by (simp add: proxy_rel_def)
  have g2: "unat (sIdGenerater ?s) + length (connection_sptr_vector lt1) < 2 ^ 32"
    using assms(6) one(3) unat_plus_one [of "sIdGenerater s"] by simp
  note two = session_reads_one [OF assms(1,2) u1 one(2,1) assms(16,17) g2 assms(18)]
  have run2: "proxy_run S V (lt, w) lt2 w2 [Request c1 sid m1, Request c2 sid m2]"
    by (rule proxy_read [OF base run1 one(1) assms(15,16)]) (use msgs g2 two(4) one(3) assms(9,18) in auto)
  obtain k1 k2 where k: "clients lt c1 = Some k1" "bev_sptr k1 = Bev b1" "clients lt c2 = Some k2" "bev_sptr k2 = Bev b2"
    using idle_client [OF assms(8)] idle_client [OF assms(10)] by metis
  have b: "bev_of lt (Inr c1) = Some b1" "bev_of lt (Inr c2) = Some b2" and q: "conn_queues lt c1 = []" "conn_queues lt c2 = []"
    using assms(8,10) by (simp_all add: idle_connection_def)
  have k2: "clients lt2 c2 = Some (k2\<lparr>session_queue := [sid]\<rparr>)"
    using proxy_run_effect(1) [OF base run2 k(3)] q assms(11) by simp
  have run3: "proxy_run S V (lt, w) lt3 w3 [Request c1 sid m1, Request c2 sid m2, Reply c2 r2]"
    by (rule proxy_answer [OF base run2 k2 _ assms(19,20)]) (use k msgs assms(22) in auto)
  have k1: "clients lt3 c1 = Some (k1\<lparr>session_queue := [sid]\<rparr>)"
    using proxy_run_effect(1) [OF base run3 k(1)] q assms(11) by simp
  obtain lt4 w4 where r4: "redis_onRead S c1 (lt3, v3) = Inr (lt4, w4)"
    and run4: "proxy_run S V (lt, w) lt4 w4 [Request c1 sid m1, Request c2 sid m2, Reply c2 r2, Reply c1 r1]"
    by (rule proxy_answer [OF base run3 k1 _ assms(23,24)]) (use k msgs in simp_all)
  note E = proxy_run_effect [OF base run4]
  show ?thesis
    using r4 E(2) [OF b(1)] E(2) [OF b(2)] E(3) [OF open_session_handle [OF assms(5)]] q assms(11)
    by (simp add: received_def)
qed

section \<open>Witnesses\<close>

text \<open>A thread with one client and two idle connections.\<close>

definition demo_pair :: loop_thread where
  "demo_pair = (demo_thread [])\<lparr>connection_sptr_vector := [Some 1, Some 2],
     clients := [1 \<mapsto> demo_client [], 2 \<mapsto> (demo_client [])\<lparr>bev_sptr := Bev 2\<rparr>], next_addr := 3\<rparr>"

lemma demo_pair_sel [simp]:
  "connection_sptr_vector demo_pair = [Some 1, Some 2]" "sessions demo_pair = [0 \<mapsto> demo_session]"
  "clients demo_pair = [1 \<mapsto> demo_client [], 2 \<mapsto> (demo_client [])\<lparr>bev_sptr := Bev 2\<rparr>]" "tls_set demo_pair"
  "fd_to_session_map demo_pair = [(3, 0)]"
  by (simp_all add: demo_pair_def) (simp add: demo_thread_def)

lemma demo_pair_bev: "bev_of demo_pair = [Inl 0 \<mapsto> 0, Inr 1 \<mapsto> 1, Inr 2 \<mapsto> 2]"
  by (auto simp: fun_eq_iff bev_of_def split: sum.splits)

lemma demo_pair_ok:
  "in_use demo_pair" "all_open demo_pair" "open_session demo_pair 0 demo_session 0" "conn_queues demo_pair = (\<lambda>_. [])"
  "idle_connection demo_pair 1 1" "idle_connection demo_pair 2 2"
proof -
  show "in_use demo_pair"
    by (auto simp: in_use_def exclusive_def demo_pair_bev allocated_def waiting_sessions_def split: if_splits)
  show "all_open demo_pair" by (simp add: all_open_def open_handle_def)
  show "open_session demo_pair 0 demo_session 0" by (simp add: open_session_def)
  show q: "conn_queues demo_pair = (\<lambda>_. [])" by (auto simp: conn_queues_def fun_eq_iff)
  show "idle_connection demo_pair 1 1" "idle_connection demo_pair 2 2" by (simp_all add: idle_connection_def demo_pair_bev q)
qed

lemma demo_messages:
  "whole_messages ping [tokens_bytes ping]" "whole_messages [TString ''A''] [tokens_bytes [TString ''A'']]"
  "whole_messages [TString ''B''] [tokens_bytes [TString ''B'']]"
  using demo_lengths(1) by (simp_all add: whole_messages_def)

lemma demo_pair_run:
  obtains lt1 w1 where "session_onRead sim_sys 0 (demo_pair, with_input (sim_state [] []) 0 (tokens_bytes ping)) = Inr (lt1, w1)"
    "proxy_run sim_sys sim_view (demo_pair, with_input (sim_state [] []) 0 (tokens_bytes ping)) lt1 w1 [Request 1 0 (tokens_bytes ping)]"
    "open_session lt1 0 (demo_session\<lparr>sIdGenerater := 1\<rparr>) 0" "connection_sptr_vector lt1 = [Some 1, Some 2]"
proof -
  let ?w = "with_input (sim_state [] []) 0 (tokens_bytes ping)"
  have run0: "proxy_run sim_sys sim_view (demo_pair, ?w) demo_pair ?w []" by (rule proxy_run.proxy_start) (rule refl)
  have g: "unat (sIdGenerater demo_session) + length (connection_sptr_vector demo_pair) < 2 ^ 32" by simp
  have g': "unat (sIdGenerater demo_session) + length (frames ping) * length (connection_sptr_vector demo_pair) < 2 ^ 32" by simp
  obtain lt1 w1 where r: "session_onRead sim_sys 0 (demo_pair, ?w) = Inr (lt1, w1)"
    and run: "proxy_run sim_sys sim_view (demo_pair, ?w) lt1 w1
      ([] @ requests_of 0 (chosen demo_pair demo_session (length (frames ping))) (frames ping))"
    by (rule proxy_read [OF sim_ok sim_no_failure demo_pair_ok(1) run0 demo_pair_ok(3) refl with_input_net(2) demo_plain(1) demo_lengths(1) g'])
  note one = session_reads_one [OF sim_ok sim_no_failure demo_pair_ok(1-3) with_input_net(2) demo_messages(1) g r]
  from one(4) run have run: "proxy_run sim_sys sim_view (demo_pair, ?w) lt1 w1 [Request 1 0 (tokens_bytes ping)]"
    unfolding frames_ping by simp
  show thesis by (rule that [OF r run]) (use one in simp_all)
qed

lemma demo_pair_clients:
  assumes "proxy_run sim_sys sim_view (demo_pair, w0) lt w h"
  shows "clients lt 1 = Some ((demo_client [])\<lparr>session_queue := queues_after (\<lambda>_. []) h 1\<rparr>)"
    and "clients lt 2 = Some ((demo_client [])\<lparr>bev_sptr := Bev 2, session_queue := queues_after (\<lambda>_. []) h 2\<rparr>)"
  using proxy_run_effect(1) [OF sim_ok sim_no_failure demo_pair_ok(1) assms] by (simp_all add: demo_pair_ok(4))

lemma replies_overtake_witness:
  "\<exists>(lt3 :: loop_thread) v3 lt4 w4. redis_onRead sim_sys 1 (lt3, v3) = Inr (lt4, w4) \<and>
     sent sim_view w4 0 = tokens_bytes [TString ''B''] @ tokens_bytes [TString ''A'']"
proof -
  note base = sim_ok sim_no_failure demo_pair_ok(1)
  let ?w = "with_input (sim_state [] []) 0 (tokens_bytes ping)"
  obtain lt1 w1 where r1: "session_onRead sim_sys 0 (demo_pair, ?w) = Inr (lt1, w1)"
    and run1: "proxy_run sim_sys sim_view (demo_pair, ?w) lt1 w1 [Request 1 0 (tokens_bytes ping)]"
    and s1: "open_session lt1 0 (demo_session\<lparr>sIdGenerater := 1\<rparr>) 0" "connection_sptr_vector lt1 = [Some 1, Some 2]"
    by (rule demo_pair_run)
  have g1: "unat (sIdGenerater (demo_session\<lparr>sIdGenerater := 1\<rparr>)) + length (frames ping) * length (connection_sptr_vector lt1) < 2 ^ 32"
    using s1(2) by simp
  obtain lt2 w2 where r2: "session_onRead sim_sys 0 (lt1, with_input w1 0 (tokens_bytes ping)) = Inr (lt2, w2)"
    and run2: "proxy_run sim_sys sim_view (demo_pair, ?w) lt2 w2 ([Request 1 0 (tokens_bytes ping)] @
      requests_of 0 (chosen lt1 (demo_session\<lparr>sIdGenerater := 1\<rparr>) (length (frames ping))) (frames ping))"
    by (rule proxy_read [OF base run1 s1(1) with_input_net demo_plain(1) demo_lengths(1) g1])
  have u1: "in_use lt1" using proxy_run_rel [OF run1 base] by (simp add: proxy_rel_def)
  have o1: "all_open lt1"
    using session_reads_one(2) [OF sim_ok sim_no_failure demo_pair_ok(1-3) with_input_net(2) demo_messages(1) _ r1] by simp
  have g1': "unat (sIdGenerater (demo_session\<lparr>sIdGenerater := 1\<rparr>)) + length (connection_sptr_vector lt1) < 2 ^ 32"
    using s1(2) by simp
  have "chosen lt1 (demo_session\<lparr>sIdGenerater := 1\<rparr>) 1 = [2]"
    using session_reads_one(4) [OF sim_ok sim_no_failure u1 o1 s1(1) with_input_net(2) demo_messages(1) g1' r2] s1(2) by simp
  with run2 have run2: "proxy_run sim_sys sim_view (demo_pair, ?w) lt2 w2 [Request 1 0 (tokens_bytes ping), Request 2 0 (tokens_bytes ping)]"
    unfolding frames_ping by simp
  have i: "inq sim_view (with_input w2 2 (tokens_bytes [TString ''B''])) 2 = tokens_bytes [TString ''B'']"
    by (rule with_input_net(2))
  obtain lt3 w3 where r3: "redis_onRead sim_sys 2 (lt2, with_input w2 2 (tokens_bytes [TString ''B''])) = Inr (lt3, w3)"
    by (rule proxy_answer [OF base run2 demo_pair_clients(2) [OF run2] _ with_input_net(1) i]) simp_all
  have "\<exists>lt4 w4. redis_onRead sim_sys 1 (lt3, with_input w3 1 (tokens_bytes [TString ''A''])) = Inr (lt4, w4) \<and>
    sent sim_view w4 1 = sent sim_view ?w 1 @ tokens_bytes ping \<and> sent sim_view w4 2 = sent sim_view ?w 2 @ tokens_bytes ping \<and>
    sent sim_view w4 0 = sent sim_view ?w 0 @ tokens_bytes [TString ''B''] @ tokens_bytes [TString ''A'']"
    by (rule replies_overtake [OF base demo_pair_ok(2,3) _ _ demo_pair_ok(5) _ demo_pair_ok(6) _ with_input_net(2) demo_messages(1) r1
        with_input_net demo_messages(1) r2 with_input_net demo_messages(3) r3 with_input_net demo_messages(2)]) simp_all
  moreover have "sent sim_view ?w 0 = []" by (simp add: sim_view_def sim_state_def)
  ultimately show ?thesis by auto
qed

end
