(* ===== verification/Commands.thy ===== *)
theory Commands
  imports Multiplex
begin

text \<open>
  The multiplexer of \<open>Multiplex\<close> in terms of commands and replies as RESP values: what the sessions
  ask and what the database answers, when every read brings \<open>legible\<close> input.
\<close>

section \<open>Specification\<close>

definition commands_of :: "nat \<Rightarrow> (nat \<times> resp) list \<Rightarrow> resp list" where
  "commands_of sid requests = map snd (filter (\<lambda>(sid', v). sid' = sid) requests)"

definition answers_of :: "nat \<Rightarrow> (nat \<times> resp) list \<Rightarrow> resp list \<Rightarrow> resp list" where
  "answers_of sid requests replies = map snd (filter (\<lambda>(sid', r). sid' = sid) (zip (map fst requests) replies))"

inductive command_run :: "'w sys \<Rightarrow> 'w view \<Rightarrow> nat \<Rightarrow> bev \<Rightarrow> loop_thread \<times> 'w \<Rightarrow> loop_thread \<Rightarrow> 'w \<Rightarrow>
    (nat \<times> resp) list \<Rightarrow> resp list \<Rightarrow> bool"
  for S V cid bc start where
  command_start: "start = (lt, w) \<Longrightarrow> command_run S V cid bc start lt w [] []"
| command_request: "command_run S V cid bc start lt w requests replies \<Longrightarrow> sent V w1 = sent V w \<Longrightarrow>
     open_session lt sid s b \<Longrightarrow> legible S (inq V w1 b) vs rest \<Longrightarrow>
     session_onRead S sid (lt, w1) = Inr (lt', w') \<Longrightarrow>
     command_run S V cid bc start lt' w' (requests @ map (Pair sid) vs) replies"
| command_reply: "command_run S V cid bc start lt w requests replies \<Longrightarrow> sent V w1 = sent V w \<Longrightarrow>
     legible S (inq V w1 bc) rs rest \<Longrightarrow> length replies + length rs \<le> length requests \<Longrightarrow>
     redis_onRead S cid (lt, w1) = Inr (lt', w') \<Longrightarrow>
     command_run S V cid bc start lt' w' requests (replies @ rs)"

section \<open>Commands and frames\<close>

lemma command_run_mux:
  assumes "command_run S V cid bc start lt w requests replies"
  shows "mux_run S V cid bc start lt w (map (apsnd resp_bytes) requests) (map resp_bytes replies)"
  using assms
proof (induction rule: command_run.induct)
  case (command_start lt w)
  then show ?case by (simp add: mux_run.mux_start)
next
  case (command_request lt w requests replies w1 sid s b vs rest lt' w')
  from command_request.hyps(4) obtain ts p where i: "inq V w1 b = tokens_bytes ts @ p" "list_all plain ts" "cut_ok S p"
    "taken_msgs ts p = map resp_bytes vs" "length (inq V w1 b) < 2 ^ 32" by (rule legibleE)
  show ?case
    using mux_run.mux_request [OF command_request.IH command_request.hyps(2,3) i(1-3,5) command_request.hyps(5)] i(4)
    by (simp add: comp_def)
next
  case (command_reply lt w requests replies w1 rs rest lt' w')
  from command_reply.hyps(3) obtain ts p where i: "inq V w1 bc = tokens_bytes ts @ p" "list_all plain ts" "cut_ok S p"
    "taken_msgs ts p = map resp_bytes rs" "length (inq V w1 bc) < 2 ^ 32" by (rule legibleE)
  show ?case
    using mux_run.mux_reply [OF command_reply.IH command_reply.hyps(2) i(1-3,5) _ command_reply.hyps(5)] i(4)
      command_reply.hyps(4) by simp
qed

lemma replies_for_values:
  "replies_for sid (map (apsnd resp_bytes) requests) (map resp_bytes replies) = values_bytes (answers_of sid requests replies)"
  by (simp add: replies_for_def answers_of_def values_bytes_def comp_def zip_map2 filter_map case_prod_beta')

text \<open>Replies that are right by position are right for each client.\<close>

lemma answers_right:
  assumes "list_all2 right (take (length replies) (map snd requests)) replies"
  shows "list_all2 right (take (length (answers_of sid requests replies)) (commands_of sid requests)) (answers_of sid requests replies)"
  using assms
proof (induction replies arbitrary: requests rule: list.induct)
  case (Cons r replies)
  have "requests \<noteq> []" using Cons.prems by auto
  then obtain i v requests' where e: "requests = (i, v) # requests'" by (metis neq_Nil_conv surj_pair)
  with Cons show ?case by (auto simp: answers_of_def commands_of_def)
qed (simp add: answers_of_def)

section \<open>Properties\<close>

text \<open>
  C1: the proxy is a first-in first-out multiplexer. Any number of sessions send commands and one
  database connection answers, in any order of reads; every read finds \<open>legible\<close> input: RESP values
  without a CR in a payload, an array with elements only as the last of them, or the beginning of a
  value behind values that are no such arrays, cut inside one of its lines. Then the connection has
  been sent all commands in the order of the reads, the sessions of the unanswered ones are queued
  in that order, and every client has been sent exactly the replies at the positions of its own
  commands, in order. So if the database answers the commands in their order, each with a reply that is
  right for it, whatever \<open>right\<close> means, then every client has got right replies to its own first
  commands, in order. (Input that is not legible can break this: \<open>pipelined_commands_fault\<close>,
  \<open>split_array_misroutes_reply\<close>.)
\<close>

theorem proxy_multiplexes:
  assumes "libevent_ok S V" and "no_failure S V" and "single_connection lt0 cid c0 bc" and "own_bufferevents lt0 bc"
    and "command_run S V cid bc (lt0, w0) lt w requests replies"
  shows "\<exists>c. clients lt cid = Some c \<and> session_queue c = map fst (drop (length replies) requests) \<and>
    sent V w bc = sent V w0 bc @ values_bytes (map snd requests) \<and>
    (\<forall>sid b. session_handle (sessions lt0) sid = Some b \<longrightarrow>
      sent V w b = sent V w0 b @ values_bytes (answers_of sid requests replies) \<and>
      (\<forall>right. list_all2 right (take (length replies) (map snd requests)) replies \<longrightarrow>
        list_all2 right (take (length (answers_of sid requests replies)) (commands_of sid requests))
          (answers_of sid requests replies)))"
proof -
  have "map (snd \<circ> apsnd resp_bytes) requests = map resp_bytes (map snd requests)" by simp
  with mux_run_effect [OF assms(1-4) command_run_mux [OF assms(5)]] show ?thesis
    by (auto simp: still_waiting_def drop_map comp_def values_bytes_def replies_for_values [unfolded values_bytes_def] answers_right)
qed

text \<open>
  C4: in such a run no read callback fails: on an open session with legible input, the complete
  commands in it are always forwarded and taken off the input, and the beginning of another one
  stays; complete replies are always handed out, as long as there are not more of them than
  unanswered commands. (A complete array command with the beginning of another one behind it is not
  legible: it stays in the buffer until the rest has come, see \<open>process_resp_cut\<close>.)
\<close>

theorem multiplexer_never_stuck:
  assumes "libevent_ok S V" and "no_failure S V" and "single_connection lt0 cid c0 bc" and "own_bufferevents lt0 bc"
    and "command_run S V cid bc (lt0, w0) lt w requests replies" and "sent V w1 = sent V w"
  shows "(open_session lt sid s b \<and> legible S (inq V w1 b) vs rest \<longrightarrow>
      (\<exists>lt' w'. session_onRead S sid (lt, w1) = Inr (lt', w') \<and> inq V w' = (inq V w1)(b := rest) \<and>
         command_run S V cid bc (lt0, w0) lt' w' (requests @ map (Pair sid) vs) replies)) \<and>
    (legible S (inq V w1 bc) rs rest \<and> length replies + length rs \<le> length requests \<longrightarrow>
      (\<exists>lt' w'. redis_onRead S cid (lt, w1) = Inr (lt', w') \<and> inq V w' = (inq V w1)(bc := rest) \<and>
         command_run S V cid bc (lt0, w0) lt' w' requests (replies @ rs)))"
proof (intro conjI impI)
  note base = assms(1-4) and run = command_run_mux [OF assms(5)]
  show "\<exists>lt' w'. session_onRead S sid (lt, w1) = Inr (lt', w') \<and> inq V w' = (inq V w1)(b := rest) \<and>
         command_run S V cid bc (lt0, w0) lt' w' (requests @ map (Pair sid) vs) replies"
    if t: "open_session lt sid s b \<and> legible S (inq V w1 b) vs rest"
  proof -
    obtain ts p where i: "inq V w1 b = tokens_bytes ts @ p" "list_all plain ts" "cut_ok S p" "length (inq V w1 b) < 2 ^ 32"
      and d: "drop (length (concat (taken_msgs ts p))) (inq V w1 b) = rest"
      by (rule legibleE [OF t [THEN conjunct2]])
    have "open_session lt sid s b \<and> inq V w1 b = tokens_bytes ts @ p \<and> length (inq V w1 b) < 2 ^ 32" using t i by simp
    from mux_advance [OF base run assms(6) i(2,3), THEN conjunct1, THEN mp, OF this] obtain lt' w' where
      r: "session_onRead S sid (lt, w1) = Inr (lt', w')" "inq V w' = (inq V w1)(b := rest)" unfolding d by blast
    with command_run.command_request [OF assms(5,6) _ _ r(1)] t show ?thesis by blast
  qed
  show "\<exists>lt' w'. redis_onRead S cid (lt, w1) = Inr (lt', w') \<and> inq V w' = (inq V w1)(bc := rest) \<and>
         command_run S V cid bc (lt0, w0) lt' w' requests (replies @ rs)"
    if t: "legible S (inq V w1 bc) rs rest \<and> length replies + length rs \<le> length requests"
  proof -
    obtain ts p where i: "inq V w1 bc = tokens_bytes ts @ p" "list_all plain ts" "cut_ok S p" "length (inq V w1 bc) < 2 ^ 32"
      and n: "taken_msgs ts p = map resp_bytes rs"
      and d: "drop (length (concat (taken_msgs ts p))) (inq V w1 bc) = rest"
      by (rule legibleE [OF t [THEN conjunct1]])
    have "inq V w1 bc = tokens_bytes ts @ p \<and> length (inq V w1 bc) < 2 ^ 32 \<and>
        length (map resp_bytes replies) + length (taken_msgs ts p) \<le> length (map (apsnd resp_bytes) requests)"
      using t n i by simp
    from mux_advance [OF base run assms(6) i(2,3), THEN conjunct2, THEN mp, OF this] obtain lt' w' where
      r: "redis_onRead S cid (lt, w1) = Inr (lt', w')" "inq V w' = (inq V w1)(bc := rest)" unfolding d by blast
    with command_run.command_reply [OF assms(5,6) _ _ r(1)] t show ?thesis by blast
  qed
qed

section \<open>Witnesses\<close>

lemma demo_command_start:
  "command_run sim_sys sim_view 1 1 (demo_thread [], sim_state [] []) (demo_thread []) (sim_state [] []) [] []"
  by (rule command_run.command_start) (rule refl)

lemma demo_legible_ping:
  "open_session (demo_thread []) 0 demo_session 0 \<and> legible sim_sys (inq sim_view (sim_state (tokens_bytes ping) []) 0) [ping_value] []"
  using demo_open_session demo_legible(1) by (simp only: demo_ping_input(2) simp_thms)

lemma demo_asked:
  obtains lt w where "session_onRead sim_sys 0 (demo_thread [], sim_state (tokens_bytes ping) []) = Inr (lt, w)"
    "command_run sim_sys sim_view 1 1 (demo_thread [], sim_state [] []) lt w [(0, ping_value)] []"
proof -
  obtain lt w where r: "session_onRead sim_sys 0 (demo_thread [], sim_state (tokens_bytes ping) []) = Inr (lt, w)"
    using mux_advance [OF sim_ok sim_no_failure demo_single demo_own demo_mux_start demo_ping_input(1) demo_plain(1) cut_ok_empty,
        THEN conjunct1, THEN mp, OF demo_request] by blast
  note command_run.command_request [OF demo_command_start demo_ping_input(1) demo_legible_ping [THEN conjunct1]
      demo_legible_ping [THEN conjunct2] r]
  then show thesis using that [OF r] by simp
qed

lemma proxy_multiplexes_witness:
  "\<exists>(lt :: loop_thread) w. sent sim_view w 1 = values_bytes [ping_value] \<and>
     sent sim_view w 0 = values_bytes (answers_of 0 [(0, ping_value)] []) \<and>
     (\<exists>c. clients lt 1 = Some c \<and> session_queue c = [0])"
proof -
  obtain lt w where "command_run sim_sys sim_view 1 1 (demo_thread [], sim_state [] []) lt w [(0, ping_value)] []"
    by (rule demo_asked)
  from proxy_multiplexes [OF sim_ok sim_no_failure demo_single demo_own this] obtain c where
    c: "clients lt 1 = Some c" "session_queue c = [0]" "sent sim_view w 1 = sent sim_view (sim_state [] []) 1 @ values_bytes [ping_value]"
    and s: "\<And>sid b. session_handle (sessions (demo_thread [])) sid = Some b \<Longrightarrow>
      sent sim_view w b = sent sim_view (sim_state [] []) b @ values_bytes (answers_of sid [(0, ping_value)] [])"
    by auto
  have "sent sim_view (sim_state [] []) b = []" for b by (simp add: sim_view_def sim_state_def)
  with c s [OF open_session_handle [OF demo_open_session]] show ?thesis by auto
qed

lemma multiplexer_never_stuck_witness:
  "\<exists>lt' w'. session_onRead sim_sys 0 (demo_thread [], sim_state (tokens_bytes ping) []) = Inr (lt', w') \<and>
     inq sim_view w' = (inq sim_view (sim_state (tokens_bytes ping) []))(0 := []) \<and>
     command_run sim_sys sim_view 1 1 (demo_thread [], sim_state [] []) lt' w' ([] @ map (Pair 0) [ping_value]) []"
  by (rule multiplexer_never_stuck [OF sim_ok sim_no_failure demo_single demo_own demo_command_start
        demo_ping_input(1), THEN conjunct1, THEN mp, OF demo_legible_ping])

end
