(* ===== verification/Client_Traffic.thy ===== *)
theory Client_Traffic
  imports Answers Commands
begin

text \<open>
  Commands and replies with any number of connections: which command goes where, and who gets which
  reply, when every read brings \<open>legible\<close> input.
\<close>

section \<open>Runs\<close>

text \<open>
  Runs of the read callbacks of all sessions and connections, with the commands that were read, those
  of all sessions in the order of the reads, and the trace of what was forwarded and handed out.
\<close>

inductive command_trace :: "'w sys \<Rightarrow> 'w view \<Rightarrow> loop_thread \<times> 'w \<Rightarrow> loop_thread \<Rightarrow> 'w \<Rightarrow>
    (nat \<times> resp) list \<Rightarrow> traffic list \<Rightarrow> bool"
  for S V start where
  trace_start: "start = (lt, w) \<Longrightarrow> command_trace S V start lt w [] []"
| trace_command: "command_trace S V start lt w asked h \<Longrightarrow> sent V w1 = sent V w \<Longrightarrow>
     open_session lt sid s b \<Longrightarrow> legible S (inq V w1 b) vs rest \<Longrightarrow>
     unat (sIdGenerater s) + length vs * length (connection_sptr_vector lt) < 2 ^ 32 \<Longrightarrow>
     session_onRead S sid (lt, w1) = Inr (lt', w') \<Longrightarrow>
     command_trace S V start lt' w' (asked @ map (Pair sid) vs)
       (h @ requests_of sid (chosen lt s (length vs)) (map resp_bytes vs))"
| trace_reply: "command_trace S V start lt w asked h \<Longrightarrow> sent V w1 = sent V w \<Longrightarrow>
     clients lt cid = Some c \<Longrightarrow> bev_sptr c = Bev bc \<Longrightarrow> legible S (inq V w1 bc) rs rest \<Longrightarrow>
     length rs \<le> length (session_queue c) \<Longrightarrow> redis_onRead S cid (lt, w1) = Inr (lt', w') \<Longrightarrow>
     command_trace S V start lt' w' asked (h @ map (Reply cid) (map resp_bytes rs))"

lemma trace_proxy:
  assumes "command_trace S V start lt w asked h"
  shows "proxy_run S V start lt w h"
  using assms
proof (induction rule: command_trace.induct)
  case (trace_start lt w)
  then show ?case by (rule proxy_run.proxy_start)
next
  case (trace_command lt w asked h w1 sid s b vs rest lt' w')
  from trace_command.hyps(4) obtain ts p where i: "inq V w1 b = tokens_bytes ts @ p" "list_all plain ts" "cut_ok S p"
    "taken_msgs ts p = map resp_bytes vs" "length (inq V w1 b) < 2 ^ 32" by (rule legibleE)
  have "unat (sIdGenerater s) + length (taken_msgs ts p) * length (connection_sptr_vector lt) < 2 ^ 32"
    using trace_command.hyps(5) i(4) by simp
  from proxy_run.proxy_request [OF trace_command.IH trace_command.hyps(2,3) i(1-3,5) this trace_command.hyps(6)] i(4)
  show ?case by simp
next
  case (trace_reply lt w asked h w1 cid c bc rs rest lt' w')
  from trace_reply.hyps(5) obtain ts p where i: "inq V w1 bc = tokens_bytes ts @ p" "list_all plain ts" "cut_ok S p"
    "taken_msgs ts p = map resp_bytes rs" "length (inq V w1 bc) < 2 ^ 32" by (rule legibleE)
  from proxy_run.proxy_reply [OF trace_reply.IH trace_reply.hyps(2-4) i(1-3,5) _ trace_reply.hyps(7)] i(4)
    trace_reply.hyps(6) show ?case by simp
qed

section \<open>Everything that is asked is forwarded\<close>

fun forwarded :: "traffic list \<Rightarrow> (nat \<times> bytes) list" where
  "forwarded [] = []"
| "forwarded (Request cid sid m # h) = (sid, m) # forwarded h"
| "forwarded (Reply cid m # h) = forwarded h"

lemma forwarded_append [simp]: "forwarded (h @ h') = forwarded h @ forwarded h'"
  by (induction h rule: forwarded.induct) simp_all

lemma forwarded_requests: "length cids = length ms \<Longrightarrow> forwarded (requests_of sid cids ms) = map (Pair sid) ms"
proof (induction cids arbitrary: ms)
  case (Cons c cids)
  then show ?case by (cases ms) simp_all
qed simp

lemma forwarded_replies [simp]: "forwarded (map (Reply cid) ms) = []"
  by (induction ms) simp_all

lemma own_forwarded: "own_requests sid h = map snd (filter (\<lambda>(sid', m). sid' = sid) (forwarded h))"
  by (induction sid h rule: own_requests.induct) simp_all

definition some_open :: "loop_thread \<Rightarrow> bool" where
  "some_open lt \<longleftrightarrow> (\<exists>p \<in> set (connection_sptr_vector lt). open_handle (clients lt) p \<noteq> None)"

text \<open>What a run leaves as it is.\<close>

lemma trace_same:
  assumes "libevent_ok S V" and "no_failure S V" and "in_use lt0" and "command_trace S V (lt0, w0) lt w asked h"
  shows "in_use lt" and "connection_sptr_vector lt = connection_sptr_vector lt0"
    and "open_handle (clients lt) p = open_handle (clients lt0) p"
proof -
  note R = proxy_run_rel [OF trace_proxy [OF assms(4)] assms(1-3), unfolded proxy_rel_def split]
  show "in_use lt" and "connection_sptr_vector lt = connection_sptr_vector lt0" using R by simp_all
  have c: "clients lt = (\<lambda>cid. map_option (\<lambda>c. c\<lparr>session_queue := queues_after (conn_queues lt0) h cid\<rparr>) (clients lt0 cid))"
    using R by simp
  show "open_handle (clients lt) p = open_handle (clients lt0) p"
    unfolding c by (auto simp: open_handle_def split: option.splits)
qed

lemma trace_forwarded:
  assumes base: "libevent_ok S V" "no_failure S V" "in_use lt0" and o: "some_open lt0"
    and run: "command_trace S V (lt0, w0) lt w asked h"
  shows "forwarded h = map (apsnd resp_bytes) asked"
  using run
proof (induction rule: command_trace.induct)
  case (trace_command lt w asked h w1 sid s b vs rest lt' w')
  from o obtain p where p: "p \<in> set (connection_sptr_vector lt0)" "open_handle (clients lt0) p \<noteq> None"
    by (auto simp: some_open_def)
  note same = trace_same [OF base trace_command.hyps(1)]
  have "length (chosen lt s (length vs)) = length vs"
    using choices_open(1) [of p "connection_sptr_vector lt" "clients lt"] p same(2,3) by (simp add: chosen_def)
  then show ?case using trace_command.IH forwarded_requests [of "chosen lt s (length vs)" "map resp_bytes vs"] by (simp add: comp_def)
next
  case (trace_reply lt w asked h w1 cid c bc rs rest lt' w')
  then show ?case by (simp del: map_map)
qed simp

lemma trace_own:
  assumes "libevent_ok S V" and "no_failure S V" and "in_use lt0" and "some_open lt0"
    and "command_trace S V (lt0, w0) lt w asked h"
  shows "own_requests sid h = map resp_bytes (commands_of sid asked)"
  unfolding own_forwarded trace_forwarded [OF assms]
  by (simp add: commands_of_def filter_map comp_def case_prod_beta')

section \<open>Right replies\<close>

fun requests_on :: "nat \<Rightarrow> traffic list \<Rightarrow> bytes list" where
  "requests_on cid [] = []"
| "requests_on cid (Request cid' sid m # h) = (if cid' = cid then m # requests_on cid h else requests_on cid h)"
| "requests_on cid (Reply cid' m # h) = requests_on cid h"

fun replies_on :: "nat \<Rightarrow> traffic list \<Rightarrow> bytes list" where
  "replies_on cid [] = []"
| "replies_on cid (Request cid' sid m # h) = replies_on cid h"
| "replies_on cid (Reply cid' m # h) = (if cid' = cid then m # replies_on cid h else replies_on cid h)"

text \<open>No reply comes before its request.\<close>

fun never_unasked :: "(nat \<Rightarrow> nat list) \<Rightarrow> traffic list \<Rightarrow> bool" where
  "never_unasked q [] \<longleftrightarrow> True"
| "never_unasked q (Request cid sid m # h) \<longleftrightarrow> never_unasked (q(cid := q cid @ [sid])) h"
| "never_unasked q (Reply cid m # h) \<longleftrightarrow> q cid \<noteq> [] \<and> never_unasked (q(cid := tl (q cid))) h"

lemma never_unasked_append: "never_unasked q (h @ h') \<longleftrightarrow> never_unasked q h \<and> never_unasked (queues_after q h) h'"
  by (induction q h rule: never_unasked.induct) (simp_all del: fun_upd_apply)

lemma never_unasked_requests: "never_unasked q (requests_of sid cids ms)"
proof (induction cids arbitrary: q ms)
  case (Cons c cids)
  then show ?case by (cases ms) (simp_all del: fun_upd_apply)
qed simp

lemma never_unasked_replies: "length ms \<le> length (q cid) \<Longrightarrow> never_unasked q (map (Reply cid) ms)"
proof (induction ms arbitrary: q)
  case (Cons m ms)
  then show ?case by (cases "q cid") simp_all
qed simp

lemma trace_never_unasked:
  assumes base: "libevent_ok S V" "no_failure S V" "in_use lt0" and run: "command_trace S V (lt0, w0) lt w asked h"
  shows "never_unasked (conn_queues lt0) h"
  using run
proof (induction rule: command_trace.induct)
  case (trace_reply lt w asked h w1 cid c bc rs rest lt' w')
  note R = proxy_run_rel [OF trace_proxy [OF trace_reply.hyps(1)] base, unfolded proxy_rel_def split]
  then have "session_queue c = queues_after (conn_queues lt0) h cid" using trace_reply.hyps(3) by auto
  then have "never_unasked (queues_after (conn_queues lt0) h) (map (Reply cid) (map resp_bytes rs))"
    using never_unasked_replies [of "map resp_bytes rs" "queues_after (conn_queues lt0) h" cid] trace_reply.hyps(6) by simp
  then show ?case using trace_reply.IH by (simp add: never_unasked_append)
qed (simp_all add: never_unasked_append never_unasked_requests)

text \<open>If every connection answers its requests in order, rightly, then all exchanges are right.\<close>

lemma exchanges_right:
  assumes "\<And>cid. list_all2 right (take (length (replies_on cid h)) (map snd (q cid) @ requests_on cid h)) (replies_on cid h)"
    and "never_unasked (\<lambda>cid. map fst (q cid)) h"
  shows "\<forall>(sid, r, m) \<in> set (exchanges q h). right r m"
  using assms
proof (induction q h rule: exchanges.induct)
  case (2 q cid sid m h)
  let ?q = "q(cid := q cid @ [(sid, m)])"
  have "map snd (?q c) @ requests_on c h = map snd (q c) @ requests_on c (Request cid sid m # h)" for c by auto
  then have "list_all2 right (take (length (replies_on c h)) (map snd (?q c) @ requests_on c h)) (replies_on c h)" for c
    using 2(2) [of c] by (simp only: replies_on.simps)
  moreover have "(\<lambda>c. map fst (?q c)) = (\<lambda>c. map fst (q c))(cid := map fst (q cid) @ [sid])" by auto
  then have "never_unasked (\<lambda>c. map fst (?q c)) h" using 2(3) by (simp only: never_unasked.simps)
  ultimately show ?case unfolding exchanges.simps by (rule 2(1))
next
  case (3 q cid m h)
  from 3(4) obtain sid r rest where q: "q cid = (sid, r) # rest" by (cases "q cid") auto
  let ?q = "q(cid := rest)"
  have "list_all2 right (take (length (replies_on c h)) (map snd (?q c) @ requests_on c h)) (replies_on c h)" for c
    using 3(3) [of c] q by (cases "c = cid") auto
  moreover have "(\<lambda>c. map fst (?q c)) = (\<lambda>c. map fst (q c))(cid := tl (map fst (q cid)))" using q by auto
  then have "never_unasked (\<lambda>c. map fst (?q c)) h" using 3(4) by (simp only: never_unasked.simps)
  ultimately have "\<forall>(sid, r, m) \<in> set (exchanges ?q h). right r m" by (rule 3(2) [OF q refl])
  moreover have "right r m" using 3(3) [of cid] q by simp
  ultimately show ?case using q by simp
qed simp

section \<open>Taking turns\<close>



fun targets :: "nat \<Rightarrow> traffic list \<Rightarrow> nat list" where
  "targets sid [] = []"
| "targets sid (Request cid sid' m # h) = (if sid' = sid then cid # targets sid h else targets sid h)"
| "targets sid (Reply cid m # h) = targets sid h"

lemma targets_append [simp]: "targets sid (h @ h') = targets sid h @ targets sid h'"
  by (induction sid h rule: targets.induct) simp_all


lemma targets_replies [simp]: "targets sid (map (Reply cid) ms) = []"
  by (induction ms) simp_all

text \<open>The connection whose turn it is at a count of \<open>k\<close>.\<close>

definition turn :: "loop_thread \<Rightarrow> nat \<Rightarrow> nat" where
  "turn lt k = the (connection_sptr_vector lt ! (k mod length (connection_sptr_vector lt)))"


lemma chosen_all_open:
  assumes "all_open lt" and "connection_sptr_vector lt = connection_sptr_vector lt0"
  shows "chosen lt s n = map (\<lambda>j. turn lt0 (unat (sIdGenerater s) + j)) [0..<n]"
proof -
  have op: "\<And>p. p \<in> set (connection_sptr_vector lt) \<Longrightarrow> open_handle (clients lt) p \<noteq> None" and ne: "connection_sptr_vector lt \<noteq> []"
    using assms(1) by (auto simp: all_open_def)
  from choices_all_open [OF ne op] show ?thesis by (simp add: chosen_def assms(2) [symmetric] turn_def comp_def)
qed

lemma commands_of_append [simp]: "commands_of sid (a @ a') = commands_of sid a @ commands_of sid a'"
  by (simp add: commands_of_def)

lemma commands_of_session [simp]: "commands_of sid (map (Pair sid') vs) = (if sid' = sid then vs else [])"
  by (simp add: commands_of_def filter_map comp_def)

lemma trace_all_open:
  assumes "libevent_ok S V" and "no_failure S V" and "in_use lt0" and "command_trace S V (lt0, w0) lt w asked h" and "all_open lt0"
  shows "all_open lt"
  using assms(5) trace_same(2,3) [OF assms(1-4)] by (simp add: all_open_def)


text \<open>No read of a run is ever stuck.\<close>

lemma trace_read:
  assumes base: "libevent_ok S V" "no_failure S V" "in_use lt0" and run: "command_trace S V (lt0, w0) lt w asked h"
    and net: "sent V w1 = sent V w" and o: "open_session lt sid s b" and l: "legible S (inq V w1 b) vs rest"
    and g: "unat (sIdGenerater s) + length vs * length (connection_sptr_vector lt) < 2 ^ 32"
  obtains lt' w' where "session_onRead S sid (lt, w1) = Inr (lt', w')"
    "command_trace S V (lt0, w0) lt' w' (asked @ map (Pair sid) vs) (h @ requests_of sid (chosen lt s (length vs)) (map resp_bytes vs))"
proof -
  from l obtain ts p where i: "inq V w1 b = tokens_bytes ts @ p" "list_all plain ts" "cut_ok S p"
    "taken_msgs ts p = map resp_bytes vs" "length (inq V w1 b) < 2 ^ 32" by (rule legibleE)
  have g': "unat (sIdGenerater s) + length (taken_msgs ts p) * length (connection_sptr_vector lt) < 2 ^ 32" using g i(4) by simp
  obtain lt' w' where r: "session_onRead S sid (lt, w1) = Inr (lt', w')"
    using proxy_request_step [OF base(1,2) proxy_run_rel [OF trace_proxy [OF run] base] net o i(1,2,5,3) g'] by blast
  from that [OF r command_trace.trace_command [OF run net o l g r]] show thesis .
qed

lemma trace_answer:
  assumes base: "libevent_ok S V" "no_failure S V" "in_use lt0" and run: "command_trace S V (lt0, w0) lt w asked h"
    and net: "sent V w1 = sent V w" and c: "clients lt cid = Some c" "bev_sptr c = Bev bc"
    and l: "legible S (inq V w1 bc) rs rest" and n: "length rs \<le> length (session_queue c)"
  obtains lt' w' where "redis_onRead S cid (lt, w1) = Inr (lt', w')"
    "command_trace S V (lt0, w0) lt' w' asked (h @ map (Reply cid) (map resp_bytes rs))"
proof -
  from l obtain ts p where i: "inq V w1 bc = tokens_bytes ts @ p" "list_all plain ts" "cut_ok S p"
    "taken_msgs ts p = map resp_bytes rs" "length (inq V w1 bc) < 2 ^ 32" by (rule legibleE)
  have n': "length (taken_msgs ts p) \<le> length (session_queue c)" using n i(4) by simp
  obtain lt' w' where r: "redis_onRead S cid (lt, w1) = Inr (lt', w')"
    using proxy_reply_step [OF base(1,2) proxy_run_rel [OF trace_proxy [OF run] base] net c i(1,2,5,3) n'] by blast
  from that [OF r command_trace.trace_reply [OF run net c l n r]] show thesis .
qed

section \<open>Properties\<close>

text \<open>
  C2: with several connections the proxy is an array of first-in first-out queues. In any state a
  pool of any number of threads can reach, take a thread of which whoever waits for a reply is still
  in the map of sessions. From there on, its sessions send commands and its connections answer, every
  read finding \<open>legible\<close> input (RESP values without a CR in a payload, an array with elements only as the
  last, or the beginning of a value behind values that are no such arrays). Then each connection is
  sent its part of the commands, in their order; its queue holds the sessions of its unanswered ones; every
  client is sent the replies that take its places in the queues, in the order in which they come in;
  and if some connection is open, every command that was read has been forwarded once, in the order of
  the reads. (Input that is not legible can break the pairing: \<open>split_array_misroutes_reply\<close>.)
\<close>

theorem reachable_proxy_queues:
  assumes "libevent_ok S V" and "no_failure S V" and "creates_bufferevents S"
    and "pool_reaches S V user ([], w00) (lts, w0)" and "i < length lts"
    and "length (connection_sptr_vector (lts ! i)) + 1 < 2 ^ 16"
    and "queued_sessions (lts ! i) \<subseteq> snd ` set (fd_to_session_map (lts ! i))"
    and "command_trace S V (lts ! i, w0) lt w asked h"
  shows "(\<forall>cid c0. clients (lts ! i) cid = Some c0 \<longrightarrow>
      clients lt cid = Some (c0\<lparr>session_queue := queues_after (conn_queues (lts ! i)) h cid\<rparr>)) \<and>
    (\<forall>cid b. bev_of (lts ! i) (Inr cid) = Some b \<longrightarrow> sent V w b = sent V w0 b @ requested cid h) \<and>
    (\<forall>sid b. session_handle (sessions (lts ! i)) sid = Some b \<longrightarrow>
      sent V w b = sent V w0 b @ received sid (deliveries (conn_queues (lts ! i)) h)) \<and>
    (some_open (lts ! i) \<longrightarrow> forwarded h = map (apsnd resp_bytes) asked)"
proof -
  note u = pool_in_use [OF assms(1,3-7)]
  show ?thesis
    using proxy_run_effect [OF assms(1,2) u trace_proxy [OF assms(8)]] trace_forwarded [OF assms(1,2) u _ assms(8)] by blast
qed

text \<open>
  C3: a client that waits for the reply to its last command before it sends the next one gets the
  replies to its commands in order, however many connections and other clients there are: every read
  finds \<open>legible\<close> input, some connection is open, and every connection is answered by a database that
  replies to the commands it gets in their order, each with a reply that is right for it (whatever
  \<open>right\<close> means). Then what the client has been sent are right replies to its first commands, one for
  each and in order, and at most one of its commands has no reply yet.
\<close>

theorem patient_client_answered_in_order:
  assumes "libevent_ok S V" and "no_failure S V" and "in_use lt0" and "conn_queues lt0 = (\<lambda>_. [])" and "some_open lt0"
    and "command_trace S V (lt0, w0) lt w asked h" and "session_handle (sessions lt0) sid = Some b"
    and "patient (\<lambda>_. []) sid h"
    and "\<And>cid. list_all2 right (take (length (replies_on cid h)) (requests_on cid h)) (replies_on cid h)"
  shows "\<exists>rs. sent V w b = sent V w0 b @ concat rs \<and>
    list_all2 right (take (length rs) (map resp_bytes (commands_of sid asked))) rs \<and>
    length (commands_of sid asked) \<le> length rs + 1"
proof -
  note base = assms(1-3) and run = assms(6)
  let ?es = "exchanges_of sid h" and ?cmds = "map resp_bytes (commands_of sid asked)"
  have "received sid (deliveries (\<lambda>_. []) h) = concat (map snd ?es)"
    using deliveries_exchanges [of "\<lambda>_. []" h]
    by (simp add: received_def exchanges_of_def filter_map comp_def case_prod_beta')
  then have out: "sent V w b = sent V w0 b @ concat (map snd ?es)"
    using proxy_run_effect(3) [OF base trace_proxy [OF run] assms(7)] assms(4) by simp
  have "unanswered (\<lambda>_. []) sid []" by (auto simp: unanswered_def waits_def fun_eq_iff)
  from patient_in_order [OF assms(8) this] obtain rest where "own_requests sid h = map fst ?es @ rest" "length rest \<le> 1"
    by (auto simp: exchanges_of_def unanswered_def comp_def case_prod_beta')
  then have cmds: "?cmds = map fst ?es @ rest" "length rest \<le> 1" using trace_own [OF base assms(5) run, of sid] by simp_all
  have "never_unasked (\<lambda>cid. map fst ([] :: (nat \<times> bytes) list)) h"
    using trace_never_unasked [OF base run] assms(4) by simp
  then have "\<forall>(sid, r, m) \<in> set (exchanges (\<lambda>_. []) h). right r m" by (intro exchanges_right) (simp_all add: assms(9))
  then have "\<forall>(r, m) \<in> set ?es. right r m" by (auto simp: exchanges_of_def)
  then have "list_all2 right (map fst ?es) (map snd ?es)" by (auto simp: list_all2_map1 list_all2_map2 list.rel_refl_strong case_prod_beta')
  moreover have "take (length (map snd ?es)) ?cmds = map fst ?es" using cmds by simp
  moreover have "length (commands_of sid asked) \<le> length (map snd ?es) + 1" using arg_cong [OF cmds(1), of length] cmds(2) by simp
  ultimately show ?thesis using out by (intro exI [of _ "map snd ?es"]) simp
qed


section \<open>Witnesses\<close>

abbreviation asked_world :: sim where "asked_world \<equiv> with_input (sim_state [] []) 0 (tokens_bytes ping)"

lemma demo_legible_input:
  "legible sim_sys (inq sim_view (with_input w b (tokens_bytes ping)) b) [ping_value] []"
  "legible sim_sys (inq sim_view (with_input w b (tokens_bytes pong)) b) [pong_value] []"
  unfolding with_input_net(2) by (rule demo_legible)+

text \<open>The client of \<open>demo_pair\<close> asks, and asks again.\<close>

lemma demo_trace:
  obtains lt1 w1 lt2 w2 where
    "command_trace sim_sys sim_view (demo_pair, asked_world) lt1 w1 [(0, ping_value)] [Request 1 0 (tokens_bytes ping)]"
    "command_trace sim_sys sim_view (demo_pair, asked_world) lt2 w2 [(0, ping_value), (0, ping_value)]
       [Request 1 0 (tokens_bytes ping), Request 2 0 (tokens_bytes ping)]"
proof -
  note base = sim_ok sim_no_failure demo_pair_ok(1)
  have run0: "command_trace sim_sys sim_view (demo_pair, asked_world) demo_pair asked_world [] []"
    by (rule command_trace.trace_start) (rule refl)
  have g: "unat (sIdGenerater demo_session) + length [ping_value] * length (connection_sptr_vector demo_pair) < 2 ^ 32" by simp
  have c1: "chosen demo_pair demo_session 1 = [1]"
    using chosen_all_open [OF demo_pair_ok(2) refl, of demo_session 1] by (simp add: turn_def)
  obtain lt1 w1 where r1: "session_onRead sim_sys 0 (demo_pair, asked_world) = Inr (lt1, w1)"
    and "command_trace sim_sys sim_view (demo_pair, asked_world) lt1 w1 ([] @ map (Pair 0) [ping_value])
      ([] @ requests_of 0 (chosen demo_pair demo_session (length [ping_value])) (map resp_bytes [ping_value]))"
    by (rule trace_read [OF base run0 refl demo_pair_ok(3) demo_legible_input(1) g])
  then have run1: "command_trace sim_sys sim_view (demo_pair, asked_world) lt1 w1 [(0, ping_value)] [Request 1 0 (tokens_bytes ping)]"
    using c1 by simp
  note same = trace_same [OF base run1] and op = trace_all_open [OF base run1 demo_pair_ok(2)]
  let ?s = "demo_session\<lparr>sIdGenerater := 1\<rparr>"
  have o1: "open_session lt1 0 ?s 0"
    using session_reads_one(1) [OF base(1,2) demo_pair_ok(1-3) with_input_net(2) demo_messages(1) _ r1] by simp
  have g1: "unat (sIdGenerater ?s) + length [ping_value] * length (connection_sptr_vector lt1) < 2 ^ 32" using same(2) by simp
  have c2: "chosen lt1 ?s 1 = [2]" using chosen_all_open [OF op same(2), of ?s 1] by (simp add: turn_def)
  obtain lt2 w2 where "command_trace sim_sys sim_view (demo_pair, asked_world) lt2 w2 ([(0, ping_value)] @ map (Pair 0) [ping_value])
      ([Request 1 0 (tokens_bytes ping)] @ requests_of 0 (chosen lt1 ?s (length [ping_value])) (map resp_bytes [ping_value]))"
    by (rule trace_read [OF base run1 with_input_net(1) o1 demo_legible_input(1) g1])
  then have "command_trace sim_sys sim_view (demo_pair, asked_world) lt2 w2 [(0, ping_value), (0, ping_value)]
       [Request 1 0 (tokens_bytes ping), Request 2 0 (tokens_bytes ping)]" using c2 by simp
  with run1 show thesis by (rule that)
qed


lemma patient_client_answered_in_order_witness:
  "\<exists>(lt :: loop_thread) w rs. sent sim_view w 0 = concat rs \<and> list_all2 (\<lambda>r m. m = tokens_bytes pong) (take (length rs) [tokens_bytes ping]) rs \<and>
     length rs = 1"
proof -
  note base = sim_ok sim_no_failure demo_pair_ok(1)
  let ?h = "[Request 1 0 (tokens_bytes ping), Reply 1 (tokens_bytes pong)]"
  obtain lt1 w1 where run1: "command_trace sim_sys sim_view (demo_pair, asked_world) lt1 w1 [(0, ping_value)] [Request 1 0 (tokens_bytes ping)]"
    by (rule demo_trace)
  let ?c = "(demo_client [])\<lparr>session_queue := queues_after (\<lambda>_. []) [Request 1 0 (tokens_bytes ping)] 1\<rparr>"
  have b: "bev_sptr ?c = Bev 1" and n: "length [pong_value] \<le> length (session_queue ?c)" by simp_all
  obtain lt w where "command_trace sim_sys sim_view (demo_pair, asked_world) lt w [(0, ping_value)]
      ([Request 1 0 (tokens_bytes ping)] @ map (Reply 1) (map resp_bytes [pong_value]))"
    by (rule trace_answer [OF base run1 with_input_net(1) demo_pair_clients(1) [OF trace_proxy [OF run1]] b demo_legible_input(2) n])
  then have run: "command_trace sim_sys sim_view (demo_pair, asked_world) lt w [(0, ping_value)] ?h" by simp
  have o: "some_open demo_pair" by (simp add: some_open_def open_handle_def)
  have p: "patient (\<lambda>_. []) 0 ?h" by simp
  have r: "list_all2 (\<lambda>r m. m = tokens_bytes pong) (take (length (replies_on cid ?h)) (requests_on cid ?h)) (replies_on cid ?h)" for cid
    by (cases "cid = 1") simp_all
  have e: "sent sim_view asked_world 0 = []" by (simp add: sim_view_def sim_state_def)
  obtain rs where rs: "sent sim_view w 0 = sent sim_view asked_world 0 @ concat rs"
    "list_all2 (\<lambda>r m. m = tokens_bytes pong) (take (length rs) (map resp_bytes (commands_of 0 [(0, ping_value)]))) rs"
    using patient_client_answered_in_order [OF base demo_pair_ok(4) o run open_session_handle [OF demo_pair_ok(3)] p r] by blast
  have "sent sim_view w 0 = tokens_bytes pong"
    using proxy_run_effect(3) [OF base trace_proxy [OF run] open_session_handle [OF demo_pair_ok(3)]] e
    by (simp add: demo_pair_ok(4) received_def)
  then have "rs \<noteq> []" using rs(1) e by auto
  moreover have "length rs \<le> 1" using list_all2_lengthD [OF rs(2)] by (simp add: commands_of_def)
  ultimately have "length rs = 1" by (cases rs) simp_all
  moreover have "map resp_bytes (commands_of 0 [(0, ping_value)]) = [tokens_bytes ping]" by (simp add: commands_of_def)
  ultimately show ?thesis using rs unfolding e append_Nil by metis
qed

text \<open>The pool of \<open>Pool_Multiplex\<close>, whose thread has accepted a client and connected to the database.\<close>

lemma reachable_proxy_queues_witness:
  "\<exists>(lt :: loop_thread) w w'. sent sim_view w' 3 = sent sim_view w 3 @ tokens_bytes ping \<and>
     clients lt 1 = Some (demo_backend\<lparr>isConnected := True, session_queue := [0]\<rparr>)"
proof -
  obtain w where r: "pool_reaches sim_sys sim_view (\<lambda>_. True) ([], sim_state [] []) ([demo_connected], w)"
    using demo_pool_connected by blast
  let ?lt = "[demo_connected] ! 0" and ?c = "demo_backend\<lparr>isConnected := True\<rparr>" and ?s = "(new_tcp_session 9 7)\<lparr>s_bev_sptr := Bev 2\<rparr>"
  have t: "connection_sptr_vector ?lt = [Some 1]" "clients ?lt = [1 \<mapsto> ?c]"
    "sessions ?lt = sessions demo_accepted" "fd_to_session_map ?lt = fd_to_session_map demo_accepted"
    using demo_accepted_sel(8)
    by (simp_all add: demo_connected_def add_connection_def) (simp add: demo_accepted_def demo_started_def new_loop_thread_def)
  have c: "session_queue ?c = []" "bev_sptr ?c = Bev 3" "\<not> isClosing ?c" by (simp_all add: demo_backend_def new_redis_client_def)
  have vec: "length (connection_sptr_vector ?lt) + 1 < 2 ^ 16" by (simp only: t) simp
  have q: "queued_sessions ?lt \<subseteq> snd ` set (fd_to_session_map ?lt)" "conn_queues ?lt = (\<lambda>_. [])"
    using c(1) by (auto simp only: queued_sessions_def conn_queues_def t fun_eq_iff) (auto split: if_splits)
  have u: "in_use ?lt" by (rule pool_in_use [OF sim_ok sim_creates r _ vec q(1)]) simp
  have o: "open_session ?lt 0 ?s 2"
    using t(3,4) demo_accepted_sel(2,6) by (simp add: open_session_def new_tcp_session_def)
  have a: "all_open ?lt" unfolding all_open_def t using c(2,3) by (simp add: open_handle_def)
  have g: "unat (sIdGenerater ?s) + length [ping_value] * length (connection_sptr_vector ?lt) < 2 ^ 32"
    by (simp only: t) (simp add: new_tcp_session_def)
  have "chosen ?lt ?s 1 = [1]" using chosen_all_open [OF a refl, of ?s 1] by (simp only: turn_def t) simp
  moreover have run0: "command_trace sim_sys sim_view (?lt, w) ?lt w [] []" by (rule command_trace.trace_start) (rule refl)
  obtain lt1 w1 where "command_trace sim_sys sim_view (?lt, w) lt1 w1 ([] @ map (Pair 0) [ping_value])
      ([] @ requests_of 0 (chosen ?lt ?s (length [ping_value])) (map resp_bytes [ping_value]))"
    by (rule trace_read [OF sim_ok sim_no_failure u run0 with_input_net(1) o demo_legible_input(1) g])
  ultimately have run: "command_trace sim_sys sim_view (?lt, w) lt1 w1 [(0, ping_value)] [Request 1 0 (tokens_bytes ping)]" by simp
  have "bev_of ?lt (Inr 1) = Some 3" using c(2) by (simp only: bev_of_def t) simp
  with reachable_proxy_queues [OF sim_ok sim_no_failure sim_creates r _ vec q(1) run] t(2) q(2)
  have "sent sim_view w1 3 = sent sim_view w 3 @ tokens_bytes ping" "clients lt1 1 = Some (?c\<lparr>session_queue := [0]\<rparr>)" by simp_all
  then show ?thesis by auto
qed

end
