(* ===== verification/Stale_Delete.thy ===== *)
theory Stale_Delete
  imports Proxy_Props Pool_Props
begin

text \<open>
  A deletion goes by file descriptor. A run of six callbacks in which the deletion that one session
  asked for ends the session of another client: two events on a session that waits for a reply, the
  reply in between, and a new client that is given the same descriptor.
\<close>

section \<open>The steps\<close>

text \<open>The deletion task of a session that a reply queue holds only takes it out of the map.\<close>

lemma process_one_deletion:
  assumes "task_queue lt = [del_session fd]"
  shows "process_msg S J (lt, w) = map_erase S fd (lt\<lparr>task_queue := []\<rparr>) w"
  using assms by (simp add: process_msg_def take_tasks_def deliver_all_single process_del_session del: deliver_all.simps)

lemma map_erase_unreferenced:
  assumes "map_of (fd_to_session_map lt) fd = Some sid" and "sessions lt sid = Some s"
    and "sid \<notin> snd ` set (AList.delete fd (fd_to_session_map lt))" and "sid \<notin> queued_sessions lt"
  shows "map_erase S fd lt w = andThen (sptr_release S (s_bev_sptr s) w) (\<lambda>w'.
    Inr (lt\<lparr>fd_to_session_map := AList.delete fd (fd_to_session_map lt), sessions := (sessions lt)(sid := None)\<rparr>, w'))"
proof -
  let ?lt = "lt\<lparr>fd_to_session_map := AList.delete fd (fd_to_session_map lt)\<rparr>"
  have q: "queued_sessions ?lt = queued_sessions lt" by (rule queued_sessions_cong) simp_all
  show ?thesis
    using assms by (simp add: map_erase_def session_unref_def session_referenced_def q session_destroy_release)
qed

text \<open>A session waits at the front of the queue of a connection, and nowhere else.\<close>

definition waits_first :: "loop_thread \<Rightarrow> nat \<Rightarrow> nat \<Rightarrow> redis_client \<Rightarrow> nat list \<Rightarrow> bool" where
  "waits_first lt sid cid c others \<longleftrightarrow> clients lt cid = Some c \<and> Some cid \<in> set (connection_sptr_vector lt) \<and>
     session_queue c = sid # others \<and> sid \<notin> set others \<and>
     (\<forall>k c'. clients lt k = Some c' \<longrightarrow> k \<noteq> cid \<longrightarrow> sid \<notin> set (session_queue c'))"

lemma waits_first_queued: "waits_first lt sid cid c others \<Longrightarrow> sid \<in> queued_sessions lt"
  unfolding waits_first_def queued_sessions_def by (auto intro!: bexI [of _ "Some cid"])

lemma waits_first_answered:
  assumes "waits_first lt sid cid c others" and "clients lt' = (clients lt)(cid \<mapsto> c\<lparr>session_queue := others\<rparr>)"
  shows "sid \<notin> queued_sessions lt'"
  using assms by (auto simp: waits_first_def queued_sessions_def split: option.splits if_splits)

text \<open>Its reply releases a session that is gone from the map, and with it its bufferevent.\<close>

lemma reply_releases:
  assumes S: "libevent_ok S V" "no_failure S V" and q: "waits_first lt sid cid c others" and c: "bev_sptr c = Bev bc"
    and s: "sessions lt sid = Some s" "s_isClosing s" "s_bev_sptr s = Bev b" "sid \<notin> snd ` set (fd_to_session_map lt)"
    and input: "legible S (inq V w bc) [r] []"
  shows "\<exists>w'. redis_onRead S cid (lt, w) =
      Inr (lt\<lparr>clients := (clients lt)(cid \<mapsto> c\<lparr>session_queue := others\<rparr>), sessions := (sessions lt)(sid := None)\<rparr>, w') \<and>
    live V w' = live V w - {b}"
proof -
  have c': "clients lt cid = Some c" "session_queue c = sid # others" using q by (simp_all add: waits_first_def)
  obtain ts p where i: "inq V w bc = tokens_bytes ts @ p" "list_all plain ts" "cut_ok S p" and t: "taken_msgs ts p = [resp_bytes r]"
    and l: "length (inq V w bc) < 2 ^ 32" by (rule legibleE [OF input]) simp
  let ?lt1 = "lt\<lparr>clients := (clients lt)(cid \<mapsto> c\<lparr>session_queue := others\<rparr>)\<rparr>"
  let ?lt' = "?lt1\<lparr>sessions := (sessions lt)(sid := None)\<rparr>"
  have unref: "\<not> session_referenced ?lt1 sid"
    using s(4) waits_first_answered [OF q, of ?lt1] by (simp add: session_referenced_def)
  have one: "deliver_all (answer S cid) [resp_bytes r] (lt, w1) = Inr (?lt', bufferevent_free S b w1)" for w1
    using c' s unref
    by (simp add: deliver_all_single answer_def redis_cb_def mem_slice_whole session_send_refused session_unref_def
        session_destroy_release del: deliver_all.simps)
  have ne: "inq V w bc \<noteq> []" using input by (auto simp: legible_def arrives_def)
  obtain w1 where k: "keeps V w w1" and run: "redis_onRead S cid (lt, w) =
      andThen (deliver_all (answer S cid) (taken_msgs ts p) (lt, w1))
        (\<lambda>\<sigma>. Inr (if taken_msgs ts p = [] then \<sigma> else snd (cli_drain S cid (length (concat (taken_msgs ts p))) \<sigma>)))"
    by (rule redis_reads [OF S c'(1) c i(1,2) ne l i(3)])
  obtain ok w2 where d: "drainInputBuffer S (c\<lparr>session_queue := others\<rparr>) (length (resp_bytes r)) (bufferevent_free S b w1) = (ok, w2)"
    by (rule prod.exhaust)
  have "bev_sptr (c\<lparr>session_queue := others\<rparr>) = Bev bc" using c by simp
  from socket_read_laws(3) [OF S(1) this d] bufferevent_free_ok(1) [OF S(1), of b w1] k
  have "live V w2 = live V w - {b}" by (simp add: keeps_def)
  moreover have "redis_onRead S cid (lt, w) = Inr (?lt', w2)"
    unfolding run t one by (simp add: cli_drain_def d)
  ultimately show ?thesis by auto
qed

text \<open>A new client on a descriptor that the map does not know.\<close>

lemma new_client:
  assumes "map_of (fd_to_session_map lt) fd = None" and "handle S J (Accepted fd) (lt, w) = Inr (lt', w')"
  obtains s where "s_fd s = fd" "\<not> s_isClosing s"
    "lt' = lt\<lparr>sessions := (sessions lt)(next_addr lt \<mapsto> s), next_addr := Suc (next_addr lt),
             fd_to_session_map := AList.update fd (next_addr lt) (fd_to_session_map lt)\<rparr>"
proof -
  obtain ok s w1 where i: "session_init S (new_tcp_session fd (junk_counter J (next_addr lt)))
      (make_socket_nonblocking S fd w) = Inr (ok, s, w1)"
    and r: "map_insert S fd (next_addr lt) (lt\<lparr>sessions := (sessions lt)(next_addr lt \<mapsto> s), next_addr := Suc (next_addr lt)\<rparr>) w1
      = Inr (lt', w')"
    using assms(2) by (auto simp: listenEventCallback_def add_session_def Let_def split: if_splits)
  have "s_fd s = fd \<and> \<not> s_isClosing s"
    using i by (auto simp: session_init_def new_tcp_session_def Let_def split: prod.splits option.splits if_splits)
  with that [of s] r assms(1) show thesis by (simp add: map_insert_def)
qed

section \<open>The run\<close>

text \<open>
  C37: the deletion a session asks for goes by file descriptor, and can end the session of another
  client. In this run a session with descriptor \<open>s_fd s\<close> waits for a reply when (1) an event makes it
  ask for its deletion, (2) the loop takes it out of the map, (3) a second event makes it ask again,
  (4) its reply arrives, which releases it: it is destroyed and its bufferevent, so the descriptor, is
  given back, (5) a new client is accepted on the same descriptor and enters the map, and (6) the loop
  processes the task of (3): the session of the new client is taken out of the map and destroyed with
  its bufferevent, though no event happened on it. Between the steps the outside world may change in
  any way.
\<close>

theorem stale_delete_hits_new_session:
  assumes S: "libevent_ok S V" "no_failure S V"
    and wf: "well_formed lt" and "evfd lt \<noteq> 0" and "task_queue lt = []"
    and s: "sessions lt sid = Some s" "s_bev_sptr s = Bev b"
    and m: "map_of (fd_to_session_map lt) (s_fd s) = Some sid" "sid \<notin> snd ` set (AList.delete (s_fd s) (fd_to_session_map lt))"
    and q: "waits_first lt sid cid c others" and "bev_sptr c = Bev bc"
    and step1: "handle S J (SessionEvent sid events1) (lt, w) = Inr (lt1, w1)"
    and step2: "process_msg S J (lt1, v1) = Inr (lt2, w2)"
    and step3: "handle S J (SessionEvent sid events2) (lt2, v2) = Inr (lt3, w3)"
    and step4: "legible S (inq V v3 bc) [r] []" "handle S J (ClientRead cid) (lt3, v3) = Inr (lt4, w4)"
    and step5: "handle S J (Accepted (s_fd s)) (lt4, v4) = Inr (lt5, w5)"
    and step6: "process_msg S J (lt5, v5) = Inr (lt6, w6)"
  shows "sessions lt4 sid = None \<and> live V w4 = live V v3 - {b} \<and>
    (\<exists>sid' s'. sid' \<noteq> sid \<and> sessions lt4 sid' = None \<and> sessions lt5 sid' = Some s' \<and> \<not> s_isClosing s' \<and>
       map_of (fd_to_session_map lt5) (s_fd s) = Some sid' \<and>
       sessions lt6 sid' = None \<and> map_of (fd_to_session_map lt6) (s_fd s) = None \<and>
       (\<forall>b'. s_bev_sptr s' = Bev b' \<longrightarrow> w6 = bufferevent_free S b' v5))"
proof -
  let ?fd = "s_fd s" and ?s = "s\<lparr>s_isClosing := True\<rparr>" and ?a = "next_addr lt"
  let ?m = "AList.delete ?fd (fd_to_session_map lt)"
  obtain efd where e: "event_client_sptr lt = Some efd" using well_formedD(3) [OF wf assms(4)] by auto
  have tls: "tls_set lt" using well_formedD(1) [OF wf] .
  have sid: "sid \<noteq> ?a" using well_formedD(12) [OF wf, of sid] s(1) by auto
  have l1: "lt1 = lt\<lparr>sessions := (sessions lt)(sid \<mapsto> ?s), task_queue := [del_session ?fd]\<rparr>"
    using session_handleEvent_posts [OF tls s(1) assms(4) e, of S events1 w] step1 assms(5) by auto
  define lt2' where "lt2' = lt\<lparr>sessions := (sessions lt)(sid \<mapsto> ?s), fd_to_session_map := ?m\<rparr>"
  have "sid \<in> queued_sessions (lt1\<lparr>task_queue := []\<rparr>)"
    using waits_first_queued [OF q] queued_sessions_cong [of "lt1\<lparr>task_queue := []\<rparr>" lt] by (simp add: l1)
  then have "process_msg S J (lt1, v1) = Inr (lt1\<lparr>task_queue := [], fd_to_session_map := ?m\<rparr>, v1)"
    using process_one_deletion [of lt1 ?fd S J v1] map_erase_session [of "lt1\<lparr>task_queue := []\<rparr>" ?fd sid ?s b S v1] s m
    by (simp add: l1)
  with step2 have l2: "lt2 = lt2'" by (simp add: l1 lt2'_def assms(5))
  have "sessions lt2' sid = Some ?s" "evfd lt2' \<noteq> 0" "event_client_sptr lt2' = Some efd" "tls_set lt2'"
    using assms(4) e tls by (simp_all add: lt2'_def)
  from session_handleEvent_posts [OF this(4,1,2,3), of S events2 v2] step3
  have l3: "lt3 = lt2'\<lparr>task_queue := [del_session ?fd]\<rparr>" by (auto simp: l2 lt2'_def assms(5))
  have q3: "waits_first lt3 sid cid c others" using q by (simp add: waits_first_def l3 lt2'_def)
  have "sessions lt3 sid = Some ?s" "s_isClosing ?s" "s_bev_sptr ?s = Bev b" "sid \<notin> snd ` set (fd_to_session_map lt3)"
    using s m(2) by (simp_all add: l3 lt2'_def)
  from reply_releases [OF S q3 assms(11) this step4(1)] step4(2)
  have l4: "lt4 = lt3\<lparr>clients := (clients lt3)(cid \<mapsto> c\<lparr>session_queue := others\<rparr>), sessions := (sessions lt3)(sid := None)\<rparr>"
    and w4: "live V w4 = live V v3 - {b}" by auto
  have a4: "next_addr lt4 = ?a" "sessions lt4 ?a = None" "fd_to_session_map lt4 = ?m"
    using well_formedD(10) [OF wf] sid by (simp_all add: l4 l3 lt2'_def)
  have "map_of (fd_to_session_map lt4) ?fd = None" by (simp add: a4(3) AList.delete_conv')
  from new_client [OF this step5] obtain s' where s': "\<not> s_isClosing s'" and
    l5: "lt5 = lt4\<lparr>sessions := (sessions lt4)(?a \<mapsto> s'), next_addr := Suc ?a, fd_to_session_map := AList.update ?fd ?a ?m\<rparr>"
    unfolding a4 by metis
  let ?lt = "lt5\<lparr>task_queue := []\<rparr>"
  have t5: "task_queue lt5 = [del_session ?fd]" by (simp add: l5 l4 l3)
  have "?a \<notin> snd ` set (fd_to_session_map lt)"
    using well_formed_map_dom [OF wf] well_formedD(10) [OF wf] by auto
  then have "?a \<notin> snd ` set (AList.delete ?fd (fd_to_session_map ?lt))"
    by (auto simp: l5 AList.delete_eq dest!: set_AList_update [THEN subsetD])
  moreover have "?a \<notin> queued_sessions ?lt"
    using well_formedD(7) [OF wf, of _ _ ?a] well_formedD(10) [OF wf] q
    by (fastforce simp: l5 l4 l3 lt2'_def queued_sessions_def waits_first_def split: option.splits if_splits)
  moreover have "map_of (fd_to_session_map ?lt) ?fd = Some ?a" "sessions ?lt ?a = Some s'"
    by (simp_all add: l5 AList.update_conv')
  ultimately have "map_erase S ?fd ?lt v5 = andThen (sptr_release S (s_bev_sptr s') v5) (\<lambda>w'.
      Inr (?lt\<lparr>fd_to_session_map := AList.delete ?fd (fd_to_session_map ?lt), sessions := (sessions ?lt)(?a := None)\<rparr>, w'))"
    by (intro map_erase_unreferenced)
  with step6 process_one_deletion [OF t5, of S J v5] have "sessions lt6 ?a = None" "map_of (fd_to_session_map lt6) ?fd = None"
    "\<forall>b'. s_bev_sptr s' = Bev b' \<longrightarrow> w6 = bufferevent_free S b' v5"
    by (auto simp: AList.delete_conv')
  moreover have "sessions lt5 ?a = Some s'" "map_of (fd_to_session_map lt5) ?fd = Some ?a" "sessions lt4 sid = None"
    by (simp_all add: l5 l4 AList.update_conv')
  ultimately show ?thesis using sid a4(2) s' w4 by metis
qed

text \<open>The run for the client on descriptor 3 of the thread \<open>demo_waiting\<close>.\<close>

definition demo_gone :: loop_thread where
  "demo_gone = demo_waiting\<lparr>sessions := [0 \<mapsto> demo_session\<lparr>s_isClosing := True\<rparr>], fd_to_session_map := []\<rparr>"

definition demo_again :: loop_thread where
  "demo_again = demo_gone\<lparr>task_queue := [del_session 3], clients := [1 \<mapsto> demo_client []], sessions := Map.empty\<rparr>"

definition demo_newcomer :: loop_thread where
  "demo_newcomer = demo_again\<lparr>sessions := [2 \<mapsto> (new_tcp_session 3 7)\<lparr>s_bev_sptr := Bev 2\<rparr>], next_addr := 3,
     fd_to_session_map := [(3, 2)]\<rparr>"

lemma demo_waiting_sel [simp]:
  "sessions demo_waiting = [0 \<mapsto> demo_session]" "clients demo_waiting = [1 \<mapsto> demo_client [0]]"
  "connection_sptr_vector demo_waiting = [Some 1]" "fd_to_session_map demo_waiting = [(3, 0)]"
  "tls_set demo_waiting" "evfd demo_waiting = 5" "event_client_sptr demo_waiting = Some 5"
  "task_queue demo_waiting = []" "next_addr demo_waiting = 2" "loop_sptr demo_waiting \<noteq> None"
  by (simp_all add: demo_waiting_def demo_thread_def demo_started_def new_loop_thread_def)

lemma demo_stale_run:
  obtains w1 w3 w4 w5 where
    "handle sim_sys demo_junk (SessionEvent 0 0x11) (demo_waiting, sim_state [] []) =
       Inr (demo_waiting\<lparr>sessions := [0 \<mapsto> demo_session\<lparr>s_isClosing := True\<rparr>], task_queue := [del_session 3]\<rparr>, w1)"
    "process_msg sim_sys demo_junk
       (demo_waiting\<lparr>sessions := [0 \<mapsto> demo_session\<lparr>s_isClosing := True\<rparr>], task_queue := [del_session 3]\<rparr>, w1) = Inr (demo_gone, w1)"
    "handle sim_sys demo_junk (SessionEvent 0 0x22) (demo_gone, w1) = Inr (demo_gone\<lparr>task_queue := [del_session 3]\<rparr>, w3)"
    "handle sim_sys demo_junk (ClientRead 1) (demo_gone\<lparr>task_queue := [del_session 3]\<rparr>,
       w3\<lparr>sim_in := (\<lambda>_. tokens_bytes pong)\<rparr>) = Inr (demo_again, w4)"
    "handle sim_sys demo_junk (Accepted 3) (demo_again, sim_state [] []) = Inr (demo_newcomer, w5)"
proof -
  let ?d1 = "demo_waiting\<lparr>sessions := [0 \<mapsto> demo_session\<lparr>s_isClosing := True\<rparr>], task_queue := [del_session 3]\<rparr>"
  let ?d3 = "demo_gone\<lparr>task_queue := [del_session 3]\<rparr>"
  obtain w1 where 1: "handle sim_sys demo_junk (SessionEvent 0 0x11) (demo_waiting, sim_state [] []) = Inr (?d1, w1)"
    using session_handleEvent_posts [of demo_waiting 0 demo_session 5 sim_sys "0x11" "sim_state [] []"] by auto
  have q: "waits_first demo_waiting 0 1 (demo_client [0]) []" by (simp add: waits_first_def)
  have "0 \<in> queued_sessions (?d1\<lparr>task_queue := []\<rparr>)"
    using waits_first_queued [OF q] queued_sessions_cong [of "?d1\<lparr>task_queue := []\<rparr>" demo_waiting] by simp
  then have 2: "process_msg sim_sys demo_junk (?d1, w1) = Inr (demo_gone, w1)"
    using process_one_deletion [of ?d1 3 sim_sys demo_junk w1]
      map_erase_session [of "?d1\<lparr>task_queue := []\<rparr>" 3 0 "demo_session\<lparr>s_isClosing := True\<rparr>" 0 sim_sys w1]
    by (simp add: demo_gone_def demo_waiting_def demo_thread_def new_loop_thread_def)
  obtain w3 where 3: "handle sim_sys demo_junk (SessionEvent 0 0x22) (demo_gone, w1) = Inr (?d3, w3)"
    using session_handleEvent_posts [of demo_gone 0 "demo_session\<lparr>s_isClosing := True\<rparr>" 5 sim_sys "0x22" w1]
    by (auto simp: demo_gone_def)
  let ?w = "w3\<lparr>sim_in := (\<lambda>_. tokens_bytes pong)\<rparr>"
  have q3: "waits_first ?d3 0 1 (demo_client [0]) []" using q by (simp add: waits_first_def demo_gone_def)
  have "legible sim_sys (inq sim_view ?w 1) [pong_value] []" using demo_legible(2) by (simp add: sim_view_def)
  from reply_releases [OF sim_ok sim_no_failure q3 _ _ _ _ _ this, of "demo_session\<lparr>s_isClosing := True\<rparr>" 0]
  obtain w4 where 4: "handle sim_sys demo_junk (ClientRead 1) (?d3, ?w) = Inr (demo_again, w4)"
    by (auto simp: demo_gone_def demo_again_def demo_client_def)
  have 5: "handle sim_sys demo_junk (Accepted 3) (demo_again, sim_state [] []) =
      Inr (demo_newcomer, snd (bufferevent_socket_new sim_sys 3 (sim_state [] [])))"
    by (simp add: listenEventCallback_def add_session_def session_init_def map_insert_def demo_junk_def sim_sys_def
        demo_newcomer_def demo_again_def demo_gone_def new_tcp_session_def sim_state_def Let_def)
  show thesis by (rule that [OF 1 2 3 4 5])
qed

lemma stale_delete_hits_new_session_witness:
  "\<exists>lt6 w5. process_msg sim_sys demo_junk (demo_newcomer, w5) = Inr (lt6, bufferevent_free sim_sys 2 w5) \<and>
     sessions lt6 2 = None"
proof -
  obtain w1 w3 w4 w5 where run:
    "handle sim_sys demo_junk (SessionEvent 0 0x11) (demo_waiting, sim_state [] []) =
       Inr (demo_waiting\<lparr>sessions := [0 \<mapsto> demo_session\<lparr>s_isClosing := True\<rparr>], task_queue := [del_session 3]\<rparr>, w1)"
    "process_msg sim_sys demo_junk
       (demo_waiting\<lparr>sessions := [0 \<mapsto> demo_session\<lparr>s_isClosing := True\<rparr>], task_queue := [del_session 3]\<rparr>, w1) = Inr (demo_gone, w1)"
    "handle sim_sys demo_junk (SessionEvent 0 0x22) (demo_gone, w1) = Inr (demo_gone\<lparr>task_queue := [del_session 3]\<rparr>, w3)"
    "handle sim_sys demo_junk (ClientRead 1) (demo_gone\<lparr>task_queue := [del_session 3]\<rparr>,
       w3\<lparr>sim_in := (\<lambda>_. tokens_bytes pong)\<rparr>) = Inr (demo_again, w4)"
    "handle sim_sys demo_junk (Accepted 3) (demo_again, sim_state [] []) = Inr (demo_newcomer, w5)"
    by (rule demo_stale_run)
  obtain lt6 w6 where 6: "process_msg sim_sys demo_junk (demo_newcomer, w5) = Inr (lt6, w6)"
    using process_one_deletion [of demo_newcomer 3 sim_sys demo_junk w5]
      map_erase_unreferenced [of "demo_newcomer\<lparr>task_queue := []\<rparr>" 3 2 "(new_tcp_session 3 7)\<lparr>s_bev_sptr := Bev 2\<rparr>" sim_sys w5]
    by (simp add: demo_newcomer_def demo_again_def demo_gone_def queued_sessions_def demo_client_def new_redis_client_def)
  have wf: "evfd demo_waiting \<noteq> 0" "sessions demo_waiting 0 = Some demo_session" "s_bev_sptr demo_session = Bev 0"
    "map_of (fd_to_session_map demo_waiting) (s_fd demo_session) = Some 0"
    "0 \<notin> snd ` set (AList.delete (s_fd demo_session) (fd_to_session_map demo_waiting))"
    "waits_first demo_waiting 0 1 (demo_client [0]) []" "bev_sptr (demo_client [0]) = Bev 1"
    by (simp_all add: waits_first_def)
  have input: "legible sim_sys (inq sim_view (w3\<lparr>sim_in := (\<lambda>_. tokens_bytes pong)\<rparr>) 1) [pong_value] []"
    using demo_legible(2) by (simp add: sim_view_def)
  have acc: "handle sim_sys demo_junk (Accepted (s_fd demo_session)) (demo_again, sim_state [] []) = Inr (demo_newcomer, w5)"
    using run(5) by simp
  from stale_delete_hits_new_session [OF sim_ok sim_no_failure demo_waiting_well_formed wf(1) demo_waiting_sel(8) wf(2-7)
      run(1,2,3) input run(4) acc 6]
  obtain sid' s' where "sessions demo_newcomer sid' = Some s'" "sessions lt6 sid' = None"
    "\<forall>b'. s_bev_sptr s' = Bev b' \<longrightarrow> w6 = bufferevent_free sim_sys b' w5" by blast
  moreover from this(1) have "sid' = 2" "s_bev_sptr s' = Bev 2" by (auto simp: demo_newcomer_def split: if_splits)
  ultimately show ?thesis using 6 by blast
qed

end
