(* ===== verification/Logger.thy ===== *)
theory Logger
  imports Cxx_Std
begin

text \<open>
  The logger every part writes to (\<open>src/include/logger.hpp\<close>, \<open>src/src/logger.cpp\<close>): levels, the
  threshold, what a line looks like, the active logger and the macro \<open>__LOG\<close>. The other theories
  leave the log calls out: a log call changes only the two output streams below.
\<close>

section \<open>Levels\<close>

datatype log_level = error | warn | info | debug

fun level_value :: "log_level \<Rightarrow> nat" where
  "level_value error = 0"
| "level_value warn = 1"
| "level_value info = 2"
| "level_value debug = 3"

lemma level_value_eq [simp]: "level_value a = level_value b \<longleftrightarrow> a = b"
  by (cases a; cases b; simp)

instantiation log_level :: linorder
begin

definition less_eq_log_level :: "log_level \<Rightarrow> log_level \<Rightarrow> bool" where
  "less_eq_log_level a b \<longleftrightarrow> level_value a \<le> level_value b"

definition less_log_level :: "log_level \<Rightarrow> log_level \<Rightarrow> bool" where
  "less_log_level a b \<longleftrightarrow> level_value a < level_value b"

instance
  by standard (auto simp: less_eq_log_level_def less_log_level_def)

end

section \<open>The logger\<close>

record logger =
  m_level :: log_level

definition new_logger :: "log_level \<Rightarrow> logger" where
  "new_logger level = \<lparr> m_level = level \<rparr>"

definition logger_set_log_level :: "log_level \<Rightarrow> logger \<Rightarrow> logger" where
  "logger_set_log_level level lg = lg\<lparr>m_level := level\<rparr>"

text \<open>What the program has written to its two streams.\<close>

record console =
  cout :: bytes
  cerr :: bytes

definition escape :: "bytes \<Rightarrow> bytes" where
  "escape code = CHR 0x1B # ''['' @ code @ ''m''"

definition black :: bytes where "black = escape ''1;30''"
definition red :: bytes where "red = escape ''1;31''"
definition yellow :: bytes where "yellow = escape ''1;33''"
definition blue :: bytes where "blue = escape ''1;34''"
definition normal :: bytes where "normal = escape ''0;39''"

definition log_line :: "bytes \<Rightarrow> bytes \<Rightarrow> bytes \<Rightarrow> bytes \<Rightarrow> nat \<Rightarrow> bytes" where
  "log_line colour tag msg file line =
     ''['' @ colour @ tag @ normal @ ''] ['' @ file @ '':'' @ to_string line @ ''] '' @ msg @ [LF]"

definition logger_debug :: "logger \<Rightarrow> bytes \<Rightarrow> bytes \<Rightarrow> nat \<Rightarrow> console \<Rightarrow> console" where
  "logger_debug lg msg file line con =
     (if m_level lg \<ge> debug then con\<lparr>cout := cout con @ log_line black ''DEBUG'' msg file line\<rparr> else con)"

definition logger_info :: "logger \<Rightarrow> bytes \<Rightarrow> bytes \<Rightarrow> nat \<Rightarrow> console \<Rightarrow> console" where
  "logger_info lg msg file line con =
     (if m_level lg \<ge> info then con\<lparr>cout := cout con @ log_line blue ''INFO '' msg file line\<rparr> else con)"

definition logger_warn :: "logger \<Rightarrow> bytes \<Rightarrow> bytes \<Rightarrow> nat \<Rightarrow> console \<Rightarrow> console" where
  "logger_warn lg msg file line con =
     (if m_level lg \<ge> warn then con\<lparr>cout := cout con @ log_line yellow ''WARN '' msg file line\<rparr> else con)"

definition logger_error :: "logger \<Rightarrow> bytes \<Rightarrow> bytes \<Rightarrow> nat \<Rightarrow> console \<Rightarrow> console" where
  "logger_error lg msg file line con =
     (if m_level lg \<ge> error then con\<lparr>cerr := cerr con @ log_line red ''ERROR'' msg file line\<rparr> else con)"

section \<open>The active logger\<close>

text \<open>The program starts with \<open>new logger(error)\<close>; the pointer may be null.\<close>

definition active_logger_at_start :: "logger option" where
  "active_logger_at_start = Some (new_logger error)"

definition debug_call :: "logger option \<Rightarrow> bytes \<Rightarrow> bytes \<Rightarrow> nat \<Rightarrow> console \<Rightarrow> console" where
  "debug_call a msg file line con = (case a of None \<Rightarrow> con | Some lg \<Rightarrow> logger_debug lg msg file line con)"

definition info_call :: "logger option \<Rightarrow> bytes \<Rightarrow> bytes \<Rightarrow> nat \<Rightarrow> console \<Rightarrow> console" where
  "info_call a msg file line con = (case a of None \<Rightarrow> con | Some lg \<Rightarrow> logger_info lg msg file line con)"

definition warn_call :: "logger option \<Rightarrow> bytes \<Rightarrow> bytes \<Rightarrow> nat \<Rightarrow> console \<Rightarrow> console" where
  "warn_call a msg file line con = (case a of None \<Rightarrow> con | Some lg \<Rightarrow> logger_warn lg msg file line con)"

definition error_call :: "logger option \<Rightarrow> bytes \<Rightarrow> bytes \<Rightarrow> nat \<Rightarrow> console \<Rightarrow> console" where
  "error_call a msg file line con = (case a of None \<Rightarrow> con | Some lg \<Rightarrow> logger_error lg msg file line con)"

definition set_log_level :: "log_level \<Rightarrow> logger option \<Rightarrow> logger option" where
  "set_log_level level a = (case a of None \<Rightarrow> None | Some lg \<Rightarrow> Some (logger_set_log_level level lg))"

text \<open>The macro names the function it is used in, and calls the function with the name of the level.\<close>

definition LOG :: "logger option \<Rightarrow> log_level \<Rightarrow> bytes \<Rightarrow> bytes \<Rightarrow> nat \<Rightarrow> bytes \<Rightarrow> console \<Rightarrow> console" where
  "LOG a level func file line msg =
     (let var = ''[fuction:'' @ func @ ''] '' @ msg
      in case level of error \<Rightarrow> error_call a var file line | warn \<Rightarrow> warn_call a var file line
         | info \<Rightarrow> info_call a var file line | debug \<Rightarrow> debug_call a var file line)"

section \<open>What gets written\<close>

text \<open>A log call of the program, and the line it stands for.\<close>

record log_call =
  lc_level :: log_level
  lc_func :: bytes
  lc_file :: bytes
  lc_line :: nat
  lc_text :: bytes

fun level_look :: "log_level \<Rightarrow> bytes \<times> bytes" where
  "level_look error = (red, ''ERROR'')"
| "level_look warn = (yellow, ''WARN '')"
| "level_look info = (blue, ''INFO '')"
| "level_look debug = (black, ''DEBUG'')"

definition written :: "log_call \<Rightarrow> bytes" where
  "written c = log_line (fst (level_look (lc_level c))) (snd (level_look (lc_level c)))
     (''[fuction:'' @ lc_func c @ ''] '' @ lc_text c) (lc_file c) (lc_line c)"

definition make_call :: "logger option \<Rightarrow> log_call \<Rightarrow> console \<Rightarrow> console" where
  "make_call a c = LOG a (lc_level c) (lc_func c) (lc_file c) (lc_line c) (lc_text c)"

definition shown :: "logger option \<Rightarrow> log_call \<Rightarrow> bool" where
  "shown a c \<longleftrightarrow> (case a of None \<Rightarrow> False | Some lg \<Rightarrow> lc_level c \<le> m_level lg)"

lemma make_call_effect:
  "make_call a c con =
     (if \<not> shown a c then con
      else if lc_level c = error then con\<lparr>cerr := cerr con @ written c\<rparr>
      else con\<lparr>cout := cout con @ written c\<rparr>)"
  by (cases a; cases "lc_level c")
    (simp_all add: make_call_def LOG_def shown_def written_def error_call_def warn_call_def info_call_def
      debug_call_def logger_error_def logger_warn_def logger_info_def logger_debug_def)

text \<open>
  Of any sequence of log calls exactly those at or below the threshold of the active logger are
  written, each as one line and in order, the errors to the error stream and all others to the
  output stream; without an active logger nothing is written.
\<close>

theorem log_threshold:
  "fold (make_call a) calls con =
     con\<lparr>cout := cout con @ concat (map written (filter (\<lambda>c. shown a c \<and> lc_level c \<noteq> error) calls)),
         cerr := cerr con @ concat (map written (filter (\<lambda>c. shown a c \<and> lc_level c = error) calls))\<rparr>"
  by (induction calls arbitrary: con) (auto simp: make_call_effect)

text \<open>Errors are written at every threshold, so raising the threshold never hides a line.\<close>

lemma error_always_shown: "lc_level c = error \<Longrightarrow> shown (Some lg) c"
  by (simp add: shown_def less_eq_log_level_def)

lemma shown_mono: "m_level lg \<le> m_level lg' \<Longrightarrow> shown (Some lg) c \<Longrightarrow> shown (Some lg') c"
  by (auto simp: shown_def intro: order_trans)

end
