(* ===== verification/Logger_Threads.thy ===== *)
theory Logger_Threads
  imports Logger
begin

text \<open>
  The logger is shared by all threads. A call that is shown takes \<open>m_mutex\<close> for the whole statement
  that writes its line, which is a chain of \<open>operator<<\<close> and not one write: here every byte is a step
  of its own, and the threads take steps in any order. The lines come out as if the calls had been
  made one after the other.
\<close>

section \<open>Threads and steps\<close>

text \<open>A thread is outside the logger, or it holds the lock and has the rest of a line to write.\<close>

datatype log_phase = Outside | Inside log_call bytes

text \<open>\<open>todo\<close> are the calls each thread still has to make; \<open>finished\<close> are those that have returned.\<close>

record log_state =
  m_mutex :: "nat option"
  todo :: "nat \<Rightarrow> log_call list"
  phase :: "nat \<Rightarrow> log_phase"
  streams :: console
  finished :: "(nat \<times> log_call) list"

definition log_start :: "(nat \<Rightarrow> log_call list) \<Rightarrow> console \<Rightarrow> log_state" where
  "log_start calls con = \<lparr> m_mutex = None, todo = calls, phase = (\<lambda>t. Outside), streams = con, finished = [] \<rparr>"

definition put_byte :: "log_call \<Rightarrow> char \<Rightarrow> console \<Rightarrow> console" where
  "put_byte c x con =
     (if lc_level c = error then con\<lparr>cerr := cerr con @ [x]\<rparr> else con\<lparr>cout := cout con @ [x]\<rparr>)"

inductive log_step :: "logger option \<Rightarrow> log_state \<Rightarrow> log_state \<Rightarrow> bool" for a where
  not_shown: "phase st t = Outside \<Longrightarrow> todo st t = c # cs \<Longrightarrow> \<not> shown a c \<Longrightarrow>
     log_step a st (st\<lparr>todo := (todo st)(t := cs), finished := finished st @ [(t, c)]\<rparr>)"
| locked: "phase st t = Outside \<Longrightarrow> todo st t = c # cs \<Longrightarrow> shown a c \<Longrightarrow> m_mutex st = None \<Longrightarrow>
     log_step a st (st\<lparr>m_mutex := Some t, todo := (todo st)(t := cs), phase := (phase st)(t := Inside c (written c))\<rparr>)"
| put: "phase st t = Inside c (x # rest) \<Longrightarrow>
     log_step a st (st\<lparr>phase := (phase st)(t := Inside c rest), streams := put_byte c x (streams st)\<rparr>)"
| unlocked: "phase st t = Inside c [] \<Longrightarrow>
     log_step a st (st\<lparr>m_mutex := None, phase := (phase st)(t := Outside), finished := finished st @ [(t, c)]\<rparr>)"

section \<open>Invariant\<close>

text \<open>The call a thread is in, and the calls of a thread that have returned.\<close>

definition current :: "log_state \<Rightarrow> nat \<Rightarrow> log_call list" where
  "current st t = (case phase st t of Outside \<Rightarrow> [] | Inside c rest \<Rightarrow> [c])"

definition returned :: "log_state \<Rightarrow> nat \<Rightarrow> log_call list" where
  "returned st t = map snd (filter (\<lambda>(t', c). t' = t) (finished st))"

definition put_all :: "log_call \<Rightarrow> bytes \<Rightarrow> console \<Rightarrow> console" where
  "put_all c bs con = fold (put_byte c) bs con"

definition log_inv :: "logger option \<Rightarrow> (nat \<Rightarrow> log_call list) \<Rightarrow> console \<Rightarrow> log_state \<Rightarrow> bool" where
  "log_inv a calls con st \<longleftrightarrow>
     (\<forall>t. phase st t \<noteq> Outside \<longrightarrow> m_mutex st = Some t) \<and>
     (\<forall>t. calls t = returned st t @ current st t @ todo st t) \<and>
     (let base = fold (make_call a) (map snd (finished st)) con in
      case m_mutex st of
        None \<Rightarrow> streams st = base
      | Some t \<Rightarrow> \<exists>c done rest. phase st t = Inside c rest \<and> shown a c \<and> written c = done @ rest \<and>
          streams st = put_all c done base)"

lemma put_all_written: "shown a c \<Longrightarrow> put_all c (written c) con = make_call a c con"
proof -
  have "put_all c bs con = (if lc_level c = error then con\<lparr>cerr := cerr con @ bs\<rparr> else con\<lparr>cout := cout con @ bs\<rparr>)" for bs
    by (induction bs arbitrary: con) (auto simp: put_all_def put_byte_def)
  then show "shown a c \<Longrightarrow> put_all c (written c) con = make_call a c con" by (simp add: make_call_effect)
qed

lemma put_all_snoc: "put_all c (bs @ [x]) con = put_byte c x (put_all c bs con)"
  by (simp add: put_all_def)

lemma returned_finished:
  "returned (st\<lparr>finished := finished st @ [(t, c)]\<rparr>) t' = returned st t' @ (if t' = t then [c] else [])"
  by (simp add: returned_def)

lemma log_step_inv:
  assumes "log_step a st st'" and inv: "log_inv a calls con st"
  shows "log_inv a calls con st'"
  using assms(1)
proof cases
  case (not_shown t c cs)
  have "make_call a c = id" using not_shown(4) by (auto simp: make_call_effect)
  with inv not_shown show ?thesis
    by (auto simp: log_inv_def returned_def current_def Let_def split: option.splits)
next
  case (locked t c cs)
  have "phase st t' = Outside" for t' using inv locked(5) by (auto simp: log_inv_def)
  with inv locked show ?thesis
    by (auto simp: log_inv_def returned_def current_def Let_def put_all_def)
next
  case (put t c x rest)
  then have m: "m_mutex st = Some t" using inv by (auto simp: log_inv_def)
  with inv put obtain d where d: "shown a c" "written c = d @ x # rest"
      "streams st = put_all c d (fold (make_call a) (map snd (finished st)) con)"
    by (auto simp: log_inv_def Let_def)
  have "streams st' = put_all c (d @ [x]) (fold (make_call a) (map snd (finished st')) con)"
    using put(1) d(3) by (simp add: put_all_snoc)
  moreover have "written c = (d @ [x]) @ rest" using d(2) by simp
  ultimately have "\<exists>c d rest. phase st' t = Inside c rest \<and> shown a c \<and> written c = d @ rest \<and>
      streams st' = put_all c d (fold (make_call a) (map snd (finished st')) con)"
    using put(1) d(1) by (intro exI [of _ c] exI [of _ "d @ [x]"] exI [of _ rest]) simp
  with inv put m show ?thesis by (auto simp: log_inv_def returned_def current_def Let_def)
next
  case (unlocked t c)
  then have m: "m_mutex st = Some t" using inv by (auto simp: log_inv_def)
  with inv unlocked have d: "shown a c" "streams st = put_all c (written c) (fold (make_call a) (map snd (finished st)) con)"
    by (auto simp: log_inv_def Let_def)
  have "phase st t' = Outside" if "t' \<noteq> t" for t' using inv m that by (auto simp: log_inv_def)
  with inv unlocked d show ?thesis
    by (auto simp: log_inv_def returned_def current_def Let_def put_all_written)
qed

text \<open>
  C31: log lines of several threads never mix. Whatever order the threads take their steps in, byte
  by byte, the two streams hold what the calls that have returned would have written one after the
  other, and behind it at most the beginning of one line, that of the thread that holds the lock;
  each thread's calls return in the order it made them.
\<close>

theorem log_lines_atomic:
  assumes "(log_step a)\<^sup>*\<^sup>* (log_start calls con) st"
  shows "(\<exists>c part. streams st = put_all c part (fold (make_call a) (map snd (finished st)) con) \<and>
      (part = [] \<or> (\<exists>t rest. m_mutex st = Some t \<and> phase st t = Inside c rest \<and> written c = part @ rest))) \<and>
    (\<forall>t. phase st t = Outside \<longrightarrow> calls t = returned st t @ todo st t)"
proof -
  have "log_inv a calls con st"
    using assms
  proof (induction rule: rtranclp_induct)
    case base
    show ?case by (simp add: log_inv_def log_start_def returned_def current_def)
  next
    case (step st st')
    with log_step_inv show ?case by blast
  qed
  then show ?thesis
    by (cases "m_mutex st") (auto simp: log_inv_def Let_def put_all_def current_def intro: exI [of _ "[]"])
qed

text \<open>Two threads with a line each; the second waits while the first is in the middle of its line.\<close>

definition demo_call :: "log_call" where
  "demo_call = \<lparr> lc_level = error, lc_func = ''f'', lc_file = ''a.cpp'', lc_line = 1, lc_text = ''x'' \<rparr>"

lemma log_lines_atomic_witness:
  "\<exists>st x. (log_step (Some (new_logger debug)))\<^sup>*\<^sup>* (log_start (\<lambda>t. [demo_call]) \<lparr> cout = [], cerr = [] \<rparr>) st \<and>
     m_mutex st = Some 0 \<and> cerr (streams st) = [x] \<and> returned st 1 @ todo st 1 = [demo_call]"
proof -
  let ?a = "Some (new_logger debug)" and ?st0 = "log_start (\<lambda>t. [demo_call]) \<lparr> cout = [], cerr = [] \<rparr>"
  have sh: "shown ?a demo_call" by (simp add: shown_def new_logger_def demo_call_def less_eq_log_level_def)
  obtain x rest where w: "written demo_call = x # rest" by (simp add: written_def log_line_def)
  define st1 where "st1 = ?st0\<lparr>m_mutex := Some 0, todo := (todo ?st0)(0 := []), phase := (phase ?st0)(0 := Inside demo_call (written demo_call))\<rparr>"
  have 1: "log_step ?a ?st0 st1"
    unfolding st1_def by (rule log_step.locked) (simp_all add: sh log_start_def)
  define st2 where "st2 = st1\<lparr>phase := (phase st1)(0 := Inside demo_call rest), streams := put_byte demo_call x (streams st1)\<rparr>"
  have 2: "log_step ?a st1 st2"
    unfolding st2_def by (rule log_step.put) (simp add: st1_def w)
  have run: "(log_step ?a)\<^sup>*\<^sup>* ?st0 st2" using 1 2 by (meson rtranclp.rtrancl_refl rtranclp.rtrancl_into_rtrancl)
  have "[demo_call] = returned st2 1 @ todo st2 1"
    by (rule log_lines_atomic [OF run, THEN conjunct2, rule_format]) (simp add: st2_def st1_def log_start_def)
  moreover have "cerr (streams st2) = [x]" "m_mutex st2 = Some 0"
    by (simp_all add: st2_def st1_def log_start_def put_byte_def demo_call_def)
  ultimately show ?thesis using run by (intro exI [of _ st2] exI [of _ x]) simp
qed

end
