(* ===== verification/Example.thy ===== *)
theory Example
  imports Answers Logger
begin

text \<open>
  The example program (\<open>src/example/example.cpp\<close>), which drives the whole library: it starts a pool,
  lets every thread listen and connect to a database, opens 99 connections of its own to the
  listeners, and sends a command on each. Also the test program (\<open>src/test/example.cpp\<close>).
\<close>

section \<open>Data\<close>

text \<open>\<open>CONN_INFO conn\<close> is declared once, its ports uninitialised, and set before each use.\<close>

definition local_address :: "16 word \<Rightarrow> CONN_INFO \<Rightarrow> CONN_INFO" where
  "local_address p conn = conn\<lparr>ci_type := IP_V4, ci_IP := ''127.0.0.1'', ci_port := p\<rparr>"

definition listener_task :: "CONN_INFO \<Rightarrow> TASK_MSG" where
  "listener_task conn = \<lparr> msg_type = NEW_LISTENER, msg_body = AnyConnInfo (local_address 6123 conn) \<rparr>"

definition connection_task :: "CONN_INFO \<Rightarrow> TASK_MSG" where
  "connection_task conn = \<lparr> msg_type = ADD_CONN, msg_body = AnyConnInfo (local_address 6379 conn) \<rparr>"

definition test_str :: bytes where
  "test_str = ''*3'' @ CRLF @ ''$3'' @ CRLF @ ''SET'' @ CRLF @ ''$5'' @ CRLF @ ''mykey'' @ CRLF @
     ''$8'' @ CRLF @ ''my value'' @ CRLF"

section \<open>The main function\<close>

text \<open>
  The pool, the clients of \<open>_tcp_conns\<close> with the loop threads they belong to, and the world. While
  \<open>main\<close> waits (in \<open>getchar\<close> or \<open>sleep_for\<close>) the other threads run and the network does what it
  likes: \<open>rest i\<close> is what happens in the \<open>i\<close>-th of these pauses, a fault of another thread included,
  which ends the program.
\<close>

type_synonym 'w scene = "loop_thread_pool \<times> (nat \<times> tcp_client) list \<times> 'w"

text \<open>
  One round of the loop that opens the clients. The loop of the chosen thread exists, because
  \<open>init\<close> of the pool has returned; the result of \<open>connect\<close> is ignored.
\<close>

definition open_client :: "'w sys \<Rightarrow> CONN_INFO \<Rightarrow> CONN_INFO \<Rightarrow> 'w scene \<Rightarrow> 'w scene run" where
  "open_client S conn junk = (\<lambda>(p, cs, w).
     andThen (get_loop_thread p) (\<lambda>(k, p1).
       andThen (client_connect S (new_tcp_client junk) (local_address 6123 conn) w) (\<lambda>(_, c, w1).
         Inr (p1, cs @ [(k, c)], w1))))"

fun open_clients :: "'w sys \<Rightarrow> CONN_INFO \<Rightarrow> CONN_INFO \<Rightarrow> (nat \<Rightarrow> 'w scene \<Rightarrow> 'w scene run) \<Rightarrow> nat \<Rightarrow> nat \<Rightarrow> 'w scene \<Rightarrow> 'w scene run" where
  "open_clients S conn junk rest i 0 \<sigma> = Inr \<sigma>"
| "open_clients S conn junk rest i (Suc n) \<sigma> =
     andThen (open_client S conn junk \<sigma>) (\<lambda>\<sigma>1.
       andThen (rest i \<sigma>1) (\<lambda>\<sigma>2. open_clients S conn junk rest (i + 1) n \<sigma>2))"

text \<open>\<open>c_str\<close> ends in a NUL, which is not sent. A client that is closed refuses; that is ignored.\<close>

fun send_test :: "'w sys \<Rightarrow> (nat \<times> tcp_client) list \<Rightarrow> 'w \<Rightarrow> 'w run" where
  "send_test S [] w = Inr w"
| "send_test S ((k, c) # cs) w =
     andThen (socket_send S c (test_str @ [NUL]) 0 (length test_str) w) (\<lambda>(_, w1). send_test S cs w1)"

text \<open>The end of the block destroys the vector and with it the clients.\<close>

fun drop_clients :: "'w sys \<Rightarrow> (nat \<times> tcp_client) list \<Rightarrow> 'w \<Rightarrow> 'w run" where
  "drop_clients S [] w = Inr w"
| "drop_clients S ((k, c) # cs) w = andThen (sptr_release S (bev_sptr c) w) (\<lambda>w1. drop_clients S cs w1)"

text \<open>
  \<open>main\<close>, from the call of \<open>init\<close> on; no result means that \<open>init\<close> never returns. The pauses are
  numbered: 0 after \<open>init\<close>, 1 and 2 the first two \<open>getchar\<close>, 3 to 101 the sleeps, then the rest.
\<close>

definition example_main ::
    "'w sys \<Rightarrow> 32 word \<Rightarrow> (nat \<Rightarrow> nat \<Rightarrow> loop_thread) \<Rightarrow> CONN_INFO \<Rightarrow> CONN_INFO \<Rightarrow> (nat \<Rightarrow> 'w scene \<Rightarrow> 'w scene run) \<Rightarrow> 'w \<Rightarrow>
     ('w scene run) option" where
  "example_main S concurrency obs conn junk rest w0 =
     map_option (\<lambda>(_, p0).
       andThen (rest 0 (p0, [], w0)) (\<lambda>(p1, _, w1).
       andThen (send_to_all S (listener_task conn) p1 w1) (\<lambda>(_, p2, w2).
       andThen (rest 1 (p2, [], w2)) (\<lambda>(p3, _, w3).
       andThen (send_to_all S (connection_task conn) p3 w3) (\<lambda>(_, p4, w4).
       andThen (rest 2 (p4, [], w4)) (\<lambda>(p5, _, w5).
       andThen (open_clients S conn junk rest 3 99 (p5, [], w5)) (\<lambda>\<sigma>6.
       andThen (rest 102 \<sigma>6) (\<lambda>(p7, cs7, w7).
       andThen (send_test S cs7 w7) (\<lambda>w8.
       andThen (rest 103 (p7, cs7, w8)) (\<lambda>(p9, cs9, w9).
       andThen (drop_clients S cs9 w9) (\<lambda>w10. rest 104 (p9, [], w10))))))))))))
       (pool_init obs (new_pool (instance_size concurrency)))"

section \<open>The test program\<close>

definition test_main :: "console \<Rightarrow> console" where
  "test_main con = con\<lparr>cout := cout con @ ''hello world!''\<rparr>"

section \<open>Facts\<close>

text \<open>The command of the example is one RESP message, so the proxy forwards it as one.\<close>

lemma digits: "digit_char 3 = CHR ''3''" "digit_char 5 = CHR ''5''" "digit_char 8 = CHR ''8''"
  by code_simp+

lemma test_str_command:
  "test_str = tokens_bytes [THeader 3, TBulk ''SET'', TBulk ''mykey'', TBulk ''my value'']"
  "whole_messages [THeader 3, TBulk ''SET'', TBulk ''mykey'', TBulk ''my value''] [test_str]"
  by (simp_all add: test_str_def whole_messages_def to_string_int_def to_string_digit digits)

text \<open>
  What the other threads leave alone: the pool itself, and the clients of \<open>main\<close> but for the
  bufferevents, which an event can take away. Loop threads stay such that tasks can be sent to them.
\<close>

definition no_null :: "(nat \<times> tcp_client) list \<Rightarrow> bool" where
  "no_null cs \<longleftrightarrow> list_all (\<lambda>(k, c). bev_sptr c \<noteq> OwnsNull) cs"

definition scene_ok :: "32 word \<Rightarrow> nat \<Rightarrow> 'w scene \<Rightarrow> bool" where
  "scene_ok n k = (\<lambda>(p, cs, w). loop_num p = n \<and> length (loop_threads p) = unat n \<and> list_all sendable (loop_threads p) \<and>
     select_index p = of_nat k \<and> no_null cs)"

text \<open>The clients with their threads and the addresses they were told to connect to.\<close>

definition targets_of :: "(nat \<times> tcp_client) list \<Rightarrow> (nat \<times> CONN_INFO) list" where
  "targets_of cs = map (\<lambda>(k, c). (k, conn_info c)) cs"

lemma targets_of_simps [simp]: "targets_of [] = []" "targets_of (cs @ [(k, c)]) = targets_of cs @ [(k, conn_info c)]"
  "targets_of cs = [] \<longleftrightarrow> cs = []"
  by (simp_all add: targets_of_def)

definition calm :: "('w scene \<Rightarrow> 'w scene run) \<Rightarrow> bool" where
  "calm f \<longleftrightarrow> (\<forall>p cs w n k. scene_ok n k (p, cs, w) \<longrightarrow>
     (\<exists>p' cs' w'. f (p, cs, w) = Inr (p', cs', w') \<and> scene_ok n k (p', cs', w') \<and> targets_of cs' = targets_of cs))"

lemma calmE:
  assumes "calm f" and "scene_ok n k (p, cs, w)"
  obtains p' cs' w' where "f (p, cs, w) = Inr (p', cs', w')" "scene_ok n k (p', cs', w')" "targets_of cs' = targets_of cs"
  using assms unfolding calm_def by metis

lemma calm_alone:
  assumes "calm f" and "scene_ok n k (p, [], w)"
  obtains p' w' where "f (p, [], w) = Inr (p', [], w')" "scene_ok n k (p', [], w')"
  by (rule calmE [OF assms]) (rule that, simp_all)

lemma send_to_all_ok:
  assumes "eventfd_ok S cnt" and "scene_ok n k (p, cs, w)"
  obtains p' w' where "send_to_all S msg p w = Inr (True, p', w')" "scene_ok n k (p', cs, w')"
    "loop_threads p' = map (enqueue msg) (loop_threads p)"
proof -
  have "list_all sendable (loop_threads p)" using assms(2) by (simp add: scene_ok_def)
  from send_each_all [OF assms(1) this, of "\<lambda>_. msg" 0 w] obtain w' where
    "send_each S (\<lambda>_. msg) 0 (loop_threads p) w = Inr (map2 (\<lambda>k. enqueue msg) [0..<0 + length (loop_threads p)] (loop_threads p), w')"
    by blast
  moreover have "map2 (\<lambda>k. enqueue msg) [0..<0 + length lts] lts = map (enqueue msg) lts" for lts
    by (rule nth_equalityI) simp_all
  ultimately have "send_to_all S msg p w = Inr (True, p\<lparr>loop_threads := map (enqueue msg) (loop_threads p)\<rparr>, w')"
    by (simp add: send_to_all_def)
  then show thesis
    by (rule that) (use assms(2) in \<open>auto simp: scene_ok_def list_all_iff sendable_def enqueue_def\<close>)
qed

lemma client_connect_no_null:
  assumes S: "libevent_ok S V" "inet_pton_ok S" "creates_bufferevents S" and c: "bev_sptr c = NoBev" and t: "ci_type conn = IP_V4"
  obtains ok c' w' where "client_connect S c conn w = Inr (ok, c', w')" "bev_sptr c' \<noteq> OwnsNull" "conn_info c' = conn"
proof -
  let ?c = "set_conn_info c conn"
  have i: "conn_info ?c = conn" by (simp add: set_conn_info_def)
  obtain fd w1 where s: "sys_socket S AF_INET w = (fd, w1)" by (rule prod.exhaust)
  show thesis
  proof (cases "fd < 0")
    case True
    with s t have "client_connect S c conn w = Inr (False, ?c, w1)" by (simp add: client_connect_def get_conn_type_def)
    then show thesis by (rule that) (use c i in simp_all)
  next
    case False
    have no: "bev_sptr ?c = NoBev" using c by simp
    obtain addr where "sockaddr_in S (ci_IP conn) (ci_port conn) = Inr addr"
      using sockaddr_in_total [OF S(2)] by blast
    with client_connect_IP_V4 [OF t s] False have r: "client_connect S c conn w = connect_fd S ?c addr fd w1" by simp
    show thesis
      using S(1) no
    proof (cases rule: connect_fd_cases [of S V ?c addr fd w1])
      case (failed w')
      show thesis by (rule that [of False ?c w']) (use failed(1) r no i in simp_all)
    next
      case (no_bev w')
      with S(3) have False unfolding creates_bufferevents_def by blast
      then show thesis ..
    next
      case (connected b w')
      with that r i show thesis by simp
    qed
  qed
qed

text \<open>The clients go to the loops in turn, the second loop first, all to the same address.\<close>

lemma open_clients_ok:
  assumes S: "libevent_ok S V" "inet_pton_ok S" "creates_bufferevents S" and n: "0 < n"
  shows "scene_ok n k (p, cs, w) \<Longrightarrow> (\<And>j. calm (rest j)) \<Longrightarrow> k + m < 2 ^ 32 \<Longrightarrow>
    \<exists>p' cs' w'. open_clients S conn junk rest i m (p, cs, w) = Inr (p', cs', w') \<and> scene_ok n (k + m) (p', cs', w') \<and>
      targets_of cs' = targets_of cs @ map (\<lambda>j. ((k + 1 + j) mod unat n, local_address 6123 conn)) [0..<m]"
proof (induction m arbitrary: i k p cs w)
  case (Suc m)
  note ok = Suc.prems(1) [unfolded scene_ok_def split]
  have u: "unat (select_index p) = k" using ok Suc.prems(3) by (simp add: unat_of_nat)
  have g: "get_loop_thread p = Inr ((k + 1) mod unat n, p\<lparr>select_index := select_index p + 1\<rparr>)"
  proof -
    have "loop_threads p \<noteq> []" using ok n by (auto simp: word_less_nat_alt)
    with get_loop_thread_index [of p] ok u Suc.prems(3) show ?thesis by simp
  qed
  have t: "ci_type (local_address 6123 conn) = IP_V4" "bev_sptr (new_tcp_client junk) = NoBev"
    by (simp_all add: local_address_def new_tcp_client_def)
  obtain r c w1 where c: "client_connect S (new_tcp_client junk) (local_address 6123 conn) w = Inr (r, c, w1)"
    "bev_sptr c \<noteq> OwnsNull" "conn_info c = local_address 6123 conn" by (rule client_connect_no_null [OF S t(2,1)])
  let ?p = "p\<lparr>select_index := select_index p + 1\<rparr>" and ?cs = "cs @ [((k + 1) mod unat n, c)]"
  have "scene_ok n (k + 1) (?p, ?cs, w1)" using ok c(2) by (simp add: scene_ok_def no_null_def add.commute)
  then obtain p2 cs2 w2 where rest: "rest i (?p, ?cs, w1) = Inr (p2, cs2, w2)" "scene_ok n (k + 1) (p2, cs2, w2)"
    "targets_of cs2 = targets_of ?cs" by (rule calmE [OF Suc.prems(2)])
  obtain p' cs' w' where IH: "open_clients S conn junk rest (i + 1) m (p2, cs2, w2) = Inr (p', cs', w')"
    "scene_ok n (k + 1 + m) (p', cs', w')"
    "targets_of cs' = targets_of cs2 @ map (\<lambda>j. ((k + 1 + 1 + j) mod unat n, local_address 6123 conn)) [0..<m]"
    using Suc.IH [OF rest(2) Suc.prems(2), of "i + 1"] Suc.prems(3) by auto
  have "[0..<Suc m] = 0 # map Suc [0..<m]" by (simp add: upt_conv_Cons map_Suc_upt del: upt_Suc)
  then have "targets_of cs' = targets_of cs @ map (\<lambda>j. ((k + 1 + j) mod unat n, local_address 6123 conn)) [0..<Suc m]"
    using IH(3) rest(3) c(3) by (simp add: comp_def del: upt_Suc)
  then show ?case using IH(1,2) rest(1) g c(1) by (simp add: open_client_def del: upt_Suc)
qed simp

text \<open>The command goes out once for each client that can send.\<close>

definition commands_to :: "(nat \<times> tcp_client) list \<Rightarrow> bev \<Rightarrow> bytes" where
  "commands_to cs h = concat (map (\<lambda>(k, c). if bev_sptr c = Bev h \<and> \<not> isClosing c then test_str else []) cs)"

lemma send_test_ok:
  assumes S: "libevent_ok S V" "no_failure S V"
  shows "\<exists>w'. send_test S cs w = Inr w' \<and> (\<forall>h. sent V w' h = sent V w h @ commands_to cs h)"
proof (induction cs arbitrary: w)
  case Nil
  show ?case by (simp add: commands_to_def)
next
  case (Cons kc cs)
  obtain k c where kc: "kc = (k, c)" by (rule prod.exhaust)
  have slice: "mem_slice (test_str @ [NUL]) 0 (length test_str) = Inr test_str" by (simp add: mem_slice_def)
  obtain r w1 where w1: "socket_send S c (test_str @ [NUL]) 0 (length test_str) w = Inr (r, w1)"
    "\<And>h. sent V w1 h = sent V w h @ (if bev_sptr c = Bev h \<and> \<not> isClosing c then test_str else [])"
  proof (cases "bev_get (bev_sptr c) = None \<or> isClosing c")
    case True
    then have "socket_send S c (test_str @ [NUL]) 0 (length test_str) w = Inr (False, w)"
      by (auto simp: socket_send_def split: option.splits)
    then show thesis by (rule that) (use True in \<open>auto simp: bev_get_def split: bev_sptr.splits\<close>)
  next
    case False
    then obtain b where b: "bev_sptr c = Bev b" "\<not> isClosing c" by auto
    obtain r w1 where wr: "bufferevent_write S b test_str w = (r, w1)" by (rule prod.exhaust)
    have "socket_send S c (test_str @ [NUL]) 0 (length test_str) w = Inr (r \<noteq> -1, w1)"
      using b slice wr by (simp add: socket_send_def)
    then show thesis
      by (rule that) (use bufferevent_write_ok [OF S(1) wr] no_failure_write [OF S(2) wr] b in auto)
  qed
  with Cons.IH [of w1] show ?case by (auto simp: kc commands_to_def)
qed

lemma drop_clients_ok:
  assumes "libevent_ok S V"
  shows "no_null cs \<Longrightarrow> \<exists>w'. drop_clients S cs w = Inr w' \<and> live V w' = live V w - {b. \<exists>k c. (k, c) \<in> set cs \<and> bev_sptr c = Bev b}"
proof (induction cs arbitrary: w)
  case (Cons kc cs)
  obtain k c where kc: "kc = (k, c)" by (rule prod.exhaust)
  have n: "no_null cs" "bev_sptr c \<noteq> OwnsNull" using Cons.prems by (simp_all add: kc no_null_def)
  obtain w1 where w1: "sptr_release S (bev_sptr c) w = Inr w1" "live V w1 = live V w - {b. bev_sptr c = Bev b}"
    using n(2) bufferevent_free_ok(1) [OF assms] by (cases "bev_sptr c") auto
  obtain w' where "drop_clients S cs w1 = Inr w'" "live V w' = live V w1 - {b. \<exists>k c. (k, c) \<in> set cs \<and> bev_sptr c = Bev b}"
    using Cons.IH [OF n(1)] by blast
  with w1 show ?case by (auto simp: kc)
qed simp

lemma pool_init_scene:
  assumes "\<And>i t. i < unat (instance_size concurrency) \<Longrightarrow> T \<le> t \<Longrightarrow> status_seen (obs t i) = Some StatusRunning"
  obtains p where "pool_init obs (new_pool (instance_size concurrency)) = Some (True, p)"
    "scene_ok (instance_size concurrency) 0 (p, [], w)"
proof -
  let ?n = "instance_size concurrency"
  obtain r where "pool_wait obs (unat ?n) = Some r" using pool_wait_returns [of "unat ?n" T obs, OF assms] by blast
  then have "pool_init obs (new_pool ?n) = Some (True, create_loops (unat ?n) (new_pool ?n))"
    by (simp add: pool_init_def new_pool_def create_loops_eq Let_def)
  then show thesis
    by (rule that) (simp add: scene_ok_def create_loops_eq new_pool_def no_null_def list_all_iff sendable_def new_loop_thread_def)
qed

text \<open>
  C28: what the example does. If \<open>init\<close> sees every loop running in the end, no call fails, and in the
  pauses of \<open>main\<close> no other thread faults and the pool and the clients' pointers stay in order, then
  \<open>main\<close> runs to its end without a fault. On its way it has put the listener task once at the end of
  the queue of every thread, then, after a pause, the connection task; it has opened 99 clients, to
  the address of the listener and on the threads in turn, starting with the second; it has written
  the command once to every client that can send then; and it has freed the bufferevents of all
  clients. What the other threads do in between is anything.
\<close>

theorem example_runs_to_end:
  assumes "libevent_ok S V" and "no_failure S V" and "inet_pton_ok S" and "creates_bufferevents S" and "eventfd_ok S cnt"
    and "\<And>i t. i < unat (instance_size concurrency) \<Longrightarrow> T \<le> t \<Longrightarrow> status_seen (obs t i) = Some StatusRunning"
    and "\<And>j. calm (rest j)"
  shows "\<exists>p0 p1 w1 p2 w2 p3 w3 p4 w4 p5 w5 p6 cs6 w6 p7 cs7 w7 w8 p9 cs9 w9 w10 p w.
    example_main S concurrency obs conn junk rest w0 = Some (Inr (p, [], w)) \<and>
    pool_init obs (new_pool (instance_size concurrency)) = Some (True, p0) \<and>
    rest 0 (p0, [], w0) = Inr (p1, [], w1) \<and>
    send_to_all S (listener_task conn) p1 w1 = Inr (True, p2, w2) \<and>
    loop_threads p2 = map (enqueue (listener_task conn)) (loop_threads p1) \<and>
    rest 1 (p2, [], w2) = Inr (p3, [], w3) \<and>
    send_to_all S (connection_task conn) p3 w3 = Inr (True, p4, w4) \<and>
    loop_threads p4 = map (enqueue (connection_task conn)) (loop_threads p3) \<and>
    rest 2 (p4, [], w4) = Inr (p5, [], w5) \<and>
    open_clients S conn junk rest 3 99 (p5, [], w5) = Inr (p6, cs6, w6) \<and>
    targets_of cs6 = map (\<lambda>j. ((j + 1) mod unat (instance_size concurrency), local_address 6123 conn)) [0..<99] \<and>
    rest 102 (p6, cs6, w6) = Inr (p7, cs7, w7) \<and>
    send_test S cs7 w7 = Inr w8 \<and> (\<forall>h. sent V w8 h = sent V w7 h @ commands_to cs7 h) \<and>
    rest 103 (p7, cs7, w8) = Inr (p9, cs9, w9) \<and>
    drop_clients S cs9 w9 = Inr w10 \<and>
    live V w10 = live V w9 - {b. \<exists>k c. (k, c) \<in> set cs9 \<and> bev_sptr c = Bev b} \<and>
    rest 104 (p9, [], w10) = Inr (p, [], w) \<and>
    length (loop_threads p) = unat (instance_size concurrency) \<and> select_index p = 99"
proof -
  let ?n = "instance_size concurrency"
  note calm = assms(7)
  obtain p0 where 0: "pool_init obs (new_pool ?n) = Some (True, p0)" "scene_ok ?n 0 (p0, [], w0)"
    by (rule pool_init_scene [OF assms(6)])
  obtain p1 w1 where 1: "rest 0 (p0, [], w0) = Inr (p1, [], w1)" "scene_ok ?n 0 (p1, [], w1)"
    by (rule calm_alone [OF calm 0(2)])
  obtain p2 w2 where 2: "send_to_all S (listener_task conn) p1 w1 = Inr (True, p2, w2)" "scene_ok ?n 0 (p2, [], w2)"
    "loop_threads p2 = map (enqueue (listener_task conn)) (loop_threads p1)" by (rule send_to_all_ok [OF assms(5) 1(2)])
  obtain p3 w3 where 3: "rest 1 (p2, [], w2) = Inr (p3, [], w3)" "scene_ok ?n 0 (p3, [], w3)"
    by (rule calm_alone [OF calm 2(2)])
  obtain p4 w4 where 4: "send_to_all S (connection_task conn) p3 w3 = Inr (True, p4, w4)" "scene_ok ?n 0 (p4, [], w4)"
    "loop_threads p4 = map (enqueue (connection_task conn)) (loop_threads p3)" by (rule send_to_all_ok [OF assms(5) 3(2)])
  obtain p5 w5 where 5: "rest 2 (p4, [], w4) = Inr (p5, [], w5)" "scene_ok ?n 0 (p5, [], w5)"
    by (rule calm_alone [OF calm 4(2)])
  have "0 < ?n" by (auto simp: instance_size_def word_gt_0)
  from open_clients_ok [OF assms(1,3,4) this 5(2), of rest 99 conn junk 3] calm obtain p6 cs6 w6 where
    6: "open_clients S conn junk rest 3 99 (p5, [], w5) = Inr (p6, cs6, w6)" "scene_ok ?n 99 (p6, cs6, w6)"
    "targets_of cs6 = map (\<lambda>j. ((j + 1) mod unat ?n, local_address 6123 conn)) [0..<99]" by auto
  obtain p7 cs7 w7 where 7: "rest 102 (p6, cs6, w6) = Inr (p7, cs7, w7)" "scene_ok ?n 99 (p7, cs7, w7)"
    by (rule calmE [OF calm 6(2)])
  obtain w8 where 8: "send_test S cs7 w7 = Inr w8" "\<forall>h. sent V w8 h = sent V w7 h @ commands_to cs7 h"
    using send_test_ok [OF assms(1,2)] by blast
  have "scene_ok ?n 99 (p7, cs7, w8)" using 7(2) by (simp add: scene_ok_def)
  then obtain p9 cs9 w9 where 9: "rest 103 (p7, cs7, w8) = Inr (p9, cs9, w9)" "scene_ok ?n 99 (p9, cs9, w9)"
    by (rule calmE [OF calm])
  then obtain w10 where 10: "drop_clients S cs9 w9 = Inr w10"
    "live V w10 = live V w9 - {b. \<exists>k c. (k, c) \<in> set cs9 \<and> bev_sptr c = Bev b}"
    using drop_clients_ok [OF assms(1), of cs9 w9] by (auto simp: scene_ok_def)
  have "scene_ok ?n 99 (p9, [], w10)" using 9(2) by (simp add: scene_ok_def no_null_def)
  then obtain p w where 11: "rest 104 (p9, [], w10) = Inr (p, [], w)" "scene_ok ?n 99 (p, [], w)"
    by (rule calm_alone [OF calm])
  have main: "example_main S concurrency obs conn junk rest w0 = Some (Inr (p, [], w))"
    by (simp only: example_main_def 0(1) 1(1) 2(1) 3(1) 4(1) 5(1) 6(1) 7(1) 8(1) 9(1) 10(1) 11(1) option.map split andThen_Inr)
  have "length (loop_threads p) = unat ?n" "select_index p = 99" using 11(2) by (simp_all add: scene_ok_def)
  note final = main this
  show ?thesis
    by (intro exI conjI)
      (rule final 0(1) 1(1) 2(1,3) 3(1) 4(1,3) 5(1) 6(1,3) 7(1) 8 9(1) 10 11(1))+
qed

text \<open>Three cores, so a pool of two threads, whose loops are seen running after five polls; calm pauses.\<close>

lemma example_runs_to_end_witness:
  "\<exists>p w cs6. example_main sim_sys 3 (\<lambda>t i. if t < 5 then new_loop_thread True else demo_started)
       (junk_info demo_junk) (junk_info demo_junk) (\<lambda>i \<sigma>. Inr \<sigma>) (sim_state [] []) = Some (Inr (p, [], w)) \<and>
    targets_of cs6 = map (\<lambda>j. ((j + 1) mod unat (instance_size 3), local_address 6123 (junk_info demo_junk))) [0..<99] \<and>
    length (loop_threads p) = unat (instance_size 3) \<and> select_index p = 99"
proof -
  let ?obs = "\<lambda>t i. if t < (5::nat) then new_loop_thread True else demo_started"
  have c: "calm (\<lambda>\<sigma>. Inr \<sigma>)" by (simp add: calm_def)
  have r: "status_seen (?obs t i) = Some StatusRunning" if "i < unat (instance_size 3)" "5 \<le> t" for i t :: nat
    using that demo_started_running by simp
  note run = example_runs_to_end [where concurrency = 3 and obs = ?obs and T = 5 and rest = "\<lambda>i \<sigma>. Inr \<sigma>" and
      conn = "junk_info demo_junk" and junk = "junk_info demo_junk" and ?w0.0 = "sim_state [] []",
      OF sim_ok sim_no_failure sim_inet_pton sim_creates sim_eventfd _ c]
  show ?thesis using run r by blast
qed

end
