(* ===== verification/Spec2Isabelle.thy ===== *)
theory Spec2Isabelle
  imports Resp_Framing Resp_Partial Multiplex Streams Loop_Props Task_Props Loop_Pool Pool_Props Pool_Multiplex
    Client_Traffic Stale_Delete Logger_Threads Example
begin

text \<open>
  \<^bold>\<open>database_proxy\<close>: a proxy between Redis clients and Redis servers, written in C++ on libevent. A
  pool of threads each runs one event loop. A loop thread accepts clients on a listener, keeps a
  session per client and some connections to the database; every complete RESP message a client
  sends goes to one of the connections in turn, and every complete message a connection sends goes
  to the session that has waited longest there. Other threads talk to a loop thread only through a
  queue of tasks and an eventfd. This library models the whole of it, from the parser of the byte
  stream to the pool, and proves what the parts promise to each other, and where the code breaks it.

  \<^bold>\<open>Commands and frames.\<close> The parser does not always deliver what clients send: an array with elements
  takes everything behind it in the buffer with it, and an array cut between two elements is
  delivered in pieces. What it delivers are \<open>frames\<close> (\<open>Resp_Stream\<close>). Statements that speak of commands,
  requests and replies are about RESP values and hold for \<open>legible\<close> input (\<open>Resp_Values\<close>,
  \<open>Dispatch_Props\<close>), on which both are the same: values without a CR in a payload, of which only the
  last is an array with elements; or the beginning of a value, cut inside a line, behind values that
  are no such arrays, with no LF in the two bytes behind the view. What happens on other input is shown by
  \<open>pipelined_commands_fault\<close>, \<open>split_array_misroutes_reply\<close> and \<open>bulk_length_ignored\<close>.

  \<^bold>\<open>How C++ is modelled.\<close>
  \<^item> A \<open>char *\<close> is the list of bytes readable from there, possibly longer than the length that is
    passed with it (\<open>Prelude\<close>). Undefined behaviour, an uncaught exception and \<open>std::terminate\<close> are
    values of type \<open>fault\<close>; a step that can end in one returns \<open>fault + result\<close>, and \<open>andThen\<close>
    sequences such steps. Exceptions that are caught are values of \<open>std_exception\<close> (\<open>Cxx_Std\<close>).
  \<^item> \<open>size_t\<close> and \<open>uint32_t\<close> are natural numbers with the wrap-around written out, counters and flags
    are words of their width.
  \<^item> Objects are records; objects with shared ownership (sessions, database connections) live on a
    heap of addresses in their loop thread, and what is reachable decides when they are destroyed.
    A \<open>shared_ptr\<close> with a deleter distinguishes "empty" from "owns a null pointer" (\<open>Tcp_Socket\<close>).
  \<^item> libevent, the operating system and boost's address parser are the fields of a record \<open>'w sys\<close>
    over an abstract state \<open>'w\<close> (\<open>System\<close>); every definition that calls them takes that record. What
    their documentation promises is \<open>libevent_ok\<close>, \<open>eventfd_ok\<close> and \<open>inet_pton_ok\<close>; \<open>no_failure\<close> and
    \<open>creates_bufferevents\<close> say that memory is not exhausted; \<open>clean_views\<close> says that the two bytes behind
    a view are no LF, and is assumed only where a message is cut. \<open>Sim_System\<close> is an instance on which all
    of these hold; only the witnesses run on it.
  \<^item> Uninitialised memory is an argument (\<open>junk\<close>). Log calls are left out of all parts but the logger.

  \<^bold>\<open>The theories and the code.\<close>
  \<^item> \<open>Prelude\<close>, \<open>Cxx_Std\<close>: vocabulary; \<open>std::find\<close>, \<open>std::stoi\<close>, \<open>std::to_string\<close>.
  \<^item> \<open>Resp_Parser\<close> (\<open>src/src/resp_parser.cpp\<close>): \<open>find_CRLF_index\<close>, the four scalar parsers, the
    mutually recursive \<open>process_array\<close> and \<open>process_resp\<close>, with a callback that changes a state.
    \<open>Resp_Facts\<close>, \<open>Resp_Stream\<close>: one message at a time, printed values, and the framing the parser
    implements (\<open>frames\<close>); \<open>Resp_Framing\<close>, \<open>Resp_Partial\<close>: the properties on complete and on cut
    input; \<open>Resp_Values\<close>: the input on which frames and values agree; \<open>Resp_Faults\<close>: which faults a run
    can have.
  \<^item> \<open>Util_Types\<close> (\<open>src/include/util.hpp\<close>): connection data, tasks, the any type.
  \<^item> \<open>Tcp_Socket\<close> (\<open>tcp_socket.hpp\<close>, \<open>tcp_socket.cpp\<close>), \<open>Tcp_Session\<close> (\<open>tcp_session.hpp\<close>), \<open>Inet\<close> and
    \<open>Tcp_Client\<close> (\<open>tcpClient.h\<close>, \<open>tcpClient.cpp\<close>) with \<open>Tcp_Client_Facts\<close> and \<open>Tcp_Client_Props\<close>:
    the socket base class, the client session, and connecting to the database.
  \<^item> \<open>Read_Handler\<close>: the scheme the three \<open>onRead\<close> functions share, over the locale \<open>read_source\<close> of an
    input buffer; it is interpreted on the socket here and on sessions and connections in
    \<open>Dispatch_Reads\<close>.
  \<^item> \<open>Loop\<close>, \<open>Loop_Props\<close> (\<open>loop.hpp\<close>, \<open>loop.cpp\<close>): the loop object and how \<open>start\<close>, \<open>stop\<close>, \<open>wait\<close> and
    the threads inside \<open>_run\<close> interleave.
  \<^item> \<open>Loop_Thread\<close> (\<open>loop_thread.hpp\<close>, \<open>eventfd_client.hpp\<close>, \<open>tcp_listener.cpp\<close>): the state of a loop
    thread, reference counts, posting a task, a new session.
  \<^item> \<open>Dispatch\<close> (\<open>tcp_session.cpp\<close>, \<open>redis_tcp_client.hpp\<close>): the read callbacks with the round robin and
    the reply queues, and the session's event handler. \<open>Dispatch_Facts\<close>, \<open>Dispatch_Reads\<close>,
    \<open>Dispatch_Props\<close>: what they do to whole buffers. \<open>Proxy_Props\<close>: request and reply of one session.
    \<open>Multiplex\<close>: many sessions on one connection refine an abstract first-in first-out multiplexer,
    in terms of frames. \<open>Commands\<close>: the same in terms of commands and replies, on legible input.
    \<open>Streams\<close>: replies that arrive in pieces, commands that do.
  \<^item> \<open>Tasks\<close> (\<open>loop_thread.cpp\<close>, \<open>tcp_listener.hpp\<close>, \<open>eventfd_server.hpp\<close>): every task, the listener,
    and the set-up of a loop thread. \<open>Task_Props\<close>: what the tasks do. \<open>Stale_Delete\<close>: a run in which the
    deletion of one session ends another.
  \<^item> \<open>Thread_Safety\<close>, \<open>Thread_Steps\<close>: the loop thread as a transition system (callbacks, posted tasks,
    changes of the system, in any order), its invariant, and the absence of null dereferences.
    \<open>Empty_Queue\<close>: only the read callback of a connection takes the front of a reply queue.
  \<^item> \<open>Thread_Relation\<close>: the locale \<open>thread_relation\<close> collects the elementary changes a callback is made
    of, and shows that a relation that holds for these holds for every callback. It is interpreted
    in \<open>Ownership\<close> (each bufferevent has one owner, and those of others are left alone) and in
    \<open>Lifetimes\<close> (sessions exist while they are referenced; what waits on a lost connection; the types
    of tasks).
  \<^item> \<open>Mailbox\<close>: the locale \<open>mailbox\<close> for a queue with a wake-up flag under interleaved use, interpreted
    on \<open>send2loop_thread\<close>, \<open>evfc_cb\<close> and \<open>process_msg\<close>.
  \<^item> \<open>Loop_Pool\<close> (\<open>loop_thread_pool.hpp\<close>): creation, the polling loop of \<open>init\<close>, choosing a loop, tasks
    to all loops, stopping.
  \<^item> \<open>Pool_System\<close>: all threads of a pool over one system, with threads started, callbacks, posted
    tasks and changes of the network in any order. \<open>Pool_Props\<close>: its safety properties.
    \<open>Pool_Multiplex\<close>: the multiplexer in every reachable state of a pool.
  \<^item> \<open>Connections\<close>: any number of sessions on any number of connections as an array of first-in
    first-out queues (\<open>traffic\<close>, \<open>queues_after\<close>, \<open>deliveries\<close>), and runs of the read callbacks over it
    (\<open>proxy_run\<close>), in terms of frames. \<open>Answers\<close>: what a run does to queues and buffers, and who waits for
    what; replies that overtake each other. \<open>Client_Traffic\<close>: runs of commands on legible input, from every
    reachable state of a pool; clients that wait for their replies; the round robin over a whole run.
  \<^item> \<open>Logger\<close> (\<open>logger.hpp\<close>, \<open>logger.cpp\<close>): levels, lines, streams. \<open>Logger_Threads\<close>: several threads
    that log under \<open>m_mutex\<close>, byte by byte.
  \<^item> \<open>Example\<close> (\<open>src/example/example.cpp\<close>, \<open>src/test/example.cpp\<close>): the program that drives the library,
    with what other threads and the network do while it waits, a fault included, as a parameter.

  \<^bold>\<open>What is shown.\<close> The parser delivers the frames of a stream of CR-free tokens once and in order, also
  when the stream is cut inside a token; it terminates; it stays inside the buffer when two more
  bytes are readable behind it, and otherwise reads past its end. On legible input requests are
  forwarded whole, in order and in turn; replies reach the sessions that wait for them, in order;
  together the proxy refines the multiplexer, and with several connections an array of queues, from
  every reachable state of a pool; a client that waits for each reply before it sends on gets right
  ones. No callback of a reachable pool follows a null pointer while bufferevents can be created, but
  for the front of an empty reply queue, which only the read callback of a connection can take; every
  bufferevent has one owner, threads do not disturb each other, and a session lives exactly as long as
  the map or a reply queue refers to it. No task and no wake-up is lost, and tasks stay well typed. Log
  lines never mix. The set-up and the end of loops, sessions, connections and the pool are described
  branch by branch; the status of a loop never goes back when it is started once or for new
  threads only; and the example program runs to its end. The same definitions show the faults:
  among others the inverted condition of \<open>get_socket\<close>, replies that overtake each other, pipelined array
  commands that merge into one message, commands cut between two elements that become two, reply queues
  of lost connections that are never emptied, the empty reply queue, buffer overflows with long socket
  paths and IPv6 listeners, deletion by file descriptor, and the pool that waits for ever for a loop
  that failed.

  \<^bold>\<open>Bounds and fuel.\<close> \<open>process_resp\<close> runs with \<open>len + 1\<close> units of fuel; every round of its loop
  consumes at least two bytes, so this is always enough (\<open>process_resp_terminates\<close>). The retry loop
  of the dispatcher terminates by its 16-bit counter. The polling loop of the pool is a
  \<open>while_option\<close>, so that not returning is the result \<open>None\<close>. Statements on the dispatcher with
  several connections assume that the 32-bit turn counter of a session does not wrap and fewer than
  65535 connections; what happens otherwise is \<open>counter_wrap_skips_connections\<close> and \<open>retry_counter_truncated\<close>. Buffers are
  shorter than \<open>2 ^ 32\<close> bytes, the limit of \<open>getInputBufferLength\<close>.

  \<^bold>\<open>Not modelled.\<close> What happens inside libevent (event order, deferred callbacks, sockets) beyond its
  documented promises; data races on members that the code reads without a lock (\<open>_status\<close> is atomic,
  \<open>_evfd\<close> and the pool's index are not): a step of the model is a whole callback, a locked
  section or one read (in the logger one byte); exhaustion of memory inside the standard library; the
  keyboard and the log calls of the example program, build files, and the
  \<open>EventFdServer::set_evfd_arg\<close> the program never calls.
\<close>

end
